(* ===== verification/Go_Prelude.thy ===== *)
theory Go_Prelude
  imports Main "HOL-Library.Word" "HOL-Library.Signed_Division"
begin

text \<open>
  Shared vocabulary of the development: the Go run-time outcomes the components can have
  (a normal return or a run-time panic), the checked operations of the language on slices
  and integers, the fixed-width integer types, and the lemmas on them that every component
  uses.  A Go \<open>int\<close>, \<open>int32\<close>, \<open>int64\<close> or \<open>time.Duration\<close> that the
  source only stores and compares is an \<^typ>\<open>int\<close> carrying its value; where the source
  computes with it and can wrap around, it is a \<^typ>\<open>64 word\<close>.
\<close>

named_theorems go_defs \<open>definitions of the checked Go operations\<close>

type_synonym byte = "8 word"
type_synonym bytes = "8 word list"
type_synonym u64 = "64 word"
type_synonym i64 = "64 word"
type_synonym duration = int
type_synonym err = "string option"

section \<open>Outcomes\<close>

text \<open>A run-time panic ends the call without a result; no caller in the repository recovers.\<close>

datatype go_panic =
    NilDeref
  | NilFuncCall
  | IndexOutOfRange
  | SliceOutOfRange
  | IntegerDivideByZero
  | MakesliceLenOutOfRange
  | SendOnClosedChannel
  | CloseOfClosedChannel
  | Explicit string

datatype 'a go = Ret 'a | Panic go_panic

primrec go_bind :: "'a go \<Rightarrow> ('a \<Rightarrow> 'b go) \<Rightarrow> 'b go" where
  "go_bind (Ret x) f = f x"
| "go_bind (Panic p) f = Panic p"

primrec is_ret :: "'a go \<Rightarrow> bool" where
  "is_ret (Ret x) = True"
| "is_ret (Panic p) = False"

section \<open>Checked operations\<close>

text \<open>\<open>xs[i]\<close> panics outside of the slice, for an index of either signedness.\<close>

definition slice_get :: "'a list \<Rightarrow> int \<Rightarrow> 'a go" where
  "slice_get xs i = (if 0 \<le> i \<and> i < int (length xs) then Ret (xs ! nat i) else Panic IndexOutOfRange)"

definition slice_set :: "'a list \<Rightarrow> int \<Rightarrow> 'a \<Rightarrow> 'a list go" where
  "slice_set xs i v =
     (if 0 \<le> i \<and> i < int (length xs) then Ret (xs[nat i := v]) else Panic IndexOutOfRange)"

text \<open>\<open>xs[:n]\<close> of an array or slice whose capacity is its length.\<close>

definition slice_upto :: "'a list \<Rightarrow> int \<Rightarrow> 'a list go" where
  "slice_upto xs n =
     (if 0 \<le> n \<and> n \<le> int (length xs) then Ret (take (nat n) xs) else Panic SliceOutOfRange)"

text \<open>\<open>make([]T, n)\<close>: a slice of zero values.  Exhausting memory is not modelled.\<close>

definition go_make :: "int \<Rightarrow> 'a \<Rightarrow> 'a list go" where
  "go_make n z = (if n < 0 then Panic MakesliceLenOutOfRange else Ret (replicate (nat n) z))"

text \<open>The remainder operator on \<open>uint64\<close> and on \<open>int64\<close> (truncating).\<close>

definition umod64 :: "u64 \<Rightarrow> u64 \<Rightarrow> u64 go" where
  "umod64 a b = (if b = 0 then Panic IntegerDivideByZero else Ret (a mod b))"

definition smod64 :: "i64 \<Rightarrow> i64 \<Rightarrow> i64 go" where
  "smod64 a b = (if b = 0 then Panic IntegerDivideByZero else Ret (word_of_int (sint a smod sint b)))"

declare slice_get_def [go_defs] slice_set_def [go_defs] slice_upto_def [go_defs]
  go_make_def [go_defs] umod64_def [go_defs] smod64_def [go_defs]

text \<open>\<open>d.Milliseconds()\<close> of a duration in nanoseconds: truncating division.\<close>

definition milliseconds :: "duration \<Rightarrow> int" where
  "milliseconds d = d sdiv 1000000"

definition second :: duration where "second = 1000000000"

definition minute :: duration where "minute = 60 * second"

section \<open>Lemmas\<close>

lemma go_bind_assoc [simp]:
  "go_bind (go_bind m f) g = go_bind m (\<lambda>x. go_bind (f x) g)"
  by (cases m) simp_all

lemma go_bind_Ret_right [simp]: "go_bind m Ret = m"
  by (cases m) simp_all

lemma go_bind_eq_Ret_iff:
  "go_bind m f = Ret y \<longleftrightarrow> (\<exists>x. m = Ret x \<and> f x = Ret y)"
  by (cases m) simp_all

lemma go_bind_eq_Panic_iff:
  "go_bind m f = Panic p \<longleftrightarrow> m = Panic p \<or> (\<exists>x. m = Ret x \<and> f x = Panic p)"
  by (cases m) simp_all

lemma case_result_eq_iff:
  "(case r of (p, Inl e) \<Rightarrow> f p e | (p, Inr x) \<Rightarrow> g p x) = y \<longleftrightarrow>
     (\<exists>p e. r = (p, Inl e) \<and> f p e = y) \<or> (\<exists>p x. r = (p, Inr x) \<and> g p x = y)"
  by (cases r; cases "snd r") auto

lemma is_ret_iff: "is_ret m \<longleftrightarrow> (\<exists>x. m = Ret x)"
  by (cases m) simp_all

lemma slice_get_in [simp]: "i < length xs \<Longrightarrow> slice_get xs (int i) = Ret (xs ! i)"
  by (simp add: slice_get_def)

lemma slice_set_in [simp]: "i < length xs \<Longrightarrow> slice_set xs (int i) v = Ret (xs[i := v])"
  by (simp add: slice_set_def)

lemma slice_get_neg [simp]: "i < 0 \<Longrightarrow> slice_get xs i = Panic IndexOutOfRange"
  by (simp add: slice_get_def)

lemma milliseconds_nonneg: "0 \<le> d \<Longrightarrow> milliseconds d = d div 1000000"
  by (auto simp: milliseconds_def signed_divide_int_def sgn_if)

lemma milliseconds_eq_0_iff: "milliseconds d = 0 \<longleftrightarrow> \<bar>d\<bar> < 1000000"
  by (auto simp: milliseconds_def signed_divide_int_def sgn_if zdiv_eq_0_iff)

lemma milliseconds_pos_iff: "0 < milliseconds d \<longleftrightarrow> 1000000 \<le> d"
proof (cases "0 \<le> d")
  case True
  then have "0 < milliseconds d \<longleftrightarrow> 0 < d div 1000000"
    by (simp add: milliseconds_nonneg)
  also have "\<dots> \<longleftrightarrow> 1000000 \<le> d"
    by (simp add: pos_imp_zdiv_pos_iff)
  finally show ?thesis .
next
  case False
  then have "0 \<le> \<bar>d\<bar> div 1000000" by simp
  with False show ?thesis
    by (auto simp: milliseconds_def signed_divide_int_def sgn_if)
qed

text \<open>Short runs of a step relation.\<close>

lemma rtranclp_two: "r a b \<Longrightarrow> r b c \<Longrightarrow> r\<^sup>*\<^sup>* a c"
  by (rule rtranclp.rtrancl_into_rtrancl [OF r_into_rtranclp])

lemma rtranclp_three: "r a b \<Longrightarrow> r b c \<Longrightarrow> r c d \<Longrightarrow> r\<^sup>*\<^sup>* a d"
  by (rule rtranclp.rtrancl_into_rtrancl [OF rtranclp_two])

end
