(* ===== verification/Topic_Manager.thy ===== *)
theory Topic_Manager
  imports Go_Prelude
begin

text \<open>
  The topic table of the controller (\<open>core/topic.go\<close>): a map from topic names to pointers to
  topic wrappers.  Wrappers are shared by reference (the controller keeps a pointer it got
  from \<open>getTopicWrapper\<close> and stores to its atomic state later), so the model has an explicit
  heap of wrappers and the map holds addresses.  Every operation runs under the manager's
  lock from its first to its last line and is one atomic function here.
  The type variables are the library's topic handles, subscriptions and relay-cancel functions.
\<close>

section \<open>State\<close>

record ('top, 'sub, 'fn) topicWrapper =
  tw_state :: "32 word"
  tw_topic :: "'top option"
  tw_sub :: "'sub option"
  tw_relayCancelFn :: "'fn option"

record ('top, 'sub, 'fn) topicManager =
  tm_topics :: "string \<Rightarrow> nat option"
  tm_heap :: "nat \<Rightarrow> ('top, 'sub, 'fn) topicWrapper"
  tm_next :: nat

definition topicStateUnknown :: "32 word" where "topicStateUnknown = 0"

definition topicStateJoining :: "32 word" where "topicStateJoining = 1"

definition topicStateJoined :: "32 word" where "topicStateJoined = 2"

definition topicStateErr :: "32 word" where "topicStateErr = 10"

lemmas topic_state_defs =
  topicStateUnknown_def topicStateJoining_def topicStateJoined_def topicStateErr_def

text \<open>The zero value \<open>&topicWrapper{}\<close>.\<close>

definition zeroWrapper :: "('top, 'sub, 'fn) topicWrapper" where
  "zeroWrapper = \<lparr>tw_state = topicStateUnknown, tw_topic = None, tw_sub = None,
     tw_relayCancelFn = None\<rparr>"

section \<open>Operations\<close>

definition newTopicManager :: "('top, 'sub, 'fn) topicManager" where
  "newTopicManager = \<lparr>tm_topics = (\<lambda>_. None), tm_heap = (\<lambda>_. zeroWrapper), tm_next = 0\<rparr>"

text \<open>A store through a wrapper pointer.\<close>

definition tm_poke :: "('top, 'sub, 'fn) topicManager \<Rightarrow> nat \<Rightarrow> ('top, 'sub, 'fn) topicWrapper
    \<Rightarrow> ('top, 'sub, 'fn) topicManager" where
  "tm_poke tm a tw = tm\<lparr>tm_heap := (tm_heap tm)(a := tw)\<rparr>"

definition joiningTopic ::
    "('top, 'sub, 'fn) topicManager \<Rightarrow> string \<Rightarrow> ('top, 'sub, 'fn) topicManager" where
  "joiningTopic tm name =
     (let a = tm_next tm; tw = zeroWrapper\<lparr>tw_state := topicStateJoining\<rparr>
      in tm\<lparr>tm_heap := (tm_heap tm)(a := tw), tm_next := Suc a,
            tm_topics := (tm_topics tm)(name \<mapsto> a)\<rparr>)"

definition upgradeTopic :: "('top, 'sub, 'fn) topicManager \<Rightarrow> string \<Rightarrow> 'top option
    \<Rightarrow> ('top, 'sub, 'fn) topicManager \<times> bool" where
  "upgradeTopic tm name topic =
     (case tm_topics tm name of
        None \<Rightarrow> (tm, False)
      | Some a \<Rightarrow>
          let tw = tm_heap tm a in
          if tw_state tw \<noteq> topicStateJoining then (tm, False)
          else
            (let tw' = tw\<lparr>tw_state := topicStateJoined, tw_topic := topic\<rparr>;
                 tm' = tm_poke tm a tw'
             in (tm'\<lparr>tm_topics := (tm_topics tm')(name \<mapsto> a)\<rparr>, True)))"

definition setTopicRelayCancelFn :: "('top, 'sub, 'fn) topicManager \<Rightarrow> string \<Rightarrow> 'fn option
    \<Rightarrow> ('top, 'sub, 'fn) topicManager \<times> bool" where
  "setTopicRelayCancelFn tm name fn =
     (case tm_topics tm name of
        None \<Rightarrow> (tm, False)
      | Some a \<Rightarrow>
          let tm' = tm_poke tm a ((tm_heap tm a)\<lparr>tw_relayCancelFn := fn\<rparr>)
          in (tm'\<lparr>tm_topics := (tm_topics tm')(name \<mapsto> a)\<rparr>, True))"

text \<open>The result is a pointer: an address, or \<open>None\<close> for nil.\<close>

definition getTopicWrapper :: "('top, 'sub, 'fn) topicManager \<Rightarrow> string \<Rightarrow> nat option" where
  "getTopicWrapper tm topic = (case tm_topics tm topic of None \<Rightarrow> None | Some t \<Rightarrow> Some t)"

definition addSub :: "('top, 'sub, 'fn) topicManager \<Rightarrow> string \<Rightarrow> 'sub option
    \<Rightarrow> ('top, 'sub, 'fn) topicManager \<times> bool" where
  "addSub tm name sub =
     (case tm_topics tm name of
        None \<Rightarrow> (tm, False)
      | Some a \<Rightarrow> (tm_poke tm a ((tm_heap tm a)\<lparr>tw_sub := sub\<rparr>), True))"

definition getSub :: "('top, 'sub, 'fn) topicManager \<Rightarrow> string \<Rightarrow> 'sub option" where
  "getSub tm topic =
     (case tm_topics tm topic of None \<Rightarrow> None | Some a \<Rightarrow> tw_sub (tm_heap tm a))"

section \<open>Invariant and abstraction\<close>

text \<open>
  Every pointer in the map was allocated, no two names share a wrapper, a wrapper's state is
  one of the four constants, and a wrapper has a topic handle exactly when it is past joining.
\<close>

definition wrapper_ok :: "('top, 'sub, 'fn) topicWrapper \<Rightarrow> bool" where
  "wrapper_ok tw \<longleftrightarrow>
     tw_state tw \<in> {topicStateUnknown, topicStateJoining, topicStateJoined, topicStateErr} \<and>
     (tw_topic tw = None \<longleftrightarrow> tw_state tw = topicStateJoining)"

definition tm_inv :: "('top, 'sub, 'fn) topicManager \<Rightarrow> bool" where
  "tm_inv tm \<longleftrightarrow>
     (\<forall>n a. tm_topics tm n = Some a \<longrightarrow> a < tm_next tm \<and> wrapper_ok (tm_heap tm a)) \<and>
     (\<forall>n m a. tm_topics tm n = Some a \<longrightarrow> tm_topics tm m = Some a \<longrightarrow> n = m)"

text \<open>The abstract table: names to wrapper values.\<close>

definition tm_view :: "('top, 'sub, 'fn) topicManager \<Rightarrow> string
    \<Rightarrow> ('top, 'sub, 'fn) topicWrapper option" where
  "tm_view tm n = map_option (tm_heap tm) (tm_topics tm n)"

text \<open>The operations on the abstract table, by name and without pointers.\<close>

type_synonym ('top, 'sub, 'fn) table = "string \<Rightarrow> ('top, 'sub, 'fn) topicWrapper option"

definition tab_joining :: "('top, 'sub, 'fn) table \<Rightarrow> string \<Rightarrow> ('top, 'sub, 'fn) table" where
  "tab_joining t n = t(n \<mapsto> zeroWrapper\<lparr>tw_state := topicStateJoining\<rparr>)"

definition tab_upgrade :: "('top, 'sub, 'fn) table \<Rightarrow> string \<Rightarrow> 'top option
    \<Rightarrow> ('top, 'sub, 'fn) table \<times> bool" where
  "tab_upgrade t n tp = (case t n of
      Some tw \<Rightarrow> if tw_state tw = topicStateJoining
        then (t(n \<mapsto> tw\<lparr>tw_state := topicStateJoined, tw_topic := tp\<rparr>), True) else (t, False)
    | None \<Rightarrow> (t, False))"

definition tab_modify :: "('top, 'sub, 'fn) table \<Rightarrow> string
    \<Rightarrow> (('top, 'sub, 'fn) topicWrapper \<Rightarrow> ('top, 'sub, 'fn) topicWrapper)
    \<Rightarrow> ('top, 'sub, 'fn) table \<times> bool" where
  "tab_modify t n f = (case t n of Some tw \<Rightarrow> (t(n \<mapsto> f tw), True) | None \<Rightarrow> (t, False))"

section \<open>Lemmas\<close>

lemma tm_inv_new [simp]: "tm_inv newTopicManager"
  by (simp add: tm_inv_def newTopicManager_def)

lemma tm_view_new [simp]: "tm_view newTopicManager = (\<lambda>_. None)"
  by (simp add: tm_view_def newTopicManager_def fun_eq_iff)

lemma tm_inv_poke:
  assumes "tm_inv tm" "wrapper_ok tw"
  shows "tm_inv (tm_poke tm a tw)"
  using assms by (auto simp: tm_inv_def tm_poke_def)

lemma tm_view_poke:
  assumes "tm_inv tm" "tm_topics tm n = Some a"
  shows "tm_view (tm_poke tm a tw) = (tm_view tm)(n \<mapsto> tw)"
proof
  fix m show "tm_view (tm_poke tm a tw) m = ((tm_view tm)(n \<mapsto> tw)) m"
    using assms unfolding tm_inv_def
    by (cases "tm_topics tm m") (auto simp: tm_view_def tm_poke_def)
qed

lemma tm_topics_poke [simp]: "tm_topics (tm_poke tm a tw) = tm_topics tm"
  by (simp add: tm_poke_def)

lemma tm_topics_same [simp]:
  "tm_topics tm n = Some a
     \<Longrightarrow> (tm_poke tm b tw)\<lparr>tm_topics := (tm_topics tm)(n \<mapsto> a)\<rparr> = tm_poke tm b tw"
  by (cases tm) (simp add: tm_poke_def fun_upd_idem)

lemma wrapper_ok_view: "tm_inv tm \<Longrightarrow> tm_view tm n = Some tw \<Longrightarrow> wrapper_ok tw"
  by (auto simp: tm_view_def tm_inv_def)

lemma view_None_iff: "tm_view tm n = None \<longleftrightarrow> getTopicWrapper tm n = None"
  by (auto simp: tm_view_def getTopicWrapper_def split: option.splits)

lemma joiningTopic_inv: "tm_inv tm \<Longrightarrow> tm_inv (joiningTopic tm n)"
  by (fastforce simp: tm_inv_def joiningTopic_def Let_def wrapper_ok_def zeroWrapper_def
      split: if_splits)

lemma joiningTopic_view: "tm_inv tm \<Longrightarrow> tm_view (joiningTopic tm n) = tab_joining (tm_view tm) n"
proof
  fix m assume "tm_inv tm"
  then show "tm_view (joiningTopic tm n) m = tab_joining (tm_view tm) n m"
    unfolding tm_inv_def
    by (cases "tm_topics tm m") (auto simp: tm_view_def tab_joining_def joiningTopic_def Let_def)
qed

lemma upgradeTopic_inv:
  "tm_inv tm \<Longrightarrow> tm_inv (fst (upgradeTopic tm n (Some t)))"
  by (auto simp: upgradeTopic_def Let_def wrapper_ok_def topic_state_defs
      intro!: tm_inv_poke split: option.splits)

lemma upgradeTopic_view:
  "tm_inv tm \<Longrightarrow> tm_view (fst (upgradeTopic tm n t)) = fst (tab_upgrade (tm_view tm) n t)
     \<and> snd (upgradeTopic tm n t) = snd (tab_upgrade (tm_view tm) n t)"
  by (auto simp: upgradeTopic_def tab_upgrade_def Let_def tm_view_poke
      split: option.splits) (auto simp: tm_view_def)

lemma poke_field_inv:
  assumes "tm_inv tm" "tm_topics tm n = Some a"
    and "tw_state tw = tw_state (tm_heap tm a)" "tw_topic tw = tw_topic (tm_heap tm a)"
  shows "tm_inv (tm_poke tm a tw)"
proof -
  have "wrapper_ok (tm_heap tm a)" using assms(1,2) by (auto simp: tm_inv_def)
  then have "wrapper_ok tw" using assms(3,4) by (simp add: wrapper_ok_def)
  with assms(1) show ?thesis by (rule tm_inv_poke)
qed

lemma setTopicRelayCancelFn_inv: "tm_inv tm \<Longrightarrow> tm_inv (fst (setTopicRelayCancelFn tm n fn))"
  by (auto simp: setTopicRelayCancelFn_def Let_def intro: poke_field_inv split: option.splits)

lemma setTopicRelayCancelFn_view:
  "tm_inv tm \<Longrightarrow> tm_view (fst (setTopicRelayCancelFn tm n fn))
       = fst (tab_modify (tm_view tm) n (\<lambda>tw. tw\<lparr>tw_relayCancelFn := fn\<rparr>))
     \<and> snd (setTopicRelayCancelFn tm n fn)
       = snd (tab_modify (tm_view tm) n (\<lambda>tw. tw\<lparr>tw_relayCancelFn := fn\<rparr>))"
  by (auto simp: setTopicRelayCancelFn_def tab_modify_def Let_def tm_view_poke
      split: option.splits) (auto simp: tm_view_def)

lemma addSub_inv: "tm_inv tm \<Longrightarrow> tm_inv (fst (addSub tm n s))"
  by (auto simp: addSub_def intro: poke_field_inv split: option.splits)

lemma addSub_view:
  "tm_inv tm \<Longrightarrow> tm_view (fst (addSub tm n s))
       = fst (tab_modify (tm_view tm) n (\<lambda>tw. tw\<lparr>tw_sub := s\<rparr>))
     \<and> snd (addSub tm n s) = snd (tab_modify (tm_view tm) n (\<lambda>tw. tw\<lparr>tw_sub := s\<rparr>))"
  by (auto simp: addSub_def tab_modify_def tm_view_poke split: option.splits)
    (auto simp: tm_view_def)

lemma getSub_view: "getSub tm n = Option.bind (tm_view tm n) tw_sub"
  by (auto simp: getSub_def tm_view_def split: option.splits)

section \<open>The interface the controller relies on\<close>

text \<open>
  What a topic table promises to its client: every operation keeps the invariant and acts on
  the abstract table as specified.  The facts the controller's proofs use are proved from these
  laws and hold for the manager through its interpretation.
\<close>

locale topic_table =
  fixes joining :: "'s \<Rightarrow> string \<Rightarrow> 's"
    and upgrade :: "'s \<Rightarrow> string \<Rightarrow> 'top option \<Rightarrow> 's \<times> bool"
    and set_relay :: "'s \<Rightarrow> string \<Rightarrow> 'fn option \<Rightarrow> 's \<times> bool"
    and add_sub :: "'s \<Rightarrow> string \<Rightarrow> 'sub option \<Rightarrow> 's \<times> bool"
    and get_sub :: "'s \<Rightarrow> string \<Rightarrow> 'sub option"
    and view :: "'s \<Rightarrow> ('top, 'sub, 'fn) table"
    and inv :: "'s \<Rightarrow> bool"
  assumes joining_inv: "inv s \<Longrightarrow> inv (joining s n)"
    and joining_view: "inv s \<Longrightarrow> view (joining s n) = tab_joining (view s) n"
    and upgrade_inv: "inv s \<Longrightarrow> inv (fst (upgrade s n (Some t)))"
    and upgrade_view: "inv s \<Longrightarrow> view (fst (upgrade s n t')) = fst (tab_upgrade (view s) n t')
          \<and> snd (upgrade s n t') = snd (tab_upgrade (view s) n t')"
    and set_relay_inv: "inv s \<Longrightarrow> inv (fst (set_relay s n fn))"
    and set_relay_view: "inv s \<Longrightarrow> view (fst (set_relay s n fn))
            = fst (tab_modify (view s) n (\<lambda>tw. tw\<lparr>tw_relayCancelFn := fn\<rparr>))
          \<and> snd (set_relay s n fn)
            = snd (tab_modify (view s) n (\<lambda>tw. tw\<lparr>tw_relayCancelFn := fn\<rparr>))"
    and add_sub_inv: "inv s \<Longrightarrow> inv (fst (add_sub s n sb))"
    and add_sub_view: "inv s \<Longrightarrow> view (fst (add_sub s n sb))
            = fst (tab_modify (view s) n (\<lambda>tw. tw\<lparr>tw_sub := sb\<rparr>))
          \<and> snd (add_sub s n sb) = snd (tab_modify (view s) n (\<lambda>tw. tw\<lparr>tw_sub := sb\<rparr>))"
    and get_sub_view: "get_sub s n = Option.bind (view s n) tw_sub"
begin

lemma join_upgrade:
  assumes "inv s"
  shows "inv (fst (upgrade (joining s n) n (Some t)))"
    and "view (fst (upgrade (joining s n) n (Some t)))
      = (view s)(n \<mapsto> zeroWrapper\<lparr>tw_state := topicStateJoined, tw_topic := Some t\<rparr>)"
    and "snd (upgrade (joining s n) n (Some t))"
  using assms
  by (auto simp: upgrade_inv joining_inv upgrade_view joining_view tab_upgrade_def tab_joining_def)

lemma upgrade_only_once:
  assumes "inv s" "snd (upgrade s n (Some t))"
  shows "\<not> snd (upgrade (fst (upgrade s n (Some t))) n (Some t'))"
  using assms
  by (auto simp: upgrade_inv upgrade_view tab_upgrade_def topic_state_defs
      split: option.splits if_splits)

lemma get_sub_add_sub:
  assumes "inv s" "view s n = Some tw"
  shows "get_sub (fst (add_sub s n sb)) n = sb"
    and "view (fst (add_sub s n sb)) = (view s)(n \<mapsto> tw\<lparr>tw_sub := sb\<rparr>)"
  using assms by (simp_all add: get_sub_view add_sub_view tab_modify_def)

end

interpretation tm: topic_table joiningTopic upgradeTopic setTopicRelayCancelFn addSub getSub
    tm_view tm_inv
  by unfold_locales
    (simp_all add: joiningTopic_inv joiningTopic_view upgradeTopic_inv upgradeTopic_view
      setTopicRelayCancelFn_inv setTopicRelayCancelFn_view addSub_inv addSub_view getSub_view)

end
