(* ===== verification/Commons_Config.thy ===== *)
theory Commons_Config
  imports Go_Prelude Complex_Main
begin

text \<open>
  The configuration structs and their defaulting methods (\<open>commons/config.go\<close>,
  \<open>commons/config_pubsub.go\<close>).  A pointer field is an \<open>option\<close> (\<open>None\<close> is nil), a method
  with a pointer receiver returns the updated struct.  A \<open>float64\<close> is only copied by this
  code and is a \<^typ>\<open>real\<close>.  The structs of the pubsub library that the conversions fill
  have the fields that the source names.
\<close>

section \<open>Node configuration\<close>

type_synonym DiscMode = string

definition ModeBootstrapper :: DiscMode where "ModeBootstrapper = ''boot''"

definition ModeServer :: DiscMode where "ModeServer = ''server''"

definition ModeClient :: DiscMode where "ModeClient = ''client''"

record ConnManagerConfig =
  cm_LowWaterMark :: int
  cm_HighWaterMark :: int
  cm_GracePeriod :: duration

definition ConnManagerConfig_Defaults :: "ConnManagerConfig \<Rightarrow> ConnManagerConfig" where
  "ConnManagerConfig_Defaults cm =
     (let cm = (if cm_LowWaterMark cm = 0 then cm\<lparr>cm_LowWaterMark := 5\<rparr> else cm);
          cm = (if cm_HighWaterMark cm = 0 then cm\<lparr>cm_HighWaterMark := 25\<rparr> else cm)
      in if milliseconds (cm_GracePeriod cm) = 0 then cm\<lparr>cm_GracePeriod := minute\<rparr> else cm)"

record DiscoveryConfig =
  dc_Mode :: DiscMode
  dc_Bootstrappers :: "string list"
  dc_ProtocolPrefix :: string

definition DiscoveryConfig_Defaults :: "DiscoveryConfig \<Rightarrow> DiscoveryConfig" where
  "DiscoveryConfig_Defaults dc =
     (let dc = (if length (dc_Mode dc) = 0 then dc\<lparr>dc_Mode := ModeServer\<rparr> else dc)
      in if length (dc_ProtocolPrefix dc) = 0 then dc\<lparr>dc_ProtocolPrefix := ''p2pmq''\<rparr> else dc)"

record PProf =
  pprof_Enabled :: bool
  pprof_Port :: u64

section \<open>Scoring parameters\<close>

record AppSpecificScoring =
  as_ScoreFn :: "(string \<Rightarrow> real) option"
  as_Weight :: real

record ScoringParamBase =
  pb_Weight :: real
  pb_Decay :: real
  pb_Cap :: real
  pb_Quantum :: duration

record ScoringParamExtended =
  pe_Weight :: real
  pe_Decay :: real
  pe_Cap :: real
  pe_Threshold :: real
  pe_Window :: duration
  pe_Activation :: duration

type_synonym IPNet = "bytes \<times> bytes"

record IpColocationScoring =
  ic_Weight :: real
  ic_Threshold :: int
  ic_Whitelist :: "IPNet option list"

record ScoringThresholds =
  th_SkipAtomic :: bool
  th_GossipThreshold :: real
  th_PublishThreshold :: real
  th_GraylistThreshold :: real
  th_AcceptPXThreshold :: real
  th_OpportunisticGraftThreshold :: real

record TopicScoreParams =
  tsp_SkipAtomic :: bool
  tsp_Weight :: real
  tsp_TimeInMesh :: "ScoringParamBase option"
  tsp_FirstMessageDeliveries :: "ScoringParamBase option"
  tsp_MeshMessageDeliveries :: "ScoringParamExtended option"
  tsp_MeshFailurePenalty :: "ScoringParamBase option"
  tsp_InvalidMessageDeliveries :: "ScoringParamBase option"

record ScoringParams =
  sc_SkipAtomic :: bool
  sc_Thresholds :: "ScoringThresholds option"
  sc_Topics :: "string \<Rightarrow> TopicScoreParams option"
  sc_TopicScoreCap :: real
  sc_AppSpecific :: "AppSpecificScoring option"
  sc_IPColocationFactor :: "IpColocationScoring option"
  sc_BehaviourPenalty :: "ScoringParamExtended option"

section \<open>Pubsub configuration\<close>

record PubsubTraceConfig =
  ptc_Skiplist :: "string list"
  ptc_JsonFile :: string
  ptc_Debug :: bool

record MsgIDFnConfig =
  mid_Type :: string
  mid_Size :: int

record MsgValidationConfig =
  mvc_Timeout :: duration
  mvc_Concurrency :: int

definition MsgValidationConfig_Defaults ::
    "MsgValidationConfig \<Rightarrow> MsgValidationConfig option \<Rightarrow> MsgValidationConfig" where
  "MsgValidationConfig_Defaults mvc other =
     (let mvc = (if milliseconds (mvc_Timeout mvc) = 0 then mvc\<lparr>mvc_Timeout := second * 5\<rparr> else mvc);
          mvc = (if mvc_Concurrency mvc = 0 then mvc\<lparr>mvc_Concurrency := 10\<rparr> else mvc)
      in case other of
           None \<Rightarrow> mvc
         | Some oth \<Rightarrow>
             (let mvc = (if milliseconds (mvc_Timeout oth) > 0
                         then mvc\<lparr>mvc_Timeout := mvc_Timeout oth\<rparr> else mvc)
              in if mvc_Concurrency oth > 0
                 then mvc\<lparr>mvc_Concurrency := mvc_Concurrency oth\<rparr> else mvc))"

record TopicConfig =
  tc_Name :: string
  tc_BufferSize :: int
  tc_RateLimit :: real
  tc_Scoring :: "ScoringParams option"
  tc_MsgValidator :: "MsgValidationConfig option"
  tc_MsgIDFnConfig :: "MsgIDFnConfig option"

definition zeroTopicConfig :: TopicConfig where
  "zeroTopicConfig = \<lparr>tc_Name = [], tc_BufferSize = 0, tc_RateLimit = 0, tc_Scoring = None,
     tc_MsgValidator = None, tc_MsgIDFnConfig = None\<rparr>"

record SubscriptionFilter =
  sf_Pattern :: string
  sf_Limit :: int

record OverlayParams =
  op_D :: int
  op_Dlow :: int
  op_Dhi :: int
  op_Dlazy :: int
  op_HeartbeatInterval :: duration
  op_FanoutTtl :: duration
  op_McacheLen :: int
  op_McacheGossip :: int
  op_SeenTtl :: duration

record PubsubConfig =
  psc_Topics :: "TopicConfig list"
  psc_Overlay :: "OverlayParams option"
  psc_SubFilter :: "SubscriptionFilter option"
  psc_MaxMessageSize :: int
  psc_MsgValidationTimeout :: duration
  psc_Scoring :: "ScoringParams option"
  psc_MsgValidator :: "MsgValidationConfig option"
  psc_MsgIDFnConfig :: "MsgIDFnConfig option"
  psc_Trace :: "PubsubTraceConfig option"

text \<open>The loop of \<open>GetTopicConfig\<close> over the configured topics.\<close>

fun topics_loop :: "TopicConfig list \<Rightarrow> string \<Rightarrow> TopicConfig \<times> bool" where
  "topics_loop [] name = (zeroTopicConfig, False)"
| "topics_loop (t # ts) name = (if tc_Name t = name then (t, True) else topics_loop ts name)"

definition GetTopicConfig :: "PubsubConfig \<Rightarrow> string \<Rightarrow> TopicConfig \<times> bool" where
  "GetTopicConfig psc name = topics_loop (psc_Topics psc) name"

record Config =
  cfg_PrivateKey :: string
  cfg_ListenAddrs :: "string list"
  cfg_PSK :: bytes
  cfg_DialTimeout :: duration
  cfg_DisablePing :: bool
  cfg_UserAgent :: string
  cfg_NatPortMap :: bool
  cfg_AutoNat :: bool
  cfg_ConnManager :: "ConnManagerConfig option"
  cfg_Discovery :: "DiscoveryConfig option"
  cfg_Pubsub :: "PubsubConfig option"
  cfg_MdnsTag :: string
  cfg_MsgRouterQueueSize :: int
  cfg_MsgRouterWorkers :: int
  cfg_PProf :: "PProf option"

definition Config_Defaults :: "Config \<Rightarrow> Config" where
  "Config_Defaults c =
     (let c = (if milliseconds (cfg_DialTimeout c) = 0 then c\<lparr>cfg_DialTimeout := second * 15\<rparr> else c);
          c = (if cfg_MsgRouterQueueSize c = 0 then c\<lparr>cfg_MsgRouterQueueSize := 1024\<rparr> else c)
      in if cfg_MsgRouterWorkers c = 0 then c\<lparr>cfg_MsgRouterWorkers := 10\<rparr> else c)"

section \<open>Conversion to the library's score parameters\<close>

record PeerScoreThresholds =
  pst_SkipAtomicValidation :: bool
  pst_GossipThreshold :: real
  pst_PublishThreshold :: real
  pst_GraylistThreshold :: real
  pst_AcceptPXThreshold :: real
  pst_OpportunisticGraftThreshold :: real

record StdTopicScoreParams =
  std_SkipAtomicValidation :: bool
  std_TopicWeight :: real
  std_TimeInMeshWeight :: real
  std_TimeInMeshQuantum :: duration
  std_TimeInMeshCap :: real
  std_FirstMessageDeliveriesWeight :: real
  std_FirstMessageDeliveriesDecay :: real
  std_FirstMessageDeliveriesCap :: real
  std_MeshMessageDeliveriesWeight :: real
  std_MeshMessageDeliveriesDecay :: real
  std_MeshMessageDeliveriesCap :: real
  std_MeshMessageDeliveriesThreshold :: real
  std_MeshMessageDeliveriesWindow :: duration
  std_MeshMessageDeliveriesActivation :: duration
  std_MeshFailurePenaltyWeight :: real
  std_MeshFailurePenaltyDecay :: real
  std_InvalidMessageDeliveriesWeight :: real
  std_InvalidMessageDeliveriesDecay :: real

record PeerScoreParams =
  psp_SkipAtomicValidation :: bool
  psp_Topics :: "string \<Rightarrow> StdTopicScoreParams option"
  psp_TopicScoreCap :: real
  psp_AppSpecificScore :: "(string \<Rightarrow> real) option"
  psp_AppSpecificWeight :: real
  psp_IPColocationFactorWeight :: real
  psp_IPColocationFactorThreshold :: int
  psp_IPColocationFactorWhitelist :: "IPNet option list"
  psp_BehaviourPenaltyWeight :: real
  psp_BehaviourPenaltyThreshold :: real
  psp_BehaviourPenaltyDecay :: real

definition zeroThresholds :: PeerScoreThresholds where
  "zeroThresholds = \<lparr>pst_SkipAtomicValidation = False, pst_GossipThreshold = 0,
     pst_PublishThreshold = 0, pst_GraylistThreshold = 0, pst_AcceptPXThreshold = 0,
     pst_OpportunisticGraftThreshold = 0\<rparr>"

definition zeroStdTopic :: StdTopicScoreParams where
  "zeroStdTopic = \<lparr>std_SkipAtomicValidation = False, std_TopicWeight = 0,
     std_TimeInMeshWeight = 0, std_TimeInMeshQuantum = 0, std_TimeInMeshCap = 0,
     std_FirstMessageDeliveriesWeight = 0, std_FirstMessageDeliveriesDecay = 0,
     std_FirstMessageDeliveriesCap = 0, std_MeshMessageDeliveriesWeight = 0,
     std_MeshMessageDeliveriesDecay = 0, std_MeshMessageDeliveriesCap = 0,
     std_MeshMessageDeliveriesThreshold = 0, std_MeshMessageDeliveriesWindow = 0,
     std_MeshMessageDeliveriesActivation = 0, std_MeshFailurePenaltyWeight = 0,
     std_MeshFailurePenaltyDecay = 0, std_InvalidMessageDeliveriesWeight = 0,
     std_InvalidMessageDeliveriesDecay = 0\<rparr>"

definition zeroPeerScoreParams :: PeerScoreParams where
  "zeroPeerScoreParams = \<lparr>psp_SkipAtomicValidation = False, psp_Topics = (\<lambda>_. None),
     psp_TopicScoreCap = 0, psp_AppSpecificScore = None, psp_AppSpecificWeight = 0,
     psp_IPColocationFactorWeight = 0, psp_IPColocationFactorThreshold = 0,
     psp_IPColocationFactorWhitelist = [], psp_BehaviourPenaltyWeight = 0,
     psp_BehaviourPenaltyThreshold = 0, psp_BehaviourPenaltyDecay = 0\<rparr>"

definition TopicScoreParams_ToStd :: "TopicScoreParams \<Rightarrow> StdTopicScoreParams" where
  "TopicScoreParams_ToStd tsp =
     (let s = zeroStdTopic\<lparr>std_SkipAtomicValidation := tsp_SkipAtomic tsp,
                           std_TopicWeight := tsp_Weight tsp\<rparr>;
          s = (case tsp_TimeInMesh tsp of None \<Rightarrow> s | Some p \<Rightarrow>
                 s\<lparr>std_TimeInMeshCap := pb_Cap p, std_TimeInMeshQuantum := pb_Quantum p,
                   std_TimeInMeshWeight := pb_Weight p\<rparr>);
          s = (case tsp_FirstMessageDeliveries tsp of None \<Rightarrow> s | Some p \<Rightarrow>
                 s\<lparr>std_FirstMessageDeliveriesCap := pb_Cap p,
                   std_FirstMessageDeliveriesDecay := pb_Decay p,
                   std_FirstMessageDeliveriesWeight := pb_Weight p\<rparr>);
          s = (case tsp_MeshMessageDeliveries tsp of None \<Rightarrow> s | Some p \<Rightarrow>
                 s\<lparr>std_MeshMessageDeliveriesCap := pe_Cap p,
                   std_MeshMessageDeliveriesDecay := pe_Decay p,
                   std_MeshMessageDeliveriesWeight := pe_Weight p,
                   std_MeshMessageDeliveriesThreshold := pe_Threshold p,
                   std_MeshMessageDeliveriesActivation := pe_Activation p,
                   std_MeshMessageDeliveriesWindow := pe_Window p\<rparr>);
          s = (case tsp_MeshFailurePenalty tsp of None \<Rightarrow> s | Some p \<Rightarrow>
                 s\<lparr>std_MeshFailurePenaltyDecay := pb_Decay p,
                   std_MeshFailurePenaltyWeight := pb_Weight p\<rparr>)
      in case tsp_InvalidMessageDeliveries tsp of None \<Rightarrow> s | Some p \<Rightarrow>
           s\<lparr>std_InvalidMessageDeliveriesDecay := pb_Decay p,
             std_InvalidMessageDeliveriesWeight := pb_Weight p\<rparr>)"

text \<open>The loop over \<open>sc.Topics\<close> fills one entry per key, in any order: a map image.\<close>

definition ScoringParams_ToStd :: "ScoringParams \<Rightarrow> PeerScoreParams \<times> PeerScoreThresholds" where
  "ScoringParams_ToStd sc =
     (let s = zeroPeerScoreParams\<lparr>psp_SkipAtomicValidation := sc_SkipAtomic sc,
                psp_Topics := (\<lambda>topic. map_option TopicScoreParams_ToStd (sc_Topics sc topic)),
                psp_TopicScoreCap := sc_TopicScoreCap sc\<rparr>;
          s = (case sc_AppSpecific sc of None \<Rightarrow> s | Some p \<Rightarrow>
                 s\<lparr>psp_AppSpecificScore := as_ScoreFn p, psp_AppSpecificWeight := as_Weight p\<rparr>);
          s = (case sc_IPColocationFactor sc of None \<Rightarrow> s | Some p \<Rightarrow>
                 s\<lparr>psp_IPColocationFactorThreshold := ic_Threshold p,
                   psp_IPColocationFactorWeight := ic_Weight p,
                   psp_IPColocationFactorWhitelist := ic_Whitelist p\<rparr>);
          s = (case sc_BehaviourPenalty sc of None \<Rightarrow> s | Some p \<Rightarrow>
                 s\<lparr>psp_BehaviourPenaltyWeight := pe_Weight p,
                   psp_BehaviourPenaltyDecay := pe_Decay p,
                   psp_BehaviourPenaltyThreshold := pe_Threshold p\<rparr>);
          t = (case sc_Thresholds sc of None \<Rightarrow> zeroThresholds | Some th \<Rightarrow>
                 zeroThresholds\<lparr>pst_SkipAtomicValidation := th_SkipAtomic th,
                   pst_GossipThreshold := th_GossipThreshold th,
                   pst_PublishThreshold := th_PublishThreshold th,
                   pst_GraylistThreshold := th_GraylistThreshold th,
                   pst_AcceptPXThreshold := th_AcceptPXThreshold th,
                   pst_OpportunisticGraftThreshold := th_OpportunisticGraftThreshold th\<rparr>)
      in (s, t))"

section \<open>Lemmas\<close>

lemma topics_loop_find:
  "topics_loop ts name = (case find (\<lambda>t. tc_Name t = name) ts of
      None \<Rightarrow> (zeroTopicConfig, False) | Some t \<Rightarrow> (t, True))"
  by (induction ts) auto

lemma second_ms [simp]: "0 \<le> k \<Longrightarrow> milliseconds (second * k) = 1000 * k"
  by (simp add: milliseconds_nonneg second_def)

lemma minute_ms [simp]: "milliseconds minute = 60000"
  by (simp add: minute_def milliseconds_def second_def signed_divide_int_def)

lemma Config_Defaults_idem [simp]: "Config_Defaults (Config_Defaults c) = Config_Defaults c"
  by (simp add: Config_Defaults_def Let_def)

lemma MsgValidationConfig_Defaults_zero:
  "MsgValidationConfig_Defaults \<lparr>mvc_Timeout = 0, mvc_Concurrency = 0\<rparr> None
     = \<lparr>mvc_Timeout = second * 5, mvc_Concurrency = 10\<rparr>"
  by (simp add: MsgValidationConfig_Defaults_def milliseconds_def)

end
