(* ===== verification/Go_Strings.thy ===== *)
theory Go_Strings
  imports Go_Prelude
begin

text \<open>
  What the sources use of \<open>encoding/hex\<close>, \<open>strconv\<close>, \<open>strings\<close> and of the \<open>%d\<close> verb of
  \<open>fmt\<close>, on byte strings (a Go string is a sequence of bytes, as a \<^typ>\<open>string\<close> is),
  with their round trips.
\<close>

section \<open>Hexadecimal\<close>

definition hextable :: string where "hextable = ''0123456789abcdef''"

definition hex_byte :: "byte \<Rightarrow> string" where
  "hex_byte b = [hextable ! (unat b div 16), hextable ! (unat b mod 16)]"

text \<open>\<open>hex.EncodeToString\<close>\<close>

definition EncodeToString :: "bytes \<Rightarrow> string" where
  "EncodeToString bs = concat (map hex_byte bs)"

section \<open>Decimal\<close>

definition digit_char :: "nat \<Rightarrow> char" where "digit_char d = char_of (48 + d)"

fun show_nat :: "nat \<Rightarrow> string" where
  "show_nat n = (if n < 10 then [digit_char n] else show_nat (n div 10) @ [digit_char (n mod 10)])"

declare show_nat.simps [simp del]

text \<open>\<open>fmt.Sprintf("%d", x)\<close> for a \<open>uint64\<close>, and the same for a signed value (\<open>strconv.Itoa\<close>).\<close>

definition show_u64 :: "u64 \<Rightarrow> string" where "show_u64 x = show_nat (unat x)"

definition show_int :: "int \<Rightarrow> string" where
  "show_int x = (if x < 0 then CHR ''-'' # show_nat (nat (- x)) else show_nat (nat x))"

definition digit_val :: "char \<Rightarrow> nat option" where
  "digit_val c = (if 48 \<le> (of_char c :: nat) \<and> (of_char c :: nat) \<le> 57 then Some (of_char c - 48) else None)"

text \<open>
  \<open>strconv.ParseUint(s, 10, 64)\<close>: an error (\<open>None\<close>) on the empty string, on a character that
  is no digit and on a value that needs more than 64 bits.
\<close>

fun parse_digits :: "nat \<Rightarrow> string \<Rightarrow> nat option" where
  "parse_digits n [] = Some n"
| "parse_digits n (c # cs) =
     (case digit_val c of
        None \<Rightarrow> None
      | Some d \<Rightarrow> if 10 * n + d \<ge> 2 ^ 64 then None else parse_digits (10 * n + d) cs)"

definition ParseUint :: "string \<Rightarrow> u64 option" where
  "ParseUint s = (if s = [] then None else map_option word_of_nat (parse_digits 0 s))"

section \<open>strings\<close>

fun Join :: "string list \<Rightarrow> string \<Rightarrow> string" where
  "Join [] sep = []"
| "Join [x] sep = x"
| "Join (x # y # xs) sep = x @ sep @ Join (y # xs) sep"

fun has_prefix :: "string \<Rightarrow> string \<Rightarrow> bool" where
  "has_prefix s [] = True"
| "has_prefix [] (p # ps) = False"
| "has_prefix (c # cs) (p # ps) = (c = p \<and> has_prefix cs ps)"

fun Contains :: "string \<Rightarrow> string \<Rightarrow> bool" where
  "Contains [] sub = (sub = [])"
| "Contains (c # cs) sub = (has_prefix (c # cs) sub \<or> Contains cs sub)"

section \<open>Lemmas\<close>

lemma hextable_inj: "i < 16 \<Longrightarrow> j < 16 \<Longrightarrow> hextable ! i = hextable ! j \<Longrightarrow> i = j"
proof -
  assume "i < 16" "j < 16" "hextable ! i = hextable ! j"
  moreover have "distinct hextable" "length hextable = 16"
    by (simp_all add: hextable_def)
  ultimately show "i = j" by (simp add: nth_eq_iff_index_eq)
qed

lemma hex_byte_inj: "hex_byte a = hex_byte b \<Longrightarrow> a = b"
proof -
  assume h: "hex_byte a = hex_byte b"
  have "unat a < 256" "unat b < 256" using unsigned_less [of a] unsigned_less [of b] by auto
  then have d: "unat a div 16 < 16" "unat b div 16 < 16" by auto
  from h have e: "hextable ! (unat a div 16) = hextable ! (unat b div 16)"
    "hextable ! (unat a mod 16) = hextable ! (unat b mod 16)"
    by (simp_all add: hex_byte_def)
  from hextable_inj [OF d e(1)] hextable_inj [OF _ _ e(2)]
  have "unat a div 16 = unat b div 16" "unat a mod 16 = unat b mod 16" by simp_all
  then have "unat a = unat b" by (metis div_mult_mod_eq)
  then show "a = b" by (simp add: word_unat_eq_iff)
qed

lemma hex_byte_length [simp]: "length (hex_byte b) = 2"
  by (simp add: hex_byte_def)

lemma EncodeToString_simps [simp]:
  "EncodeToString [] = []"
  "EncodeToString (b # bs) = hex_byte b @ EncodeToString bs"
  by (simp_all add: EncodeToString_def)

lemma EncodeToString_length [simp]: "length (EncodeToString bs) = 2 * length bs"
  by (induction bs) auto

lemma EncodeToString_inj: "EncodeToString xs = EncodeToString ys \<Longrightarrow> xs = ys"
proof (induction xs arbitrary: ys)
  case Nil
  then have "length (EncodeToString ys) = 0" by simp
  then show ?case by simp
next
  case (Cons x xs)
  from arg_cong [OF Cons.prems, of length] obtain y ys' where ys: "ys = y # ys'"
    by (cases ys) auto
  with Cons.prems have "hex_byte x = hex_byte y" "EncodeToString xs = EncodeToString ys'"
    by simp_all
  with Cons.IH ys show ?case by (auto dest: hex_byte_inj)
qed

lemma digit_val_char: "d < 10 \<Longrightarrow> digit_val (digit_char d) = Some d"
  by (simp add: digit_val_def digit_char_def)

lemma parse_digits_append:
  "parse_digits n (xs @ [c]) =
     (case parse_digits n xs of None \<Rightarrow> None | Some m \<Rightarrow> parse_digits m [c])"
  by (induction xs arbitrary: n) (auto split: option.splits)

lemma parse_show_nat: "n < 2 ^ 64 \<Longrightarrow> parse_digits 0 (show_nat n) = Some n"
proof (induction n rule: show_nat.induct)
  case (1 n)
  show ?case
  proof (cases "n < 10")
    case True
    then show ?thesis by (subst show_nat.simps) (simp add: digit_val_char)
  next
    case False
    with 1 have "parse_digits 0 (show_nat (n div 10)) = Some (n div 10)" by simp
    with False 1(2) show ?thesis
      by (subst show_nat.simps) (simp add: parse_digits_append digit_val_char)
  qed
qed

lemma show_nat_nonempty [simp]: "show_nat n \<noteq> []"
  by (subst show_nat.simps) simp

text \<open>Decimal printing and parsing of a \<open>uint64\<close> are inverse.\<close>

lemma ParseUint_show_u64 [simp]: "ParseUint (show_u64 x) = Some x"
proof -
  have "unat x < 2 ^ 64" using unsigned_less [of x] by simp
  then show ?thesis by (simp add: ParseUint_def show_u64_def parse_show_nat)
qed

lemma show_u64_inj: "show_u64 x = show_u64 y \<longleftrightarrow> x = y"
  by (metis ParseUint_show_u64 option.inject)

end
