(* ===== verification/Go_Hash.thy ===== *)
theory Go_Hash
  imports Go_Prelude
begin

unbundle bit_operations_syntax

text \<open>
  The two digests of the Go standard library that message identifiers use,
  \<open>crypto/sha256.Sum256\<close> (FIPS 180-4) and \<open>crypto/md5.Sum\<close> (RFC 1321), as executable
  functions on byte lists, and the facts on their lengths that the clients rely on.
\<close>

section \<open>Words and bytes\<close>

definition ror32 :: "nat \<Rightarrow> 32 word \<Rightarrow> 32 word" where
  "ror32 n x = drop_bit n x OR push_bit (32 - n) x"

definition rol32 :: "nat \<Rightarrow> 32 word \<Rightarrow> 32 word" where
  "rol32 n x = push_bit n x OR drop_bit (32 - n) x"

definition be32 :: "32 word \<Rightarrow> bytes" where
  "be32 w = [ucast (drop_bit 24 w), ucast (drop_bit 16 w), ucast (drop_bit 8 w), ucast w]"

definition le32 :: "32 word \<Rightarrow> bytes" where "le32 w = rev (be32 w)"

fun words_be :: "bytes \<Rightarrow> 32 word list" where
  "words_be (a # b # c # d # xs) =
     (push_bit 24 (ucast a) OR push_bit 16 (ucast b) OR push_bit 8 (ucast c) OR ucast d) # words_be xs"
| "words_be _ = []"

fun words_le :: "bytes \<Rightarrow> 32 word list" where
  "words_le (a # b # c # d # xs) =
     (ucast a OR push_bit 8 (ucast b) OR push_bit 16 (ucast c) OR push_bit 24 (ucast d)) # words_le xs"
| "words_le _ = []"

text \<open>The length of the message in bits, as the 64-bit trailer of the last block.\<close>

definition len_be64 :: "nat \<Rightarrow> bytes" where
  "len_be64 n = map (\<lambda>k. ucast (drop_bit k (word_of_nat (8 * n) :: 64 word)))
     [56, 48, 40, 32, 24, 16, 8, 0]"

definition pad_zeros :: "nat \<Rightarrow> bytes" where
  "pad_zeros n = replicate ((119 - n mod 64) mod 64) 0"

definition pad_be :: "bytes \<Rightarrow> bytes" where
  "pad_be m = m @ [0x80] @ pad_zeros (length m) @ len_be64 (length m)"

definition pad_le :: "bytes \<Rightarrow> bytes" where
  "pad_le m = m @ [0x80] @ pad_zeros (length m) @ rev (len_be64 (length m))"

text \<open>A list cut into blocks of sixteen words; a shorter rest is dropped.\<close>

function chunks16 :: "'a list \<Rightarrow> 'a list list" where
  "chunks16 xs = (if length xs < 16 then [] else take 16 xs # chunks16 (drop 16 xs))"
  by pat_completeness auto
termination
  by (relation "measure length") auto

declare chunks16.simps [simp del]

section \<open>SHA-256\<close>

definition sha256_K :: "32 word list" where
  "sha256_K =
    [1116352408, 1899447441, 3049323471, 3921009573, 961987163, 1508970993, 2453635748,
     2870763221, 3624381080, 310598401, 607225278, 1426881987, 1925078388, 2162078206,
     2614888103, 3248222580, 3835390401, 4022224774, 264347078, 604807628, 770255983,
     1249150122, 1555081692, 1996064986, 2554220882, 2821834349, 2952996808, 3210313671,
     3336571891, 3584528711, 113926993, 338241895, 666307205, 773529912, 1294757372,
     1396182291, 1695183700, 1986661051, 2177026350, 2456956037, 2730485921, 2820302411,
     3259730800, 3345764771, 3516065817, 3600352804, 4094571909, 275423344, 430227734,
     506948616, 659060556, 883997877, 958139571, 1322822218, 1537002063, 1747873779,
     1955562222, 2024104815, 2227730452, 2361852424, 2428436474, 2756734187, 3204031479,
     3329325298]"

definition sha256_H0 :: "32 word list" where
  "sha256_H0 =
    [1779033703, 3144134277, 1013904242, 2773480762, 1359893119, 2600822924, 528734635,
     1541459225]"

text \<open>The message schedule, extended one word at a time.\<close>

fun sha256_expand :: "nat \<Rightarrow> 32 word list \<Rightarrow> 32 word list" where
  "sha256_expand 0 ws = ws"
| "sha256_expand (Suc k) ws =
     (let t = length ws;
          x = ws ! (t - 15); y = ws ! (t - 2);
          s0 = ror32 7 x XOR ror32 18 x XOR drop_bit 3 x;
          s1 = ror32 17 y XOR ror32 19 y XOR drop_bit 10 y
      in sha256_expand k (ws @ [ws ! (t - 16) + s0 + ws ! (t - 7) + s1]))"

fun sha256_round :: "32 word list \<Rightarrow> 32 word \<times> 32 word \<Rightarrow> 32 word list" where
  "sha256_round [a, b, c, d, e, f, g, h] (k, w) =
     (let s1 = ror32 6 e XOR ror32 11 e XOR ror32 25 e;
          ch = (e AND f) XOR (NOT e AND g);
          t1 = h + s1 + ch + k + w;
          s0 = ror32 2 a XOR ror32 13 a XOR ror32 22 a;
          maj = (a AND b) XOR (a AND c) XOR (b AND c)
      in [t1 + (s0 + maj), a, b, c, d + t1, e, f, g])"
| "sha256_round st _ = st"

definition sha256_block :: "32 word list \<Rightarrow> 32 word list \<Rightarrow> 32 word list" where
  "sha256_block st ws =
     map2 (+) st (foldl sha256_round st (zip sha256_K (sha256_expand 48 ws)))"

definition sha256_Sum256 :: "bytes \<Rightarrow> bytes" where
  "sha256_Sum256 m =
     concat (map be32 (foldl sha256_block sha256_H0 (chunks16 (words_be (pad_be m)))))"

section \<open>MD5\<close>

definition md5_K :: "32 word list" where
  "md5_K =
    [0xd76aa478, 0xe8c7b756, 0x242070db, 0xc1bdceee, 0xf57c0faf, 0x4787c62a,
     0xa8304613, 0xfd469501, 0x698098d8, 0x8b44f7af, 0xffff5bb1, 0x895cd7be,
     0x6b901122, 0xfd987193, 0xa679438e, 0x49b40821, 0xf61e2562, 0xc040b340,
     0x265e5a51, 0xe9b6c7aa, 0xd62f105d, 0x02441453, 0xd8a1e681, 0xe7d3fbc8,
     0x21e1cde6, 0xc33707d6, 0xf4d50d87, 0x455a14ed, 0xa9e3e905, 0xfcefa3f8,
     0x676f02d9, 0x8d2a4c8a, 0xfffa3942, 0x8771f681, 0x6d9d6122, 0xfde5380c,
     0xa4beea44, 0x4bdecfa9, 0xf6bb4b60, 0xbebfbc70, 0x289b7ec6, 0xeaa127fa,
     0xd4ef3085, 0x04881d05, 0xd9d4d039, 0xe6db99e5, 0x1fa27cf8, 0xc4ac5665,
     0xf4292244, 0x432aff97, 0xab9423a7, 0xfc93a039, 0x655b59c3, 0x8f0ccc92,
     0xffeff47d, 0x85845dd1, 0x6fa87e4f, 0xfe2ce6e0, 0xa3014314, 0x4e0811a1,
     0xf7537e82, 0xbd3af235, 0x2ad7d2bb, 0xeb86d391]"

definition md5_H0 :: "32 word list" where
  "md5_H0 = [0x67452301, 0xefcdab89, 0x98badcfe, 0x10325476]"

definition md5_S :: "nat list" where
  "md5_S = concat (replicate 4 [7, 12, 17, 22]) @ concat (replicate 4 [5, 9, 14, 20])
     @ concat (replicate 4 [4, 11, 16, 23]) @ concat (replicate 4 [6, 10, 15, 21])"

definition md5_F :: "nat \<Rightarrow> 32 word \<Rightarrow> 32 word \<Rightarrow> 32 word \<Rightarrow> 32 word" where
  "md5_F i b c d =
     (if i < 16 then (b AND c) OR (NOT b AND d)
      else if i < 32 then (d AND b) OR (NOT d AND c)
      else if i < 48 then b XOR c XOR d
      else c XOR (b OR NOT d))"

definition md5_G :: "nat \<Rightarrow> nat" where
  "md5_G i =
     (if i < 16 then i
      else if i < 32 then (5 * i + 1) mod 16
      else if i < 48 then (3 * i + 5) mod 16
      else (7 * i) mod 16)"

fun md5_round :: "32 word list \<Rightarrow> 32 word list \<Rightarrow> nat \<times> 32 word \<times> nat \<Rightarrow> 32 word list" where
  "md5_round ws [a, b, c, d] (i, k, s) =
     [d, b + rol32 s (md5_F i b c d + a + k + ws ! md5_G i), b, c]"
| "md5_round ws st _ = st"

definition md5_block :: "32 word list \<Rightarrow> 32 word list \<Rightarrow> 32 word list" where
  "md5_block st ws = map2 (+) st (foldl (md5_round ws) st (zip [0..<64] (zip md5_K md5_S)))"

definition md5_Sum :: "bytes \<Rightarrow> bytes" where
  "md5_Sum m = concat (map le32 (foldl md5_block md5_H0 (chunks16 (words_le (pad_le m)))))"

section \<open>Lemmas\<close>

lemma sha256_round_length: "length (sha256_round st kw) = length st"
  by (cases "(st, kw)" rule: sha256_round.cases) (simp_all add: Let_def)

lemma foldl_length:
  "(\<And>st x. length (f st x) = length st) \<Longrightarrow> length (foldl f st xs) = length st"
  by (induction xs arbitrary: st) auto

lemma sha256_block_length: "length (sha256_block st ws) = length st"
  by (simp add: sha256_block_def foldl_length sha256_round_length)

lemma sha256_length [simp]: "length (sha256_Sum256 m) = 32"
proof -
  have "length (foldl sha256_block sha256_H0 xs) = 8" for xs
    by (simp add: foldl_length sha256_block_length sha256_H0_def)
  then show ?thesis
    by (simp add: sha256_Sum256_def length_concat comp_def be32_def sum_list_const_mult
        sum_list_triv)
qed

lemma md5_round_length: "length (md5_round ws st x) = length st"
  by (cases "(ws, st, x)" rule: md5_round.cases) simp_all

lemma md5_block_length: "length (md5_block st ws) = length st"
  by (simp add: md5_block_def foldl_length md5_round_length)

lemma md5_length [simp]: "length (md5_Sum m) = 16"
proof -
  have "length (foldl md5_block md5_H0 xs) = 4" for xs
    by (simp add: foldl_length md5_block_length md5_H0_def)
  then show ?thesis
    by (simp add: md5_Sum_def length_concat comp_def le32_def be32_def sum_list_triv)
qed

end
