(* ===== verification/Gossip.thy ===== *)
theory Gossip
  imports Commons_Config Go_Strings Go_Hash
begin

text \<open>
  The gossip package (\<open>core/gossip\<close>): message identifiers from a digest of the content, the
  overlay parameters laid over the library's defaults, and the peer scores.
\<close>

section \<open>Message identifiers\<close>

definition MsgIDSha256Type :: string where "MsgIDSha256Type = ''sha256''"

definition MsgIDMD5Type :: string where "MsgIDMD5Type = ''md5''"

text \<open>
  \<open>MsgIDSha256(size)\<close> and \<open>MsgIDMD5(size)\<close> return closures that capture \<open>size\<close> and may assign
  to it when they are called: a closure is a value with its captured variable, and a call
  returns the closure after the call.
\<close>

datatype MsgIdFunction = Sha256Closure int | MD5Closure int

definition MsgIDSha256 :: "int \<Rightarrow> MsgIdFunction" where "MsgIDSha256 sz = Sha256Closure sz"

definition MsgIDMD5 :: "int \<Rightarrow> MsgIdFunction" where "MsgIDMD5 sz = MD5Closure sz"

definition DefaultMsgIDFn :: MsgIdFunction where "DefaultMsgIDFn = MsgIDSha256 20"

definition MsgIDFn :: "string \<Rightarrow> int \<Rightarrow> MsgIdFunction" where
  "MsgIDFn tp sz =
     (if tp = MsgIDSha256Type then MsgIDSha256 sz
      else if tp = MsgIDMD5Type then MsgIDMD5 sz
      else DefaultMsgIDFn)"

text \<open>The body of both closures, for the digest \<open>hsum\<close>, on the message data.\<close>

definition digest_call :: "(bytes \<Rightarrow> bytes) \<Rightarrow> int \<Rightarrow> bytes \<Rightarrow> (string \<times> int) go" where
  "digest_call hsum sz msg =
     (if length msg = 0 then Ret ([], sz)
      else
        (let h = hsum msg;
             sz = (if sz > int (length h) then int (length h) else sz)
         in go_bind (slice_upto h sz) (\<lambda>p. Ret (EncodeToString p, sz))))"

fun call_msgid :: "MsgIdFunction \<Rightarrow> bytes \<Rightarrow> (string \<times> MsgIdFunction) go" where
  "call_msgid (Sha256Closure sz) msg =
     go_bind (digest_call sha256_Sum256 sz msg) (\<lambda>(s, sz'). Ret (s, Sha256Closure sz'))"
| "call_msgid (MD5Closure sz) msg =
     go_bind (digest_call md5_Sum sz msg) (\<lambda>(s, sz'). Ret (s, MD5Closure sz'))"

text \<open>The identifiers a closure gives to a sequence of messages.\<close>

fun call_many :: "MsgIdFunction \<Rightarrow> bytes list \<Rightarrow> (string list) go" where
  "call_many f [] = Ret []"
| "call_many f (m # ms) =
     go_bind (call_msgid f m) (\<lambda>(s, f'). go_bind (call_many f' ms) (\<lambda>ss. Ret (s # ss)))"

text \<open>The identifier as a function of the content alone.\<close>

definition msgid_of :: "(bytes \<Rightarrow> bytes) \<Rightarrow> int \<Rightarrow> bytes \<Rightarrow> string" where
  "msgid_of hsum sz m = (if m = [] then [] else EncodeToString (take (nat sz) (hsum m)))"

section \<open>Overlay parameters and scores\<close>

text \<open>
  The library's parameter struct: the fields this code sets, with the remaining ones as the
  extension of the record.  The library's \<open>DefaultGossipSubParams()\<close> is the argument \<open>gsCfg\<close>.
\<close>

record GossipSubParams =
  gs_D :: int
  gs_Dlo :: int
  gs_Dhi :: int
  gs_Dlazy :: int
  gs_MaxIHaveMessages :: int
  gs_MaxIHaveLength :: int
  gs_FanoutTTL :: duration
  gs_HeartbeatInterval :: duration

definition overlay_params ::
    "'z GossipSubParams_scheme \<Rightarrow> OverlayParams option \<Rightarrow> 'z GossipSubParams_scheme" where
  "overlay_params gsCfg overlayParams =
     (case overlayParams of
        None \<Rightarrow> gsCfg
      | Some ov \<Rightarrow>
          (let g = gsCfg;
               g = (if op_D ov > 0 then g\<lparr>gs_D := op_D ov\<rparr> else g);
               g = (if op_Dlow ov > 0 then g\<lparr>gs_Dlo := op_Dlow ov\<rparr> else g);
               g = (if op_Dhi ov > 0 then g\<lparr>gs_Dhi := op_Dhi ov\<rparr> else g);
               g = (if op_Dlazy ov > 0 then g\<lparr>gs_Dlazy := op_Dlazy ov\<rparr> else g);
               g = (if op_McacheGossip ov > 0 then g\<lparr>gs_MaxIHaveMessages := op_McacheGossip ov\<rparr> else g);
               g = (if op_McacheLen ov > 0 then g\<lparr>gs_MaxIHaveLength := op_McacheLen ov\<rparr> else g);
               g = (if milliseconds (op_FanoutTtl ov) > 0 then g\<lparr>gs_FanoutTTL := op_FanoutTtl ov\<rparr> else g)
           in if milliseconds (op_HeartbeatInterval ov) > 0
              then g\<lparr>gs_HeartbeatInterval := op_HeartbeatInterval ov\<rparr> else g))"

definition PeerScores :: "PubsubConfig \<Rightarrow> PeerScoreParams \<times> PeerScoreThresholds" where
  "PeerScores cfg =
     (let peerScores = zeroPeerScoreParams;
          thresholds = zeroThresholds\<lparr>pst_SkipAtomicValidation := True,
            pst_GossipThreshold := -4000, pst_PublishThreshold := -2000,
            pst_GraylistThreshold := -400\<rparr>
      in case psc_Scoring cfg of
           None \<Rightarrow> (peerScores, thresholds)
         | Some sc \<Rightarrow> ScoringParams_ToStd sc)"

section \<open>Lemmas\<close>

lemma digest_call_nonneg:
  assumes "0 \<le> sz"
  shows "digest_call hsum sz m =
    Ret (msgid_of hsum sz m, if m = [] then sz else min sz (int (length (hsum m))))"
proof (cases "m = []")
  case True
  then show ?thesis by (simp add: digest_call_def msgid_of_def)
next
  case False
  with assms show ?thesis
    by (auto simp: digest_call_def msgid_of_def slice_upto_def Let_def min_def)
qed

lemma digest_call_neg:
  "sz < 0 \<Longrightarrow> m \<noteq> [] \<Longrightarrow> digest_call hsum sz m = Panic SliceOutOfRange"
  by (simp add: digest_call_def slice_upto_def Let_def)

lemma msgid_of_min:
  "(\<And>x. length (hsum x) = L) \<Longrightarrow> msgid_of hsum (min sz (int L)) m = msgid_of hsum sz m"
  by (cases "sz \<le> int L") (auto simp: msgid_of_def min_def)

lemma msgid_of_length:
  "m \<noteq> [] \<Longrightarrow> length (msgid_of hsum sz m) = 2 * min (nat sz) (length (hsum m))"
  by (simp add: msgid_of_def)

lemma call_many_sha256:
  "0 \<le> sz \<Longrightarrow> call_many (Sha256Closure sz) ms = Ret (map (msgid_of sha256_Sum256 sz) ms)"
proof (induction ms arbitrary: sz)
  case (Cons m ms)
  have "call_many (Sha256Closure (min sz 32)) ms = Ret (map (msgid_of sha256_Sum256 sz) ms)"
    using Cons.IH [of "min sz 32"] Cons.prems msgid_of_min [of sha256_Sum256 32 sz] by simp
  with Cons show ?case by (simp add: digest_call_nonneg)
qed simp

lemma call_many_md5:
  "0 \<le> sz \<Longrightarrow> call_many (MD5Closure sz) ms = Ret (map (msgid_of md5_Sum sz) ms)"
proof (induction ms arbitrary: sz)
  case (Cons m ms)
  have "call_many (MD5Closure (min sz 16)) ms = Ret (map (msgid_of md5_Sum sz) ms)"
    using Cons.IH [of "min sz 16"] Cons.prems msgid_of_min [of md5_Sum 16 sz] by simp
  with Cons show ?case by (simp add: digest_call_nonneg)
qed simp

end
