(* ===== verification/Pubsub_Ctrl.thy ===== *)
theory Pubsub_Ctrl
  imports Topic_Manager Gossip
begin

text \<open>
  The pubsub operations of the controller (\<open>core/pubsub.go\<close>): joining a topic lazily, publish,
  leave, subscribe, unsubscribe, relay and unrelay.  The pubsub library is a parameter: a
  record of the methods the code calls, over an abstract library state \<open>'ps\<close>.  A method with a
  pointer receiver takes the pointer (\<open>None\<close> is nil) and may panic.
\<close>

section \<open>The library, as called\<close>

record ('ps, 'top, 'sub, 'fn) pubsub_api =
  api_Join :: "'ps \<Rightarrow> string \<Rightarrow> MsgIdFunction list \<Rightarrow> 'ps \<times> (string + 'top)"
  api_RegisterTopicValidator :: "'ps \<Rightarrow> string \<Rightarrow> MsgValidationConfig \<Rightarrow> 'ps \<times> err"
  api_Publish :: "'ps \<Rightarrow> 'top option \<Rightarrow> bytes \<Rightarrow> ('ps \<times> err) go"
  api_Close :: "'ps \<Rightarrow> 'top option \<Rightarrow> ('ps \<times> err) go"
  api_Subscribe :: "'ps \<Rightarrow> 'top option \<Rightarrow> int list \<Rightarrow> ('ps \<times> (string + 'sub)) go"
  api_Relay :: "'ps \<Rightarrow> 'top option \<Rightarrow> ('ps \<times> (string + 'fn)) go"
  api_String :: "'top option \<Rightarrow> string go"
  api_Cancel :: "'ps \<Rightarrow> 'sub option \<Rightarrow> 'ps go"
  api_RelayCancel :: "'ps \<Rightarrow> 'fn \<Rightarrow> 'ps"

section \<open>Controller state\<close>

text \<open>
  The fields of \<open>Controller\<close> these operations touch.  \<open>c_listeners\<close> records the goroutines
  that \<open>Subscribe\<close> starts, each on its topic and subscription, oldest last.
\<close>

record ('ps, 'top, 'sub, 'fn) ctrl =
  c_cfg_Pubsub :: "PubsubConfig option"
  c_pubsub :: 'ps
  c_topicManager :: "('top, 'sub, 'fn) topicManager"
  c_listeners :: "(string \<times> 'sub) list"

section \<open>Operations\<close>

definition join_opts :: "TopicConfig \<times> bool \<Rightarrow> MsgIdFunction list" where
  "join_opts cfgok =
     (case cfgok of (cfg, ok) \<Rightarrow>
        if ok then (case tc_MsgIDFnConfig cfg of
                      None \<Rightarrow> []
                    | Some m \<Rightarrow> [MsgIDFn (mid_Type m) (mid_Size m)])
        else [])"

definition val_config :: "PubsubConfig \<Rightarrow> TopicConfig \<Rightarrow> MsgValidationConfig" where
  "val_config pcfg cfg =
     (let msgValConfig = MsgValidationConfig_Defaults \<lparr>mvc_Timeout = 0, mvc_Concurrency = 0\<rparr>
                           (psc_MsgValidator pcfg)
      in case tc_MsgValidator cfg of
           None \<Rightarrow> msgValConfig
         | Some v \<Rightarrow> MsgValidationConfig_Defaults msgValConfig (Some v))"

definition tryJoin :: "('ps, 'top, 'sub, 'fn) pubsub_api \<Rightarrow> ('ps, 'top, 'sub, 'fn) ctrl \<Rightarrow> string
    \<Rightarrow> (('ps, 'top, 'sub, 'fn) ctrl \<times> 'top option \<times> err) go" where
  "tryJoin api c topicName =
     (case getTopicWrapper (c_topicManager c) topicName of
        Some a \<Rightarrow>
          (let topicW = tm_heap (c_topicManager c) a in
           if tw_state topicW = topicStateJoining
           then Ret (c, None, Some (''already tring to join topic '' @ topicName))
           else Ret (c, tw_topic topicW, None))
      | None \<Rightarrow>
          (let c = c\<lparr>c_topicManager := joiningTopic (c_topicManager c) topicName\<rparr> in
           case c_cfg_Pubsub c of
             None \<Rightarrow> Panic NilDeref
           | Some pcfg \<Rightarrow>
               (let cfgok = GetTopicConfig pcfg topicName; cfg = fst cfgok in
                case api_Join api (c_pubsub c) topicName (join_opts cfgok) of
                  (ps, Inl e) \<Rightarrow> Ret (c\<lparr>c_pubsub := ps\<rparr>, None, Some e)
                | (ps, Inr topic) \<Rightarrow>
                    (let c = c\<lparr>c_pubsub := ps, c_topicManager :=
                           fst (upgradeTopic (c_topicManager c) topicName (Some topic))\<rparr> in
                     if tc_MsgValidator cfg \<noteq> None \<or> psc_MsgValidator pcfg \<noteq> None then
                       (case api_RegisterTopicValidator api (c_pubsub c) topicName
                               (val_config pcfg cfg) of
                          (ps, Some e) \<Rightarrow> Ret (c\<lparr>c_pubsub := ps\<rparr>, Some topic, Some e)
                        | (ps, None) \<Rightarrow> Ret (c\<lparr>c_pubsub := ps\<rparr>, Some topic, None))
                     else Ret (c, Some topic, None)))))"

definition Publish :: "('ps, 'top, 'sub, 'fn) pubsub_api \<Rightarrow> ('ps, 'top, 'sub, 'fn) ctrl \<Rightarrow> string
    \<Rightarrow> bytes \<Rightarrow> (('ps, 'top, 'sub, 'fn) ctrl \<times> err) go" where
  "Publish api c topicName data =
     go_bind (tryJoin api c topicName) (\<lambda>(c, topic, e).
       case e of
         Some m \<Rightarrow> Ret (c, Some m)
       | None \<Rightarrow> go_bind (api_Publish api (c_pubsub c) topic data) (\<lambda>(ps, e).
                   Ret (c\<lparr>c_pubsub := ps\<rparr>, e)))"

text \<open>A nil wrapper is dereferenced: \<open>Leave\<close>, \<open>Unsubscribe\<close> and \<open>Unrelay\<close> panic on an unknown name.\<close>

definition Leave :: "('ps, 'top, 'sub, 'fn) pubsub_api \<Rightarrow> ('ps, 'top, 'sub, 'fn) ctrl \<Rightarrow> string
    \<Rightarrow> (('ps, 'top, 'sub, 'fn) ctrl \<times> err) go" where
  "Leave api c topicName =
     (case getTopicWrapper (c_topicManager c) topicName of
        None \<Rightarrow> Panic NilDeref
      | Some a \<Rightarrow>
          (let tw = tm_heap (c_topicManager c) a; state = tw_state tw in
           if state = topicStateJoined \<or> state = topicStateErr then
             go_bind (api_Close api (c_pubsub c) (tw_topic tw)) (\<lambda>(ps, e).
               (let c = c\<lparr>c_pubsub := ps\<rparr> in
                case e of
                  Some m \<Rightarrow> Ret (c\<lparr>c_topicManager :=
                      tm_poke (c_topicManager c) a (tw\<lparr>tw_state := topicStateErr\<rparr>)\<rparr>, Some m)
                | None \<Rightarrow> Ret (c\<lparr>c_topicManager :=
                      tm_poke (c_topicManager c) a (tw\<lparr>tw_state := topicStateUnknown\<rparr>)\<rparr>, None)))
           else Ret (c, None)))"

definition Unsubscribe :: "('ps, 'top, 'sub, 'fn) pubsub_api \<Rightarrow> ('ps, 'top, 'sub, 'fn) ctrl \<Rightarrow> string
    \<Rightarrow> (('ps, 'top, 'sub, 'fn) ctrl \<times> err) go" where
  "Unsubscribe api c topicName =
     (case getTopicWrapper (c_topicManager c) topicName of
        None \<Rightarrow> Panic NilDeref
      | Some a \<Rightarrow>
          (let tw = tm_heap (c_topicManager c) a in
           if tw_state tw = topicStateUnknown then Ret (c, None)
           else go_bind (api_Cancel api (c_pubsub c) (tw_sub tw)) (\<lambda>ps.
                  Ret (c\<lparr>c_pubsub := ps\<rparr>, None))))"

text \<open>The result is the new subscription, or nil when there is one already.\<close>

definition trySubscribe :: "('ps, 'top, 'sub, 'fn) pubsub_api \<Rightarrow> ('ps, 'top, 'sub, 'fn) ctrl
    \<Rightarrow> 'top option \<Rightarrow> (('ps, 'top, 'sub, 'fn) ctrl \<times> 'sub option \<times> err) go" where
  "trySubscribe api c topic =
     go_bind (api_String api topic) (\<lambda>topicName.
       case getSub (c_topicManager c) topicName of
         Some s \<Rightarrow> Ret (c, None, None)
       | None \<Rightarrow>
           (case c_cfg_Pubsub c of
              None \<Rightarrow> Panic NilDeref
            | Some pcfg \<Rightarrow>
                (let (cfg, ok) = GetTopicConfig pcfg topicName;
                     opts = (if ok \<and> tc_BufferSize cfg > 0 then [tc_BufferSize cfg] else []) in
                 go_bind (api_Subscribe api (c_pubsub c) topic opts) (\<lambda>r.
                   case r of
                     (ps, Inl e) \<Rightarrow> Ret (c\<lparr>c_pubsub := ps\<rparr>, None, Some e)
                   | (ps, Inr s) \<Rightarrow> Ret (c\<lparr>c_pubsub := ps, c_topicManager :=
                         fst (addSub (c_topicManager c) topicName (Some s))\<rparr>, Some s, None)))))"

definition Subscribe :: "('ps, 'top, 'sub, 'fn) pubsub_api \<Rightarrow> ('ps, 'top, 'sub, 'fn) ctrl \<Rightarrow> string
    \<Rightarrow> (('ps, 'top, 'sub, 'fn) ctrl \<times> err) go" where
  "Subscribe api c topicName =
     go_bind (tryJoin api c topicName) (\<lambda>(c, topic, e).
       case e of
         Some m \<Rightarrow> Ret (c, Some m)
       | None \<Rightarrow>
           go_bind (trySubscribe api c topic) (\<lambda>(c, s, e).
             case e of
               Some m \<Rightarrow> Ret (c, Some m)
             | None \<Rightarrow>
                 (case s of
                    None \<Rightarrow> Ret (c, None)
                  | Some s \<Rightarrow> Ret (c\<lparr>c_listeners := (topicName, s) # c_listeners c\<rparr>, None))))"

definition Relay :: "('ps, 'top, 'sub, 'fn) pubsub_api \<Rightarrow> ('ps, 'top, 'sub, 'fn) ctrl \<Rightarrow> string
    \<Rightarrow> (('ps, 'top, 'sub, 'fn) ctrl \<times> err) go" where
  "Relay api c topicName =
     go_bind (tryJoin api c topicName) (\<lambda>(c, topic, e).
       case e of
         Some m \<Rightarrow> Ret (c, Some m)
       | None \<Rightarrow>
           go_bind (api_Relay api (c_pubsub c) topic) (\<lambda>r.
             case r of
               (ps, Inl e) \<Rightarrow> Ret (c\<lparr>c_pubsub := ps\<rparr>, Some e)
             | (ps, Inr cancel) \<Rightarrow> Ret (c\<lparr>c_pubsub := ps, c_topicManager :=
                   fst (setTopicRelayCancelFn (c_topicManager c) topicName (Some cancel))\<rparr>, None)))"

definition Unrelay :: "('ps, 'top, 'sub, 'fn) pubsub_api \<Rightarrow> ('ps, 'top, 'sub, 'fn) ctrl \<Rightarrow> string
    \<Rightarrow> (('ps, 'top, 'sub, 'fn) ctrl \<times> err) go" where
  "Unrelay api c topicName =
     (case getTopicWrapper (c_topicManager c) topicName of
        None \<Rightarrow> Panic NilDeref
      | Some a \<Rightarrow>
          (let tw = tm_heap (c_topicManager c) a in
           if tw_state tw = topicStateUnknown then Ret (c, None)
           else (case tw_relayCancelFn tw of
                   None \<Rightarrow> Panic NilFuncCall
                 | Some fn \<Rightarrow> Ret (c\<lparr>c_pubsub := api_RelayCancel api (c_pubsub c) fn\<rparr>, None))))"

section \<open>Runs of calls\<close>

datatype ctrl_call =
    CPublish string bytes | CLeave string | CUnsubscribe string | CSubscribe string
  | CRelay string | CUnrelay string

fun exec :: "('ps, 'top, 'sub, 'fn) pubsub_api \<Rightarrow> ('ps, 'top, 'sub, 'fn) ctrl \<Rightarrow> ctrl_call
    \<Rightarrow> (('ps, 'top, 'sub, 'fn) ctrl \<times> err) go" where
  "exec api c (CPublish n d) = Publish api c n d"
| "exec api c (CLeave n) = Leave api c n"
| "exec api c (CUnsubscribe n) = Unsubscribe api c n"
| "exec api c (CSubscribe n) = Subscribe api c n"
| "exec api c (CRelay n) = Relay api c n"
| "exec api c (CUnrelay n) = Unrelay api c n"

text \<open>A run ends at the first panic; a returned error does not stop the caller.\<close>

fun exec_all :: "('ps, 'top, 'sub, 'fn) pubsub_api \<Rightarrow> ('ps, 'top, 'sub, 'fn) ctrl \<Rightarrow> ctrl_call list
    \<Rightarrow> ('ps, 'top, 'sub, 'fn) ctrl go" where
  "exec_all api c [] = Ret c"
| "exec_all api c (x # xs) = go_bind (exec api c x) (\<lambda>(c, _). exec_all api c xs)"

definition new_ctrl :: "PubsubConfig option \<Rightarrow> 'ps \<Rightarrow> ('ps, 'top, 'sub, 'fn) ctrl" where
  "new_ctrl cfg ps = \<lparr>c_cfg_Pubsub = cfg, c_pubsub = ps, c_topicManager = newTopicManager,
     c_listeners = []\<rparr>"

section \<open>Lemmas\<close>

abbreviation c_view :: "('ps, 'top, 'sub, 'fn) ctrl \<Rightarrow> ('top, 'sub, 'fn) table" where
  "c_view c \<equiv> tm_view (c_topicManager c)"

abbreviation c_inv :: "('ps, 'top, 'sub, 'fn) ctrl \<Rightarrow> bool" where
  "c_inv c \<equiv> tm_inv (c_topicManager c)"

text \<open>
  What a call may do to an entry of the table that exists before it: the handle is kept, an
  entry never enters or leaves the joining state, a stored subscription is kept.
\<close>

definition entry_kept :: "('top, 'sub, 'fn) topicWrapper \<Rightarrow> ('top, 'sub, 'fn) topicWrapper \<Rightarrow> bool" where
  "entry_kept tw tw' \<longleftrightarrow>
     tw_topic tw' = tw_topic tw \<and>
     (tw_state tw' = topicStateJoining \<longleftrightarrow> tw_state tw = topicStateJoining) \<and>
     (tw_sub tw \<noteq> None \<longrightarrow> tw_sub tw' = tw_sub tw)"

definition evolves :: "('top, 'sub, 'fn) table \<Rightarrow> ('top, 'sub, 'fn) table \<Rightarrow> bool" where
  "evolves v v' \<longleftrightarrow> (\<forall>n tw. v n = Some tw \<longrightarrow> (\<exists>tw'. v' n = Some tw' \<and> entry_kept tw tw'))"

lemma entry_kept_refl [simp]: "entry_kept tw tw"
  by (simp add: entry_kept_def)

lemma entry_kept_trans: "entry_kept a b \<Longrightarrow> entry_kept b c \<Longrightarrow> entry_kept a c"
  by (auto simp: entry_kept_def)

lemma evolves_refl [simp]: "evolves v v"
  by (simp add: evolves_def)

lemma evolves_trans: "evolves u v \<Longrightarrow> evolves v w \<Longrightarrow> evolves u w"
  unfolding evolves_def by (meson entry_kept_trans)

lemma evolves_upd_fresh [simp]: "v n = None \<Longrightarrow> evolves v (v(n \<mapsto> tw))"
  by (auto simp: evolves_def)

lemma evolves_upd: "v n = Some tw \<Longrightarrow> entry_kept tw tw' \<Longrightarrow> evolves v (v(n \<mapsto> tw'))"
  by (auto simp: evolves_def)

lemma view_SomeE:
  assumes "tm_view tm n = Some tw"
  obtains a where "getTopicWrapper tm n = Some a" "tm_topics tm n = Some a" "tm_heap tm a = tw"
  using assms by (auto simp: tm_view_def getTopicWrapper_def)

lemma view_NoneD [simp]: "tm_view tm n = None \<Longrightarrow> getTopicWrapper tm n = None"
  by (simp add: view_None_iff)

lemma tryJoin_known:
  assumes "c_view c n = Some tw"
  shows "tryJoin api c n =
    (if tw_state tw = topicStateJoining
     then Ret (c, None, Some (''already tring to join topic '' @ n))
     else Ret (c, tw_topic tw, None))"
  using assms by (elim view_SomeE) (simp add: tryJoin_def)

lemma tryJoin_fresh:
  assumes "c_inv c" "c_view c n = None" "tryJoin api c n = Ret (c', t, e)"
  obtains tw where "c_inv c'" "c_view c' = (c_view c)(n \<mapsto> tw)"
    "c_listeners c' = c_listeners c" "c_cfg_Pubsub c' = c_cfg_Pubsub c"
    "(tw = zeroWrapper\<lparr>tw_state := topicStateJoining\<rparr> \<and> t = None \<and> e \<noteq> None) \<or>
     (tw = zeroWrapper\<lparr>tw_state := topicStateJoined, tw_topic := t\<rparr> \<and> t \<noteq> None)"
proof -
  let ?tm = "joiningTopic (c_topicManager c) n"
  obtain pcfg where p: "c_cfg_Pubsub c = Some pcfg"
    using assms by (cases "c_cfg_Pubsub c") (auto simp: tryJoin_def)
  obtain ps r where j: "api_Join api (c_pubsub c) n (join_opts (GetTopicConfig pcfg n)) = (ps, r)"
    by fastforce
  show thesis
  proof (cases r)
    case (Inl m)
    with assms p j have "c' = c\<lparr>c_topicManager := ?tm, c_pubsub := ps\<rparr>" "t = None" "e = Some m"
      by (auto simp: tryJoin_def Let_def)
    then show thesis using assms(1)
      by (intro that) (auto simp: tm.joining_inv tm.joining_view tab_joining_def)
  next
    case (Inr tp)
    with assms p j have "\<exists>ps'. c' = c\<lparr>c_topicManager := fst (upgradeTopic ?tm n (Some tp)), c_pubsub := ps'\<rparr>"
      "t = Some tp"
      by (auto simp: tryJoin_def Let_def split: if_splits prod.splits option.splits
          intro!: exI ctrl.equality)
    then show thesis using assms(1)
      by (intro that) (auto simp: tm.join_upgrade)
  qed
qed

lemma tryJoin_step:
  assumes "c_inv c" "tryJoin api c n = Ret (c', t, e)"
  shows "c_inv c'" "evolves (c_view c) (c_view c')" "c_listeners c' = c_listeners c"
    "e = None \<Longrightarrow> \<exists>tw. c_view c' n = Some tw \<and> tw_topic tw = t \<and> tw_state tw \<noteq> topicStateJoining"
proof -
  have "c_inv c' \<and> evolves (c_view c) (c_view c') \<and> c_listeners c' = c_listeners c \<and>
    (e = None \<longrightarrow> (\<exists>tw. c_view c' n = Some tw \<and> tw_topic tw = t \<and> tw_state tw \<noteq> topicStateJoining))"
  proof (cases "c_view c n")
    case None
    from assms(1) None assms(2) show ?thesis
      by (rule tryJoin_fresh) (use None in \<open>auto simp: topic_state_defs\<close>)
  next
    case (Some tw)
    with assms show ?thesis by (auto simp: tryJoin_known split: if_splits)
  qed
  then show "c_inv c'" "evolves (c_view c) (c_view c')" "c_listeners c' = c_listeners c"
    "e = None \<Longrightarrow> \<exists>tw. c_view c' n = Some tw \<and> tw_topic tw = t \<and> tw_state tw \<noteq> topicStateJoining"
    by blast+
qed

text \<open>One call keeps the invariant and every entry.\<close>

definition step_ok :: "('ps, 'top, 'sub, 'fn) ctrl \<Rightarrow> ('ps, 'top, 'sub, 'fn) ctrl \<Rightarrow> bool" where
  "step_ok c c' \<longleftrightarrow> c_inv c' \<and> evolves (c_view c) (c_view c')"

lemma step_ok_trans: "step_ok a b \<Longrightarrow> step_ok b c \<Longrightarrow> step_ok a c"
  by (auto simp: step_ok_def intro: evolves_trans)

lemma step_ok_pubsub [simp]: "step_ok c (c'\<lparr>c_pubsub := ps\<rparr>) \<longleftrightarrow> step_ok c c'"
  "step_ok c (c'\<lparr>c_listeners := ls\<rparr>) \<longleftrightarrow> step_ok c c'"
  "step_ok c (c'\<lparr>c_pubsub := ps, c_topicManager := tm\<rparr>) \<longleftrightarrow> step_ok c (c'\<lparr>c_topicManager := tm\<rparr>)"
  by (simp_all add: step_ok_def)

lemma step_ok_refl: "c_inv c \<Longrightarrow> step_ok c c"
  by (simp add: step_ok_def)

lemma tryJoin_ok: "c_inv c \<Longrightarrow> tryJoin api c n = Ret (c', t, e) \<Longrightarrow> step_ok c c'"
  using tryJoin_step [of c api n c' t e] by (auto simp: step_ok_def)

lemma step_ok_poke:
  assumes "c_inv c" "tm_topics (c_topicManager c) n = Some a" "wrapper_ok tw"
    and "entry_kept (tm_heap (c_topicManager c) a) tw"
  shows "step_ok c (c\<lparr>c_topicManager := tm_poke (c_topicManager c) a tw\<rparr>)"
proof -
  have "c_view c n = Some (tm_heap (c_topicManager c) a)"
    using assms(2) by (simp add: tm_view_def)
  with assms show ?thesis
    by (auto simp: step_ok_def tm_inv_poke tm_view_poke intro: evolves_upd)
qed

lemma Publish_ok: "c_inv c \<Longrightarrow> Publish api c n d = Ret (c', e) \<Longrightarrow> step_ok c c'"
  by (auto simp: Publish_def go_bind_eq_Ret_iff split: option.splits dest: tryJoin_ok)

lemma Leave_ok:
  assumes "c_inv c" "Leave api c n = Ret (c', e)"
  shows "step_ok c c'"
proof -
  obtain a where a: "tm_topics (c_topicManager c) n = Some a"
    using assms by (auto simp: Leave_def getTopicWrapper_def split: option.splits)
  let ?tw = "tm_heap (c_topicManager c) a"
  have ok: "wrapper_ok ?tw" using assms(1) a by (auto simp: tm_inv_def)
  have "step_ok c (c\<lparr>c_topicManager := tm_poke (c_topicManager c) a (?tw\<lparr>tw_state := st\<rparr>)\<rparr>)"
    if "tw_state ?tw = topicStateJoined \<or> tw_state ?tw = topicStateErr"
      "st = topicStateErr \<or> st = topicStateUnknown" for st
    using assms(1) a
  proof (rule step_ok_poke)
    show "wrapper_ok (?tw\<lparr>tw_state := st\<rparr>)" "entry_kept ?tw (?tw\<lparr>tw_state := st\<rparr>)"
      using ok that by (auto simp: wrapper_ok_def entry_kept_def topic_state_defs)
  qed
  then show ?thesis using assms a
    by (auto simp: Leave_def getTopicWrapper_def go_bind_eq_Ret_iff Let_def step_ok_refl
        split: option.splits if_splits)
qed

lemma Unsubscribe_ok: "c_inv c \<Longrightarrow> Unsubscribe api c n = Ret (c', e) \<Longrightarrow> step_ok c c'"
  by (auto simp: Unsubscribe_def go_bind_eq_Ret_iff Let_def step_ok_refl
      split: option.splits if_splits)

lemma Unrelay_ok: "c_inv c \<Longrightarrow> Unrelay api c n = Ret (c', e) \<Longrightarrow> step_ok c c'"
  by (auto simp: Unrelay_def Let_def step_ok_refl split: option.splits if_splits)

lemma tab_modify_evolves:
  "(\<And>tw. v n = Some tw \<Longrightarrow> entry_kept tw (f tw)) \<Longrightarrow> evolves v (fst (tab_modify v n f))"
  by (auto simp: tab_modify_def evolves_upd split: option.splits)

lemma Relay_ok:
  assumes "c_inv c" "Relay api c n = Ret (c', e)"
  shows "step_ok c c'"
proof -
  have *: "step_ok c (c1\<lparr>c_topicManager :=
      fst (setTopicRelayCancelFn (c_topicManager c1) n (Some fn))\<rparr>)"
    if "step_ok c c1" for c1 fn
    using that tm.set_relay_inv [of "c_topicManager c1"] tm.set_relay_view [of "c_topicManager c1"]
    by (auto simp: step_ok_def elim!: evolves_trans intro!: tab_modify_evolves simp: entry_kept_def)
  obtain c1 t e1 where j: "tryJoin api c n = Ret (c1, t, e1)"
    using assms by (auto simp: Relay_def go_bind_eq_Ret_iff)
  from tryJoin_ok [OF assms(1) j] assms(2) j show ?thesis
    by (cases e1) (auto simp: Relay_def go_bind_eq_Ret_iff case_result_eq_iff intro: *)
qed

lemma trySubscribe_cases:
  assumes "trySubscribe api c topic = Ret (c', s, e)"
  obtains (known) "c' = c" "s = None" "e = None"
      "\<exists>m. api_String api topic = Ret m \<and> getSub (c_topicManager c) m \<noteq> None"
  | (failed) ps m where "c' = c\<lparr>c_pubsub := ps\<rparr>" "s = None" "e = Some m"
  | (new) ps m sb where "api_String api topic = Ret m" "getSub (c_topicManager c) m = None"
      "c' = c\<lparr>c_pubsub := ps, c_topicManager := fst (addSub (c_topicManager c) m (Some sb))\<rparr>"
      "s = Some sb" "e = None"
proof -
  obtain m where m: "api_String api topic = Ret m"
    using assms by (auto simp: trySubscribe_def go_bind_eq_Ret_iff)
  show thesis
  proof (cases "getSub (c_topicManager c) m")
    case None
    then obtain pcfg where "c_cfg_Pubsub c = Some pcfg"
      using assms m by (cases "c_cfg_Pubsub c") (auto simp: trySubscribe_def)
    with None m assms show thesis
      by (cases "GetTopicConfig pcfg m")
        (auto simp: trySubscribe_def go_bind_eq_Ret_iff case_result_eq_iff Let_def
          intro: failed new)
  next
    case (Some sb)
    with m assms show thesis by (intro known) (auto simp: trySubscribe_def)
  qed
qed

lemma addSub_ok:
  assumes "c_inv c" "getSub (c_topicManager c) m = None"
  shows "step_ok c (c\<lparr>c_topicManager := fst (addSub (c_topicManager c) m (Some sb))\<rparr>)"
  using assms tm.add_sub_inv [of "c_topicManager c"] tm.add_sub_view [of "c_topicManager c"]
  by (auto simp: step_ok_def tm.get_sub_view entry_kept_def intro!: tab_modify_evolves)

lemma trySubscribe_ok:
  assumes "c_inv c" "trySubscribe api c topic = Ret (c', s, e)"
  shows "step_ok c c'"
  using assms(2)
proof (cases rule: trySubscribe_cases)
  case (new ps m sb)
  from addSub_ok [OF assms(1) new(2), of sb] new(3) show ?thesis
    by (simp add: step_ok_def)
qed (simp_all add: step_ok_refl assms(1))

lemma Subscribe_cases:
  assumes "Subscribe api c n = Ret (c', e)"
  obtains (failed) c1 t m where "tryJoin api c n = Ret (c1, t, Some m)" "c' = c1" "e = Some m"
  | (joined) c1 t c2 s e2 where "tryJoin api c n = Ret (c1, t, None)"
      "trySubscribe api c1 t = Ret (c2, s, e2)" "e = e2"
      "c' = (case (s, e2) of (Some sb, None) \<Rightarrow> c2\<lparr>c_listeners := (n, sb) # c_listeners c2\<rparr> | _ \<Rightarrow> c2)"
proof -
  obtain c1 t e1 where j: "tryJoin api c n = Ret (c1, t, e1)"
    using assms by (auto simp: Subscribe_def go_bind_eq_Ret_iff)
  show thesis
  proof (cases e1)
    case (Some m)
    with j assms show thesis by (intro failed) (auto simp: Subscribe_def)
  next
    case None
    with j assms obtain c2 s e2 where s: "trySubscribe api c1 t = Ret (c2, s, e2)"
      by (auto simp: Subscribe_def go_bind_eq_Ret_iff)
    from j None s assms show thesis
      by (intro joined [of c1 t c2 s e2]) (auto simp: Subscribe_def split: option.splits)
  qed
qed

lemma Subscribe_ok:
  assumes "c_inv c" "Subscribe api c n = Ret (c', e)"
  shows "step_ok c c'"
  using assms(2)
proof (cases rule: Subscribe_cases)
  case (failed c1 t m)
  with assms(1) show ?thesis by (auto intro: tryJoin_ok)
next
  case (joined c1 t c2 s e2)
  have "step_ok c c1" using assms(1) joined(1) by (rule tryJoin_ok)
  moreover have "step_ok c1 c2"
    using \<open>step_ok c c1\<close> joined(2) by (intro trySubscribe_ok) (auto simp: step_ok_def)
  ultimately have "step_ok c c2" by (rule step_ok_trans)
  with joined(4) show ?thesis by (auto split: option.splits)
qed

lemmas call_oks = Publish_ok Leave_ok Unsubscribe_ok Subscribe_ok Relay_ok Unrelay_ok

lemma exec_ok: "c_inv c \<Longrightarrow> exec api c x = Ret (c', e) \<Longrightarrow> step_ok c c'"
  by (cases x) (auto intro: call_oks)

lemma exec_all_ok: "c_inv c \<Longrightarrow> exec_all api c xs = Ret c' \<Longrightarrow> step_ok c c'"
proof (induction xs arbitrary: c)
  case Nil
  then show ?case by (simp add: step_ok_refl)
next
  case (Cons x xs)
  then obtain c1 e where x: "exec api c x = Ret (c1, e)" "exec_all api c1 xs = Ret c'"
    by (auto simp: go_bind_eq_Ret_iff)
  with Cons.prems have "step_ok c c1" by (auto intro: exec_ok)
  moreover from this have "step_ok c1 c'"
    using Cons.IH x by (auto simp: step_ok_def)
  ultimately show ?case by (rule step_ok_trans)
qed

lemma c_inv_new [simp]: "c_inv (new_ctrl cfg ps)"
  by (simp add: new_ctrl_def)

text \<open>An entry of the table, seen after any run of calls.\<close>

lemma exec_all_entry:
  assumes "c_inv c" "c_view c n = Some tw" "exec_all api c xs = Ret c'"
  obtains tw' where "c_view c' n = Some tw'" "entry_kept tw tw'" "c_inv c'"
  using exec_all_ok [OF assms(1,3)] assms(2) by (auto simp: step_ok_def evolves_def)

section \<open>Listeners\<close>

text \<open>
  The documented behaviour of the library that the subscription path relies on: a handle
  obtained by \<open>Join\<close> for a name reports that name from \<open>String\<close>.
\<close>

definition Join_names :: "('ps, 'top, 'sub, 'fn) pubsub_api \<Rightarrow> bool" where
  "Join_names api \<longleftrightarrow>
     (\<forall>ps n opts ps' t. api_Join api ps n opts = (ps', Inr t) \<longrightarrow> api_String api (Some t) = Ret n)"

definition names_ok :: "('ps, 'top, 'sub, 'fn) pubsub_api \<Rightarrow> ('top, 'sub, 'fn) table \<Rightarrow> bool" where
  "names_ok api v \<longleftrightarrow>
     (\<forall>n tw t. v n = Some tw \<longrightarrow> tw_topic tw = Some t \<longrightarrow> api_String api (Some t) = Ret n)"

definition listeners_ok :: "('ps, 'top, 'sub, 'fn) ctrl \<Rightarrow> bool" where
  "listeners_ok c \<longleftrightarrow>
     distinct (map fst (c_listeners c)) \<and>
     (\<forall>n s. (n, s) \<in> set (c_listeners c) \<longrightarrow> 
       (\<exists>tw. c_view c n = Some tw \<and> tw_sub tw = Some s \<and> tw_state tw \<noteq> topicStateJoining))"

lemma names_ok_modify:
  "names_ok api v \<Longrightarrow> (\<And>tw. tw_topic (f tw) = tw_topic tw) \<Longrightarrow> names_ok api (fst (tab_modify v n f))"
  by (auto simp: names_ok_def tab_modify_def split: option.splits)

lemma tryJoin_names:
  assumes "Join_names api" "c_inv c" "names_ok api (c_view c)" "tryJoin api c n = Ret (c', t, e)"
  shows "names_ok api (c_view c')"
proof (cases "c_view c n")
  case (Some tw)
  with assms show ?thesis by (auto simp: tryJoin_known split: if_splits)
next
  case None
  have "\<exists>ps opts ps'. api_Join api ps n opts = (ps', Inr tp)" if "t = Some tp" for tp
    using assms(4) None that
    by (auto simp: tryJoin_def Let_def split: option.splits prod.splits sum.splits if_splits)
  with assms(1) have "t = Some tp \<Longrightarrow> api_String api (Some tp) = Ret n" for tp
    by (auto simp: Join_names_def)
  with assms(3) show ?thesis
    by - (rule tryJoin_fresh [OF assms(2) None assms(4)], auto simp: names_ok_def zeroWrapper_def)
qed

lemma listeners_ok_step:
  assumes "listeners_ok c" "step_ok c c'" "c_listeners c' = c_listeners c"
  shows "listeners_ok c'"
proof -
  have "\<exists>tw. c_view c' n = Some tw \<and> tw_sub tw = Some s \<and> tw_state tw \<noteq> topicStateJoining"
    if "(n, s) \<in> set (c_listeners c)" for n s
  proof -
    from that assms(1) obtain tw where tw: "c_view c n = Some tw"
      "tw_sub tw = Some s \<and> tw_state tw \<noteq> topicStateJoining"
      by (auto simp: listeners_ok_def)
    with assms(2) obtain tw' where "c_view c' n = Some tw'" "entry_kept tw tw'"
      by (auto simp: step_ok_def evolves_def)
    with tw(2) show ?thesis by (auto simp: entry_kept_def)
  qed
  with assms(1,3) show ?thesis by (auto simp: listeners_ok_def)
qed

lemma Subscribe_listeners:
  assumes "Join_names api" "c_inv c" "names_ok api (c_view c)" "listeners_ok c"
    and "Subscribe api c n = Ret (c', e)"
  shows "names_ok api (c_view c') \<and> listeners_ok c'"
  using assms(5)
proof (cases rule: Subscribe_cases)
  case (failed c1 t m)
  then show ?thesis
    using assms tryJoin_names tryJoin_ok tryJoin_step(3) listeners_ok_step by blast
next
  case (joined c1 t c2 s e2)
  note j = tryJoin_step [OF assms(2) joined(1)]
  have n1: "names_ok api (c_view c1)" using assms(1-3) joined(1) by (rule tryJoin_names)
  have l1: "listeners_ok c1"
    using assms(4) tryJoin_ok [OF assms(2) joined(1)] j(3) by (rule listeners_ok_step)
  from joined(2) show ?thesis
  proof (cases rule: trySubscribe_cases)
    case known
    with joined n1 l1 show ?thesis by simp
  next
    case (failed ps m)
    with joined n1 l1 show ?thesis by (simp add: listeners_ok_def)
  next
    case (new ps m sb)
    from j(4) obtain tw where tw: "c_view c1 n = Some tw" "tw_topic tw = t"
      "tw_state tw \<noteq> topicStateJoining" by auto
    with wrapper_ok_view [OF j(1)] obtain tp where "t = Some tp"
      by (auto simp: wrapper_ok_def)
    with n1 tw new(1) have m: "m = n" by (auto simp: names_ok_def)
    have v: "c_view c2 = (c_view c1)(n \<mapsto> tw\<lparr>tw_sub := Some sb\<rparr>)"
      using tm.get_sub_add_sub(2) [OF j(1) tw(1)] new(3) m by simp
    from new(2) m tw(1) have "tw_sub tw = None" by (simp add: tm.get_sub_view)
    with l1 tw(1) have "n \<notin> fst ` set (c_listeners c1)" by (fastforce simp: listeners_ok_def)
    with l1 v new joined(3,4) tw(3) have "listeners_ok c'" by (force simp: listeners_ok_def)
    moreover have "names_ok api (c_view c')"
      using n1 tw v joined(3,4) new(4,5) by (auto simp: names_ok_def)
    ultimately show ?thesis by simp
  qed
qed

lemma exec_frame:
  assumes "c_inv c" "exec api c x = Ret (c', e)" "\<And>n. x \<noteq> CSubscribe n"
  shows "c_listeners c' = c_listeners c"
  using assms
  by (cases x)
    (auto simp: Publish_def Leave_def Unsubscribe_def Relay_def Unrelay_def go_bind_eq_Ret_iff
      case_result_eq_iff Let_def dest: tryJoin_step(3) split: option.splits if_splits)

lemma exec_names:
  assumes "Join_names api" "c_inv c" "names_ok api (c_view c)" "exec api c x = Ret (c', e)"
    and "\<And>n. x \<noteq> CSubscribe n"
  shows "names_ok api (c_view c')"
proof (cases x)
  case (CPublish n d)
  with assms show ?thesis
    by (auto simp: Publish_def go_bind_eq_Ret_iff split: option.splits dest: tryJoin_names)
next
  case (CLeave n)
  obtain a where a: "tm_topics (c_topicManager c) n = Some a"
    using assms(4) CLeave by (auto simp: Leave_def getTopicWrapper_def split: option.splits)
  have "names_ok api ((c_view c)(n \<mapsto> (tm_heap (c_topicManager c) a)\<lparr>tw_state := st\<rparr>))" for st
    using assms(3) a by (auto simp: names_ok_def tm_view_def)
  with assms CLeave a show ?thesis
    by (auto simp: Leave_def getTopicWrapper_def go_bind_eq_Ret_iff Let_def tm_view_poke
        split: option.splits if_splits)
next
  case (CRelay n)
  then obtain c1 t e1 where j: "tryJoin api c n = Ret (c1, t, e1)"
    using assms(4) by (auto simp: Relay_def go_bind_eq_Ret_iff)
  have "names_ok api (c_view c1)" using assms(1-3) j by (rule tryJoin_names)
  with CRelay assms(4) j tryJoin_step(1) [OF assms(2) j] show ?thesis
    by (cases e1) (auto simp: Relay_def go_bind_eq_Ret_iff case_result_eq_iff
        tm.set_relay_view names_ok_modify)
qed (use assms in \<open>auto simp: Unsubscribe_def Unrelay_def go_bind_eq_Ret_iff Let_def
       split: option.splits if_splits\<close>)

lemma exec_all_listeners:
  assumes "Join_names api" "c_inv c" "names_ok api (c_view c)" "listeners_ok c"
    and "exec_all api c xs = Ret c'"
  shows "listeners_ok c' \<and> names_ok api (c_view c')"
  using assms(2-5)
proof (induction xs arbitrary: c)
  case (Cons x xs)
  then obtain c1 e where x: "exec api c x = Ret (c1, e)" "exec_all api c1 xs = Ret c'"
    by (auto simp: go_bind_eq_Ret_iff)
  have s: "step_ok c c1" using Cons.prems(1) x(1) by (rule exec_ok)
  have "names_ok api (c_view c1) \<and> listeners_ok c1"
  proof (cases "\<exists>n. x = CSubscribe n")
    case True
    with x(1) Cons.prems assms(1) show ?thesis by (auto intro: Subscribe_listeners [THEN conjunct1]
          Subscribe_listeners [THEN conjunct2])
  next
    case False
    with x(1) Cons.prems assms(1) s show ?thesis
      by (blast intro: exec_names exec_frame listeners_ok_step)
  qed
  with s x(2) Cons.IH show ?case by (auto simp: step_ok_def)
qed simp

end
