(* ===== verification/Pubsub_Props.thy ===== *)
theory Pubsub_Props
  imports Pubsub_Ctrl
begin

text \<open>
  The correctness properties of the topic table and of the controller's pubsub operations,
  over arbitrary runs of calls, with their instances on a concrete library.
\<close>

section \<open>A concrete library\<close>

text \<open>
  A library whose handles and subscriptions are the topic names and whose state is the log of
  the effective calls.  \<open>Join\<close> fails on the names in \<open>bj\<close> and registering a validator on
  those in \<open>bv\<close>.
\<close>

definition demo_api :: "string list \<Rightarrow> string list
    \<Rightarrow> (string list, string, string, unit) pubsub_api" where
  "demo_api bj bv =
     \<lparr>api_Join = (\<lambda>ps n opts. if n \<in> set bj then (ps, Inl ''join'') else ((''join '' @ n) # ps, Inr n)),
      api_RegisterTopicValidator = (\<lambda>ps n v. if n \<in> set bv then (ps, Some ''validator'')
          else ((''validator '' @ n) # ps, None)),
      api_Publish = (\<lambda>ps t d. case t of None \<Rightarrow> Panic NilDeref | Some n \<Rightarrow> Ret ((''publish '' @ n) # ps, None)),
      api_Close = (\<lambda>ps t. case t of None \<Rightarrow> Panic NilDeref | Some n \<Rightarrow> Ret ((''close '' @ n) # ps, None)),
      api_Subscribe = (\<lambda>ps t opts. case t of None \<Rightarrow> Panic NilDeref | Some n \<Rightarrow> Ret ((''subscribe '' @ n) # ps, Inr n)),
      api_Relay = (\<lambda>ps t. case t of None \<Rightarrow> Panic NilDeref | Some n \<Rightarrow> Ret ((''relay '' @ n) # ps, Inr ())),
      api_String = (\<lambda>t. case t of None \<Rightarrow> Panic NilDeref | Some n \<Rightarrow> Ret n),
      api_Cancel = (\<lambda>ps s. case s of None \<Rightarrow> Panic NilDeref | Some n \<Rightarrow> Ret ((''cancel '' @ n) # ps)),
      api_RelayCancel = (\<lambda>ps f. ''unrelay'' # ps)\<rparr>"

definition demo_cfg :: PubsubConfig where
  "demo_cfg = \<lparr>psc_Topics = [], psc_Overlay = None, psc_SubFilter = None, psc_MaxMessageSize = 0,
     psc_MsgValidationTimeout = 0, psc_Scoring = None,
     psc_MsgValidator = Some \<lparr>mvc_Timeout = 0, mvc_Concurrency = 0\<rparr>,
     psc_MsgIDFnConfig = None, psc_Trace = None\<rparr>"

definition demo_run :: "string list \<Rightarrow> string list \<Rightarrow> ctrl_call list
    \<Rightarrow> (string list, string, string, unit) ctrl go" where
  "demo_run bj bv xs = exec_all (demo_api bj bv) (new_ctrl (Some demo_cfg) []) xs"

lemma demo_api_simps:
  "api_Join (demo_api bj bv) ps n opts =
     (if n \<in> set bj then (ps, Inl ''join'') else ((''join '' @ n) # ps, Inr n))"
  "api_RegisterTopicValidator (demo_api bj bv) ps n v =
     (if n \<in> set bv then (ps, Some ''validator'') else ((''validator '' @ n) # ps, None))"
  "api_Publish (demo_api bj bv) ps (Some n) d = Ret ((''publish '' @ n) # ps, None)"
  by (simp_all add: demo_api_def)

lemma demo_Join_names: "Join_names (demo_api bj bv)"
  by (auto simp: Join_names_def demo_api_def split: if_splits)

section \<open>Topic table\<close>

text \<open>C3: the topic manager with its heap of shared wrappers refines the map from topic names
  to wrapper values: every operation of \<open>core/topic.go\<close> keeps the invariant, returns the result
  of the abstract operation and takes the abstract table to the abstract result.\<close>

theorem topic_manager_refines_table:
  assumes "tm_inv tm"
  shows "(tm_inv (joiningTopic tm n) \<and> tm_view (joiningTopic tm n) = tab_joining (tm_view tm) n)
    \<and> (tm_inv (fst (upgradeTopic tm n (Some t)))
       \<and> (tm_view (fst (upgradeTopic tm n (Some t))), snd (upgradeTopic tm n (Some t)))
         = tab_upgrade (tm_view tm) n (Some t))
    \<and> (tm_inv (fst (setTopicRelayCancelFn tm n fn))
       \<and> (tm_view (fst (setTopicRelayCancelFn tm n fn)), snd (setTopicRelayCancelFn tm n fn))
         = tab_modify (tm_view tm) n (\<lambda>tw. tw\<lparr>tw_relayCancelFn := fn\<rparr>))
    \<and> (tm_inv (fst (addSub tm n s))
       \<and> (tm_view (fst (addSub tm n s)), snd (addSub tm n s))
         = tab_modify (tm_view tm) n (\<lambda>tw. tw\<lparr>tw_sub := s\<rparr>))
    \<and> getSub tm n = Option.bind (tm_view tm n) tw_sub
    \<and> map_option (tm_heap tm) (getTopicWrapper tm n) = tm_view tm n"
  using assms
  by (simp add: tm.joining_inv tm.joining_view tm.upgrade_inv tm.upgrade_view tm.set_relay_inv
      tm.set_relay_view tm.add_sub_inv tm.add_sub_view tm.get_sub_view getTopicWrapper_def tm_view_def
      split: option.splits)

text \<open>The hypothesis holds for the table with one joining topic.\<close>

theorem topic_manager_refines_table_witness:
  "tm_inv (joiningTopic newTopicManager ''a'' :: (string, string, unit) topicManager)
   \<and> tm_view (fst (upgradeTopic (joiningTopic newTopicManager ''a'') ''a'' (Some ''h'')))
     = (\<lambda>_. None)(''a'' \<mapsto> (zeroWrapper :: (string, string, unit) topicWrapper)
          \<lparr>tw_state := topicStateJoined, tw_topic := Some ''h''\<rparr>)"
proof -
  let ?tm = "joiningTopic newTopicManager ''a'' :: (string, string, unit) topicManager"
  have "tm_inv ?tm \<and> tm_view ?tm = tab_joining (tm_view newTopicManager) ''a''"
    by (rule topic_manager_refines_table [OF tm_inv_new, THEN conjunct1])
  then have h: "tm_inv ?tm" and v: "tm_view ?tm = tab_joining (\<lambda>_. None) ''a''" by simp_all
  from topic_manager_refines_table [OF h, of "''a''" "''h''" None None]
  have "tm_view (fst (upgradeTopic ?tm ''a'' (Some ''h'')))
      = fst (tab_upgrade (tm_view ?tm) ''a'' (Some ''h''))"
    by (metis fst_conv)
  with h show ?thesis unfolding v by (simp add: tab_upgrade_def tab_joining_def)
qed

section \<open>Runs of the controller\<close>


lemma demo_run_ex:
  assumes "is_ret (demo_run bj bv xs)"
  obtains c where "exec_all (demo_api bj bv) (new_ctrl (Some demo_cfg) []) xs = Ret c"
    "demo_run bj bv xs = Ret c"
  using assms by (auto simp: is_ret_iff demo_run_def)


text \<open>at most one listening goroutine is ever started per topic: in every reachable state
  the topics of the started listeners are distinct, and each listener's subscription is the one
  stored in the topic's wrapper.\<close>

theorem one_listener_per_topic:
  assumes "Join_names api" and "exec_all api (new_ctrl cfg ps) xs = Ret c"
  shows "distinct (map fst (c_listeners c))
    \<and> (\<forall>n s. (n, s) \<in> set (c_listeners c) \<longrightarrow> getSub (c_topicManager c) n = Some s)"
proof -
  have "listeners_ok c"
    using exec_all_listeners [OF assms(1) c_inv_new _ _ assms(2)]
    by (simp add: new_ctrl_def names_ok_def listeners_ok_def)
  then show ?thesis by (force simp: listeners_ok_def tm.get_sub_view)
qed

theorem one_listener_per_topic_witness:
  "\<exists>c. exec_all (demo_api [] []) (new_ctrl (Some demo_cfg) [])
       [CSubscribe ''a'', CSubscribe ''b'', CSubscribe ''a''] = Ret c
     \<and> c_listeners c = [(''b'', ''b''), (''a'', ''a'')]
     \<and> getSub (c_topicManager c) ''a'' = Some ''a''"
proof -
  let ?xs = "[CSubscribe ''a'', CSubscribe ''b'', CSubscribe ''a'']"
  have "(case demo_run [] [] ?xs of Ret c \<Rightarrow> c_listeners c = [(''b'', ''b''), (''a'', ''a'')]
      | Panic _ \<Rightarrow> False)" by code_simp
  then obtain c where c: "exec_all (demo_api [] []) (new_ctrl (Some demo_cfg) []) ?xs = Ret c"
    "c_listeners c = [(''b'', ''b''), (''a'', ''a'')]"
    by (auto simp: demo_run_def split: go.splits)
  from one_listener_per_topic [OF demo_Join_names c(1)] c show ?thesis by auto
qed

text \<open>once a listener was started for a topic, \<open>Subscribe\<close> on it is a no-op for ever, also
  after \<open>Unsubscribe\<close> cancelled the subscription: it returns no error, calls nothing of the
  library and starts no listener, so the node does not receive on that topic again.\<close>

theorem resubscribe_is_noop:
  assumes "Join_names api" and "exec_all api (new_ctrl cfg ps) xs = Ret c"
    and "(n, s) \<in> set (c_listeners c)"
  shows "Subscribe api c n = Ret (c, None)"
proof -
  have ok: "listeners_ok c \<and> names_ok api (c_view c)" and i: "c_inv c"
    using exec_all_listeners [OF assms(1) c_inv_new _ _ assms(2)] exec_all_ok [OF c_inv_new assms(2)]
    by (simp_all add: new_ctrl_def names_ok_def listeners_ok_def step_ok_def)
  from ok assms(3) obtain tw where tw: "c_view c n = Some tw" "tw_sub tw = Some s"
    "tw_state tw \<noteq> topicStateJoining" by (auto simp: listeners_ok_def)
  with wrapper_ok_view [OF i tw(1)] obtain t where t: "tw_topic tw = Some t"
    by (auto simp: wrapper_ok_def)
  with ok tw(1) have "api_String api (Some t) = Ret n" by (auto simp: names_ok_def)
  with t tw show ?thesis
    by (simp add: Subscribe_def tryJoin_known trySubscribe_def tm.get_sub_view)
qed

theorem resubscribe_is_noop_witness:
  "\<exists>c. exec_all (demo_api [] []) (new_ctrl (Some demo_cfg) [])
       [CSubscribe ''a'', CUnsubscribe ''a''] = Ret c
     \<and> hd (c_pubsub c) = ''cancel a'' \<and> Subscribe (demo_api [] []) c ''a'' = Ret (c, None)"
proof -
  let ?xs = "[CSubscribe ''a'', CUnsubscribe ''a'']"
  have "(case demo_run [] [] ?xs of Ret c \<Rightarrow> (''a'', ''a'') \<in> set (c_listeners c)
       \<and> hd (c_pubsub c) = ''cancel a'' | Panic _ \<Rightarrow> False)" by code_simp
  then obtain c where c: "exec_all (demo_api [] []) (new_ctrl (Some demo_cfg) []) ?xs = Ret c"
    "(''a'', ''a'') \<in> set (c_listeners c)" "hd (c_pubsub c) = ''cancel a''"
    by (auto simp: demo_run_def split: go.splits)
  from resubscribe_is_noop [OF demo_Join_names c(1,2)] c show ?thesis by blast
qed

text \<open>a topic handle is permanent.  Once a topic has the handle \<open>t\<close>, after any further calls
  (\<open>Leave\<close>, which closes \<open>t\<close>, included) \<open>Publish\<close> goes to \<open>t\<close> without joining again.\<close>

theorem topic_handle_permanent:
  assumes "tm_inv (c_topicManager c)" and "tm_view (c_topicManager c) n = Some tw"
    and "tw_topic tw = Some t" and "exec_all api c xs = Ret c'"
  shows "Publish api c' n d =
    go_bind (api_Publish api (c_pubsub c') (Some t) d) (\<lambda>(ps, e). Ret (c'\<lparr>c_pubsub := ps\<rparr>, e))"
proof -
  from assms(1,2,4) obtain tw' where tw': "c_view c' n = Some tw'" "entry_kept tw tw'"
    by (rule exec_all_entry)
  from wrapper_ok_view [OF assms(1,2)] assms(3) have "tw_state tw \<noteq> topicStateJoining"
    by (auto simp: wrapper_ok_def)
  with tw' assms(3) show ?thesis
    by (simp add: Publish_def tryJoin_known entry_kept_def)
qed

theorem topic_handle_permanent_witness:
  "\<exists>c c'. exec_all (demo_api [] []) (new_ctrl (Some demo_cfg) []) [CPublish ''a'' [1]] = Ret c
     \<and> exec_all (demo_api [] []) c [CLeave ''a''] = Ret c' \<and> hd (c_pubsub c') = ''close a''
     \<and> Publish (demo_api [] []) c' ''a'' [2] = Ret (c'\<lparr>c_pubsub := ''publish a'' # c_pubsub c'\<rparr>, None)"
proof -
  let ?api = "demo_api [] []"
  have "(case demo_run [] [] [CPublish ''a'' [1]] of
      Ret c \<Rightarrow> map_option tw_topic (c_view c ''a'') = Some (Some ''a'') \<and>
        (case exec_all ?api c [CLeave ''a''] of Ret c' \<Rightarrow> hd (c_pubsub c') = ''close a'' | Panic _ \<Rightarrow> False)
    | Panic _ \<Rightarrow> False)" by code_simp
  then obtain c c' tw where c: "exec_all ?api (new_ctrl (Some demo_cfg) []) [CPublish ''a'' [1]] = Ret c"
    "c_view c ''a'' = Some tw" "tw_topic tw = Some ''a''" "exec_all ?api c [CLeave ''a''] = Ret c'"
    "hd (c_pubsub c') = ''close a''"
    by (auto simp: demo_run_def simp del: exec_all.simps split: go.splits)
  have i: "c_inv c" using exec_all_ok [OF c_inv_new c(1)] by (simp add: step_ok_def)
  from topic_handle_permanent [OF i c(2,3,4), of "[2]"]
  have "Publish ?api c' ''a'' [2] = Ret (c'\<lparr>c_pubsub := ''publish a'' # c_pubsub c'\<rparr>, None)"
    by (simp add: demo_api_def)
  with c show ?thesis by blast
qed

section \<open>Joining\<close>

abbreviation pub_to :: "('ps, 'top, 'sub, 'fn) pubsub_api \<Rightarrow> ('ps, 'top, 'sub, 'fn) ctrl \<Rightarrow> 'top
    \<Rightarrow> bytes \<Rightarrow> (('ps, 'top, 'sub, 'fn) ctrl \<times> err) go" where
  "pub_to api c t d \<equiv>
     go_bind (api_Publish api (c_pubsub c) (Some t) d) (\<lambda>(ps, e). Ret (c\<lparr>c_pubsub := ps\<rparr>, e))"

lemma publish_known_handle:
  assumes "c_inv c" "c_view c n = Some tw" "tw_topic tw = Some t" "exec_all api c xs = Ret c'"
  shows "Publish api c' n d = pub_to api c' t d"
proof -
  from assms(1,2,4) obtain tw' where tw': "c_view c' n = Some tw'" "entry_kept tw tw'"
    by (rule exec_all_entry)
  from wrapper_ok_view [OF assms(1,2)] assms(3) have "tw_state tw \<noteq> topicStateJoining"
    by (auto simp: wrapper_ok_def)
  with tw' assms(3) show ?thesis
    by (simp add: Publish_def tryJoin_known entry_kept_def)
qed

text \<open>joining lazily registers the configured validator first.  When a publish, subscribe or
  relay joins a new topic without an error and a validator is configured for the topic or for
  all topics, the library accepted the registration with the effective validation config, and
  the returned handle is the one stored for the topic.\<close>

theorem tryJoin_registers_validator:
  assumes "tm_inv (c_topicManager c)" and "tm_view (c_topicManager c) n = None"
    and "c_cfg_Pubsub c = Some pcfg"
    and "tc_MsgValidator (fst (GetTopicConfig pcfg n)) \<noteq> None \<or> psc_MsgValidator pcfg \<noteq> None"
    and "tryJoin api c n = Ret (c', topic, None)"
  shows "(\<exists>ps. api_RegisterTopicValidator api ps n (val_config pcfg (fst (GetTopicConfig pcfg n)))
           = (c_pubsub c', None))
    \<and> (\<exists>t. topic = Some t \<and> tm_view (c_topicManager c') n
         = Some (zeroWrapper\<lparr>tw_state := topicStateJoined, tw_topic := Some t\<rparr>))"
proof -
  have "\<exists>ps. api_RegisterTopicValidator api ps n (val_config pcfg (fst (GetTopicConfig pcfg n)))
           = (c_pubsub c', None)"
    using assms(2-5)
    by (auto simp: tryJoin_def Let_def split: prod.splits sum.splits if_splits option.splits)
  then show ?thesis
    by - (rule tryJoin_fresh [OF assms(1,2,5)], auto)
qed

theorem tryJoin_registers_validator_witness:
  "\<exists>c'. tryJoin (demo_api [] []) (new_ctrl (Some demo_cfg) []) ''a'' = Ret (c', Some ''a'', None)
     \<and> c_pubsub c' = [''validator a'', ''join a'']
     \<and> tw_topic (the (tm_view (c_topicManager c') ''a'')) = Some ''a''"
proof -
  let ?c = "new_ctrl (Some demo_cfg) [] :: (string list, string, string, unit) ctrl"
  have "(case tryJoin (demo_api [] []) ?c ''a'' of
      Ret (c', t, e) \<Rightarrow> t = Some ''a'' \<and> e = None \<and> c_pubsub c' = [''validator a'', ''join a'']
    | Panic _ \<Rightarrow> False)" by code_simp
  then obtain c' where c': "tryJoin (demo_api [] []) ?c ''a'' = Ret (c', Some ''a'', None)"
    "c_pubsub c' = [''validator a'', ''join a'']" by (auto split: go.splits prod.splits)
  have "c_view ?c ''a'' = None" "c_cfg_Pubsub ?c = Some demo_cfg" by (simp_all add: new_ctrl_def)
  from tryJoin_registers_validator [OF c_inv_new this _ c'(1)] c' show ?thesis
    by (auto simp: demo_cfg_def)
qed

text \<open>a failed validator registration is forgotten.  The call that joined the topic returns
  the registration error, but the topic stays joined: every later publish on it goes out on the
  handle, and nothing registers the validator again.\<close>

theorem validator_failure_forgotten:
  assumes "tm_inv (c_topicManager c)" and "tm_view (c_topicManager c) n = None"
    and "c_cfg_Pubsub c = Some pcfg"
    and "tc_MsgValidator (fst (GetTopicConfig pcfg n)) \<noteq> None \<or> psc_MsgValidator pcfg \<noteq> None"
    and "api_Join api (c_pubsub c) n (join_opts (GetTopicConfig pcfg n)) = (ps1, Inr t)"
    and "api_RegisterTopicValidator api ps1 n (val_config pcfg (fst (GetTopicConfig pcfg n)))
      = (ps2, Some e)"
  shows "\<exists>c1. Publish api c n d = Ret (c1, Some e) \<and>
    (\<forall>xs c2 d'. exec_all api c1 xs = Ret c2 \<longrightarrow>
       Publish api c2 n d' = go_bind (api_Publish api (c_pubsub c2) (Some t) d')
         (\<lambda>(ps, e). Ret (c2\<lparr>c_pubsub := ps\<rparr>, e)))"
proof -
  obtain c1 where j: "tryJoin api c n = Ret (c1, Some t, Some e)"
    using assms(2-6) by (auto simp: tryJoin_def Let_def)
  then have "Publish api c n d = Ret (c1, Some e)" by (simp add: Publish_def)
  moreover obtain tw where "c_inv c1" "c_view c1 n = Some tw" "tw_topic tw = Some t"
    by (rule tryJoin_fresh [OF assms(1,2) j]) auto
  ultimately show ?thesis by (blast intro: publish_known_handle)
qed

theorem validator_failure_forgotten_witness:
  "\<exists>c1. Publish (demo_api [] [''a'']) (new_ctrl (Some demo_cfg) []) ''a'' [1] = Ret (c1, Some ''validator'')
     \<and> Publish (demo_api [] [''a'']) c1 ''a'' [2] = Ret (c1\<lparr>c_pubsub := ''publish a'' # c_pubsub c1\<rparr>, None)"
proof -
  let ?c = "new_ctrl (Some demo_cfg) [] :: (string list, string, string, unit) ctrl"
  have "c_view ?c ''a'' = None" "c_cfg_Pubsub ?c = Some demo_cfg" by (simp_all add: new_ctrl_def)
  from validator_failure_forgotten [OF c_inv_new this, of "demo_api [] [''a'']" "[''join a'']" "''a''"
      "[''join a'']" "''validator''" "[1]"]
  obtain c1 where c1: "Publish (demo_api [] [''a'']) ?c ''a'' [1] = Ret (c1, Some ''validator'')"
    and p: "exec_all (demo_api [] [''a'']) c1 xs = Ret c2 \<Longrightarrow>
      Publish (demo_api [] [''a'']) c2 ''a'' d = pub_to (demo_api [] [''a'']) c2 ''a'' d" for xs c2 d
    by (auto simp: demo_cfg_def demo_api_simps new_ctrl_def simp del: exec_all.simps)
  with p [of "[]" c1 "[2]"] show ?thesis by (auto simp: demo_api_simps)
qed

text \<open>a failed \<open>Join\<close> wedges its topic.  The failing call returns the library's error; from
  then on, after any further calls, every publish, subscribe and relay on the topic fails with
  the error that the topic is being joined, without trying again.\<close>

theorem failed_join_wedges_topic:
  assumes "tm_inv (c_topicManager c)" and "tm_view (c_topicManager c) n = None"
    and "c_cfg_Pubsub c = Some pcfg"
    and "api_Join api (c_pubsub c) n (join_opts (GetTopicConfig pcfg n)) = (ps1, Inl e)"
  shows "\<exists>c1. Publish api c n d = Ret (c1, Some e) \<and>
    (\<forall>xs c2 d'. exec_all api c1 xs = Ret c2 \<longrightarrow>
       Publish api c2 n d' = Ret (c2, Some (''already tring to join topic '' @ n)) \<and>
       Subscribe api c2 n = Ret (c2, Some (''already tring to join topic '' @ n)) \<and>
       Relay api c2 n = Ret (c2, Some (''already tring to join topic '' @ n)))"
proof -
  obtain c1 where j: "tryJoin api c n = Ret (c1, None, Some e)"
    using assms(2-4) by (auto simp: tryJoin_def Let_def)
  then have "Publish api c n d = Ret (c1, Some e)" by (simp add: Publish_def)
  moreover obtain tw where tw: "c_inv c1" "c_view c1 n = Some tw" "tw_state tw = topicStateJoining"
    by (rule tryJoin_fresh [OF assms(1,2) j]) auto
  have "tryJoin api c2 n = Ret (c2, None, Some (''already tring to join topic '' @ n))"
    if "exec_all api c1 xs = Ret c2" for xs c2
    by (rule exec_all_entry [OF tw(1,2) that]) (simp add: tryJoin_known tw(3) entry_kept_def)
  then have "exec_all api c1 xs = Ret c2 \<Longrightarrow>
       Publish api c2 n d' = Ret (c2, Some (''already tring to join topic '' @ n)) \<and>
       Subscribe api c2 n = Ret (c2, Some (''already tring to join topic '' @ n)) \<and>
       Relay api c2 n = Ret (c2, Some (''already tring to join topic '' @ n))" for xs c2 d'
    by (simp add: Publish_def Subscribe_def Relay_def)
  ultimately show ?thesis by blast
qed

theorem failed_join_wedges_topic_witness:
  "\<exists>c1. Publish (demo_api [''a''] []) (new_ctrl (Some demo_cfg) []) ''a'' [1] = Ret (c1, Some ''join'')
     \<and> Subscribe (demo_api [''a''] []) c1 ''a'' = Ret (c1, Some ''already tring to join topic a'')"
proof -
  let ?c = "new_ctrl (Some demo_cfg) [] :: (string list, string, string, unit) ctrl"
  have "c_view ?c ''a'' = None" "c_cfg_Pubsub ?c = Some demo_cfg" by (simp_all add: new_ctrl_def)
  from failed_join_wedges_topic [OF c_inv_new this, of "demo_api [''a''] []" "[]" "''join''" "[1]"]
  obtain c1 where "Publish (demo_api [''a''] []) ?c ''a'' [1] = Ret (c1, Some ''join'')"
    and p: "exec_all (demo_api [''a''] []) c1 xs = Ret c2 \<Longrightarrow>
      Subscribe (demo_api [''a''] []) c2 ''a'' = Ret (c2, Some ''already tring to join topic a'')" for xs c2
    by (auto simp: demo_api_simps new_ctrl_def simp del: exec_all.simps)
  with p [of "[]" c1] show ?thesis by auto
qed

text \<open>the calls that take a wrapper without a nil check panic.  On a name that no call has
  joined, \<open>Leave\<close>, \<open>Unsubscribe\<close> and \<open>Unrelay\<close> dereference nil; on a joined topic without a
  relay, \<open>Unrelay\<close> calls a nil function.\<close>

theorem unknown_topic_panics:
  "(tm_view (c_topicManager c) n = None \<longrightarrow>
      Leave api c n = Panic NilDeref \<and> Unsubscribe api c n = Panic NilDeref
      \<and> Unrelay api c n = Panic NilDeref)
   \<and> (tm_view (c_topicManager c) n = Some tw \<and> tw_state tw \<noteq> topicStateUnknown
        \<and> tw_relayCancelFn tw = None \<longrightarrow> Unrelay api c n = Panic NilFuncCall)"
  by (auto simp: Leave_def Unsubscribe_def Unrelay_def elim!: view_SomeE)

theorem unknown_topic_panics_witness:
  "Unsubscribe (demo_api [] []) (new_ctrl (Some demo_cfg) []) ''a'' = Panic NilDeref"
proof -
  let ?c = "new_ctrl (Some demo_cfg) [] :: (string list, string, string, unit) ctrl"
  have "c_view ?c ''a'' = None" by (simp add: new_ctrl_def)
  with unknown_topic_panics [of ?c "''a''" "demo_api [] []"] show ?thesis by blast
qed

text \<open>the effective validation config of a joined topic.  A timeout of at least a millisecond
  and a positive concurrency of the topic's section win over those of the pubsub section, which
  win over five seconds and ten; the effective values are always positive.\<close>

theorem effective_validation_config:
  "(let v = val_config pcfg cfg;
        given = (\<lambda>f ok. Option.bind (tc_MsgValidator cfg) (\<lambda>m. if ok (f m) then Some (f m) else None));
        general = (\<lambda>f ok. Option.bind (psc_MsgValidator pcfg) (\<lambda>m. if ok (f m) then Some (f m) else None))
    in mvc_Timeout v = (case given mvc_Timeout (\<lambda>d. 1000000 \<le> d) of Some d \<Rightarrow> d
         | None \<Rightarrow> (case general mvc_Timeout (\<lambda>d. 1000000 \<le> d) of Some d \<Rightarrow> d | None \<Rightarrow> 5 * second))
     \<and> mvc_Concurrency v = (case given mvc_Concurrency (\<lambda>k. 0 < k) of Some k \<Rightarrow> k
         | None \<Rightarrow> (case general mvc_Concurrency (\<lambda>k. 0 < k) of Some k \<Rightarrow> k | None \<Rightarrow> 10))
     \<and> 1000000 \<le> mvc_Timeout v \<and> 0 < mvc_Concurrency v)"
proof -
  have z: "milliseconds 0 = 0" "\<not> 0 < milliseconds 0" by (simp_all add: milliseconds_def)
  have p: "1000000 \<le> d \<Longrightarrow> milliseconds d \<noteq> 0" for d by (simp add: milliseconds_eq_0_iff)
  show ?thesis
    by (auto simp: val_config_def MsgValidationConfig_Defaults_def Let_def z p milliseconds_pos_iff
        second_def split: option.splits if_splits)
qed

end
