(* ===== verification/Msg_Router.thy ===== *)
theory Msg_Router
  imports Go_Prelude "HOL-Library.Multiset"
begin

text \<open>
  The message router of \<open>core/router.go\<close>: a bounded queue, one or more \<open>Start\<close> loops that take
  messages from it, at most \<open>workers\<close> handler goroutines, and \<open>HandleWait\<close> callers that wait for
  the result on a channel of their own.

  The goroutines interleave at their channel operations.  Each operation is a function on the state
  that returns \<open>None\<close> where the goroutine would block; \<open>rt_step\<close> is their union.  A wrapper is
  identified by a number (its address).  Four fields record the run and are not part of the program:
  which wrappers were accepted, which were given to a goroutine, which went through a handler and
  with what result, and the handlers that were ever installed.
\<close>

section \<open>State\<close>

record ('m, 'r) MsgWrapper =
  mw_id :: nat
  mw_Peer :: string
  mw_Msg :: 'm
  mw_Result :: 'r
  mw_callbackC :: bool

text \<open>A \<open>Start\<close> loop waits in its \<open>select\<close>, waits for a worker slot with a message, or has
  returned because of a nil or because its context was done.\<close>

datatype ('m, 'r) start_loop = Idle | Dispatching "('m, 'r) MsgWrapper" | EndedNil | EndedCtx

text \<open>A handler goroutine is about to call the handler, to call back, or to free its slot.\<close>

datatype stage = Running | CallingBack | Releasing

text \<open>A \<open>HandleWait\<close> caller: its message is queued, it waits in the second \<open>select\<close>, it has returned.\<close>

datatype 'r waiter = Sent | Waiting | Got 'r | TimedOut

text \<open>
  The handler reads the message and may overwrite the field \<open>Result\<close>.  It is code of the caller that can
  wait for others, so it is a relation: the message, the field before, the field after.
\<close>

type_synonym ('m, 'r) handler = "'m \<Rightarrow> 'r \<Rightarrow> 'r \<Rightarrow> bool"

text \<open>\<open>RefreshHandler\<close>: blocked on the queue, or in \<open>threadControl.Close\<close>.\<close>

datatype ('m, 'r) refresh = NoRefresh | SendingNil "('m, 'r) handler" | Closing "('m, 'r) handler"


record ('m, 'r) msgRouter =
  rt_qSize :: nat
  rt_workersCap :: nat
  rt_handler :: "('m, 'r) handler"
  rt_q :: "('m, 'r) MsgWrapper option list"
  rt_workers :: nat
  rt_loops :: "('m, 'r) start_loop list"
  rt_tasks :: "(stage \<times> ('m, 'r) MsgWrapper) list"
  rt_waiters :: "nat \<Rightarrow> 'r waiter option"
  rt_refresh :: "('m, 'r) refresh"
  rt_next :: nat
  rt_accepted :: "(nat \<times> 'm) list"
  rt_dispatched :: "(nat \<times> 'm) list"
  rt_handled :: "((nat \<times> 'm) \<times> 'r) list"
  rt_installed :: "('m, 'r) handler list"

definition mw_key :: "('m, 'r) MsgWrapper \<Rightarrow> nat \<times> 'm" where
  "mw_key w = (mw_id w, mw_Msg w)"

definition NewMsgRouter :: "int \<Rightarrow> int \<Rightarrow> ('m, 'r) handler \<Rightarrow> ('m, 'r) msgRouter go" where
  "NewMsgRouter qSize workers handler =
     (if workers < 0 \<or> qSize < 0 then Panic (Explicit ''makechan: size out of range'')
      else Ret \<lparr>rt_qSize = nat qSize, rt_workersCap = nat workers, rt_handler = handler, rt_q = [],
        rt_workers = 0, rt_loops = [], rt_tasks = [], rt_waiters = (\<lambda>_. None), rt_refresh = NoRefresh,
        rt_next = 0, rt_accepted = [], rt_dispatched = [], rt_handled = [], rt_installed = [handler]\<rparr>)"

section \<open>Channel operations\<close>

text \<open>What a \<open>Start\<close> loop does with the value it received.\<close>

definition received :: "('m, 'r) MsgWrapper option \<Rightarrow> ('m, 'r) start_loop" where
  "received x = (case x of None \<Rightarrow> EndedNil | Some w \<Rightarrow> Dispatching w)"

text \<open>
  \<open>r.q <- x\<close>: into the buffer while it has room; with no buffer, to a loop that waits in its
  \<open>select\<close> (\<open>rx\<close> names one that is parked there, if any).
\<close>

definition send_q :: "('m, 'r) msgRouter \<Rightarrow> nat option \<Rightarrow> ('m, 'r) MsgWrapper option
    \<Rightarrow> ('m, 'r) msgRouter option" where
  "send_q s rx x =
     (if length (rt_q s) < rt_qSize s then Some (s\<lparr>rt_q := rt_q s @ [x]\<rparr>)
      else if rt_qSize s = 0 then
        (case rx of
           None \<Rightarrow> None
         | Some i \<Rightarrow> if i < length (rt_loops s) \<and> rt_loops s ! i = Idle
                   then Some (s\<lparr>rt_loops := (rt_loops s)[i := received x]\<rparr>) else None)
      else None)"

section \<open>Operations\<close>

definition Handle :: "('m, 'r) msgRouter \<Rightarrow> 'r \<Rightarrow> nat option \<Rightarrow> string \<Rightarrow> 'm \<Rightarrow> ('m, 'r) msgRouter \<times> err" where
  "Handle s zr rx p msg =
     (let w = \<lparr>mw_id = rt_next s, mw_Peer = p, mw_Msg = msg, mw_Result = zr, mw_callbackC = False\<rparr>;
          s = s\<lparr>rt_next := Suc (rt_next s)\<rparr> in
      case send_q s rx (Some w) of
        Some s' \<Rightarrow> (s'\<lparr>rt_accepted := rt_accepted s' @ [mw_key w]\<rparr>, None)
      | None \<Rightarrow> (s, Some ''router queue is full, dropping msg''))"

text \<open>
  \<open>HandleWait\<close> up to its second \<open>select\<close>; \<open>Inl\<close> is the early return.  \<open>wait_begin\<close> enters the second
  \<open>select\<close>, which ends with the callback (below) or with \<open>wait_timeout\<close>.
\<close>

definition HandleWait :: "('m, 'r) msgRouter \<Rightarrow> 'r \<Rightarrow> nat option \<Rightarrow> string \<Rightarrow> 'm
    \<Rightarrow> ('m, 'r) msgRouter \<times> (string + nat)" where
  "HandleWait s zr rx p msg =
     (let w = \<lparr>mw_id = rt_next s, mw_Peer = p, mw_Msg = msg, mw_Result = zr, mw_callbackC = True\<rparr>;
          s = s\<lparr>rt_next := Suc (rt_next s)\<rparr> in
      case send_q s rx (Some w) of
        Some s' \<Rightarrow> (s'\<lparr>rt_accepted := rt_accepted s' @ [mw_key w],
                     rt_waiters := (rt_waiters s')(mw_id w \<mapsto> Sent)\<rparr>, Inr (mw_id w))
      | None \<Rightarrow> (s, Inl ''router queue is full, dropping msg''))"

definition wait_begin :: "('m, 'r) msgRouter \<Rightarrow> nat \<Rightarrow> ('m, 'r) msgRouter option" where
  "wait_begin s k = (if rt_waiters s k = Some Sent
     then Some (s\<lparr>rt_waiters := (rt_waiters s)(k \<mapsto> Waiting)\<rparr>) else None)"

definition wait_timeout :: "('m, 'r) msgRouter \<Rightarrow> nat \<Rightarrow> ('m, 'r) msgRouter option" where
  "wait_timeout s k = (if rt_waiters s k = Some Waiting
     then Some (s\<lparr>rt_waiters := (rt_waiters s)(k \<mapsto> TimedOut)\<rparr>) else None)"

text \<open>\<open>go r.Start(ctx)\<close>, the reception of its loop, and its return when the context is done.\<close>

definition Start :: "('m, 'r) msgRouter \<Rightarrow> ('m, 'r) msgRouter" where
  "Start s = s\<lparr>rt_loops := rt_loops s @ [Idle]\<rparr>"

definition loop_receive :: "('m, 'r) msgRouter \<Rightarrow> nat \<Rightarrow> ('m, 'r) msgRouter option" where
  "loop_receive s i =
     (if i < length (rt_loops s) \<and> rt_loops s ! i = Idle
      then (case rt_q s of
              [] \<Rightarrow> None
            | x # q \<Rightarrow> Some (s\<lparr>rt_q := q, rt_loops := (rt_loops s)[i := received x]\<rparr>))
      else None)"

definition loop_done :: "('m, 'r) msgRouter \<Rightarrow> nat \<Rightarrow> ('m, 'r) msgRouter option" where
  "loop_done s i =
     (if i < length (rt_loops s) \<and> rt_loops s ! i = Idle
      then Some (s\<lparr>rt_loops := (rt_loops s)[i := EndedCtx]\<rparr>) else None)"

text \<open>\<open>dispatchMsg\<close>: a slot of \<open>workers\<close> first, then a goroutine.\<close>

definition dispatchMsg :: "('m, 'r) msgRouter \<Rightarrow> nat \<Rightarrow> ('m, 'r) msgRouter option" where
  "dispatchMsg s i =
     (if i < length (rt_loops s) then
        (case rt_loops s ! i of
           Dispatching w \<Rightarrow>
             if rt_workers s < rt_workersCap s
             then Some (s\<lparr>rt_workers := Suc (rt_workers s), rt_loops := (rt_loops s)[i := Idle],
                          rt_tasks := rt_tasks s @ [(Running, w)],
                          rt_dispatched := rt_dispatched s @ [mw_key w]\<rparr>)
             else None
         | _ \<Rightarrow> None)
      else None)"

definition run_handler :: "('m, 'r) msgRouter \<Rightarrow> nat \<Rightarrow> 'r \<Rightarrow> ('m, 'r) msgRouter option" where
  "run_handler s j res =
     (if j < length (rt_tasks s) then
        (case rt_tasks s ! j of
           (Running, w) \<Rightarrow>
             if rt_handler s (mw_Msg w) (mw_Result w) res
             then Some (s\<lparr>rt_tasks := (rt_tasks s)[j := (CallingBack, w\<lparr>mw_Result := res\<rparr>)],
                          rt_handled := rt_handled s @ [(mw_key w, res)]\<rparr>)
             else None
         | _ \<Rightarrow> None)
      else None)"

text \<open>\<open>callback\<close>: the channel has no buffer, so the result goes to a caller that waits at this moment or is lost.\<close>

definition callback :: "(nat \<Rightarrow> 'r waiter option) \<Rightarrow> ('m, 'r) MsgWrapper \<Rightarrow> nat \<Rightarrow> 'r waiter option" where
  "callback ws w =
     (if \<not> mw_callbackC w then ws
      else if ws (mw_id w) = Some Waiting then ws(mw_id w \<mapsto> Got (mw_Result w)) else ws)"

definition run_callback :: "('m, 'r) msgRouter \<Rightarrow> nat \<Rightarrow> ('m, 'r) msgRouter option" where
  "run_callback s j =
     (if j < length (rt_tasks s) then
        (case rt_tasks s ! j of
           (CallingBack, w) \<Rightarrow>
             Some (s\<lparr>rt_tasks := (rt_tasks s)[j := (Releasing, w)], rt_waiters := callback (rt_waiters s) w\<rparr>)
         | _ \<Rightarrow> None)
      else None)"

definition run_release :: "('m, 'r) msgRouter \<Rightarrow> nat \<Rightarrow> ('m, 'r) msgRouter option" where
  "run_release s j =
     (if j < length (rt_tasks s) then
        (case rt_tasks s ! j of
           (Releasing, w) \<Rightarrow>
             if 0 < rt_workers s
             then Some (s\<lparr>rt_tasks := take j (rt_tasks s) @ drop (Suc j) (rt_tasks s),
                          rt_workers := rt_workers s - 1\<rparr>)
             else None
         | _ \<Rightarrow> None)
      else None)"

text \<open>\<open>RefreshHandler\<close>: send nil, wait until the goroutines have returned, install the handler.\<close>

definition RefreshHandler :: "('m, 'r) msgRouter \<Rightarrow> ('m, 'r) handler \<Rightarrow> ('m, 'r) msgRouter option" where
  "RefreshHandler s h = (case rt_refresh s of
      NoRefresh \<Rightarrow> Some (s\<lparr>rt_refresh := SendingNil h\<rparr>) | _ \<Rightarrow> None)"

definition refresh_send :: "('m, 'r) msgRouter \<Rightarrow> nat option \<Rightarrow> ('m, 'r) msgRouter option" where
  "refresh_send s rx = (case rt_refresh s of
      SendingNil h \<Rightarrow> map_option (\<lambda>s'. s'\<lparr>rt_refresh := Closing h\<rparr>) (send_q s rx None)
    | _ \<Rightarrow> None)"

definition refresh_finish :: "('m, 'r) msgRouter \<Rightarrow> ('m, 'r) msgRouter option" where
  "refresh_finish s = (case rt_refresh s of
      Closing h \<Rightarrow> if rt_tasks s = [] then Some (s\<lparr>rt_handler := h, rt_refresh := NoRefresh,
          rt_installed := rt_installed s @ [h]\<rparr>) else None
    | _ \<Rightarrow> None)"

inductive rt_step :: "'r \<Rightarrow> ('m, 'r) msgRouter \<Rightarrow> ('m, 'r) msgRouter \<Rightarrow> bool" for zr where
  handle: "rt_step zr s (fst (Handle s zr rx p msg))"
| handle_wait: "rt_step zr s (fst (HandleWait s zr rx p msg))"
| await: "wait_begin s k = Some s' \<Longrightarrow> rt_step zr s s'"
| timeout: "wait_timeout s k = Some s' \<Longrightarrow> rt_step zr s s'"
| start: "rt_step zr s (Start s)"
| receive: "loop_receive s i = Some s' \<Longrightarrow> rt_step zr s s'"
| ctx_done: "loop_done s i = Some s' \<Longrightarrow> rt_step zr s s'"
| dispatch: "dispatchMsg s i = Some s' \<Longrightarrow> rt_step zr s s'"
| handler: "run_handler s j res = Some s' \<Longrightarrow> rt_step zr s s'"
| call_back: "run_callback s j = Some s' \<Longrightarrow> rt_step zr s s'"
| release: "run_release s j = Some s' \<Longrightarrow> rt_step zr s s'"
| refresh: "RefreshHandler s h = Some s' \<Longrightarrow> rt_step zr s s'"
| refresh_nil: "refresh_send s rx = Some s' \<Longrightarrow> rt_step zr s s'"
| refresh_end: "refresh_finish s = Some s' \<Longrightarrow> rt_step zr s s'"

section \<open>Invariants\<close>

text \<open>The keys of the wrappers in the queue, held by a loop, and held by a goroutine before its handler.\<close>

definition q_key :: "('m, 'r) MsgWrapper option \<Rightarrow> (nat \<times> 'm) list" where
  "q_key x = (case x of None \<Rightarrow> [] | Some w \<Rightarrow> [mw_key w])"

definition loop_key :: "('m, 'r) start_loop \<Rightarrow> (nat \<times> 'm) list" where
  "loop_key l = (case l of Dispatching w \<Rightarrow> [mw_key w] | _ \<Rightarrow> [])"

definition task_key :: "stage \<times> ('m, 'r) MsgWrapper \<Rightarrow> (nat \<times> 'm) list" where
  "task_key t = (case t of (Running, w) \<Rightarrow> [mw_key w] | _ \<Rightarrow> [])"

definition q_keys :: "('m, 'r) msgRouter \<Rightarrow> (nat \<times> 'm) list" where
  "q_keys s = concat (map q_key (rt_q s))"

definition loop_keys :: "('m, 'r) msgRouter \<Rightarrow> (nat \<times> 'm) list" where
  "loop_keys s = concat (map loop_key (rt_loops s))"

definition task_keys :: "('m, 'r) msgRouter \<Rightarrow> (nat \<times> 'm) list" where
  "task_keys s = concat (map task_key (rt_tasks s))"

definition rt_bounds :: "('m, 'r) msgRouter \<Rightarrow> bool" where
  "rt_bounds s \<longleftrightarrow> length (rt_q s) \<le> rt_qSize s \<and> rt_workers s = length (rt_tasks s)
     \<and> rt_workers s \<le> rt_workersCap s"

definition rt_conserved :: "('m, 'r) msgRouter \<Rightarrow> bool" where
  "rt_conserved s \<longleftrightarrow>
     mset (rt_accepted s) = mset (q_keys s) + mset (loop_keys s) + mset (rt_dispatched s)
     \<and> mset (rt_dispatched s) = mset (task_keys s) + mset (map fst (rt_handled s))
     \<and> distinct (map fst (rt_accepted s)) \<and> list_all (\<lambda>k. fst k < rt_next s) (rt_accepted s)"

text \<open>Results: before its handler a wrapper has the zero result, after it the recorded one.\<close>

fun task_result_ok :: "'r \<Rightarrow> ((nat \<times> 'm) \<times> 'r) set \<Rightarrow> stage \<times> ('m, 'r) MsgWrapper \<Rightarrow> bool" where
  "task_result_ok zr H (Running, w) = (mw_Result w = zr)"
| "task_result_ok zr H (_, w) = ((mw_key w, mw_Result w) \<in> H)"

definition rt_results :: "'r \<Rightarrow> ('m, 'r) msgRouter \<Rightarrow> bool" where
  "rt_results zr s \<longleftrightarrow>
     (\<forall>w. Some w \<in> set (rt_q s) \<longrightarrow> mw_Result w = zr) \<and>
     (\<forall>w. Dispatching w \<in> set (rt_loops s) \<longrightarrow> mw_Result w = zr) \<and>
     (\<forall>t \<in> set (rt_tasks s). task_result_ok zr (set (rt_handled s)) t) \<and>
     rt_handler s \<in> set (rt_installed s) \<and>
     (\<forall>((k, m), r) \<in> set (rt_handled s). \<exists>h \<in> set (rt_installed s). h m zr r) \<and>
     (\<forall>k r. rt_waiters s k = Some (Got r) \<longrightarrow> (\<exists>m. ((k, m), r) \<in> set (rt_handled s)))"

lemma mset_concat_update:
  assumes "i < length xs"
  shows "mset (concat (map f (xs[i := x]))) + mset (f (xs ! i)) = mset (concat (map f xs)) + mset (f x)"
proof -
  have "xs = take i xs @ xs ! i # drop (Suc i) xs" using assms by (rule id_take_nth_drop)
  moreover have "xs[i := x] = take i xs @ x # drop (Suc i) xs" using assms by (rule upd_conv_take_nth_drop)
  ultimately have "mset (concat (map f xs)) =
      mset (concat (map f (take i xs))) + mset (f (xs ! i)) + mset (concat (map f (drop (Suc i) xs)))"
    "mset (concat (map f (xs[i := x]))) =
      mset (concat (map f (take i xs))) + mset (f x) + mset (concat (map f (drop (Suc i) xs)))"
    by (metis append.assoc concat.simps(2) concat_append list.simps(9) map_append mset_append)+
  then show ?thesis by simp
qed

lemma mset_concat_drop:
  assumes "j < length xs" "f (xs ! j) = []"
  shows "concat (map f (take j xs @ drop (Suc j) xs)) = concat (map f xs)"
  using id_take_nth_drop [OF assms(1)] assms(2)
  by (metis (no_types, lifting) append_Nil concat.simps(2) concat_append list.simps(9) map_append)

lemmas rt_op_defs = Handle_def HandleWait_def send_q_def wait_begin_def wait_timeout_def Start_def
  loop_receive_def loop_done_def dispatchMsg_def run_handler_def run_callback_def run_release_def
  RefreshHandler_def refresh_send_def refresh_finish_def Let_def

text \<open>What the steps of a loop and of a goroutine do when they are enabled.\<close>

lemma loop_receive_SomeE:
  assumes "loop_receive s i = Some s'"
  obtains x q where "i < length (rt_loops s)" "rt_loops s ! i = Idle" "rt_q s = x # q"
    "s' = s\<lparr>rt_q := q, rt_loops := (rt_loops s)[i := received x]\<rparr>"
  using assms by (auto simp: loop_receive_def split: if_splits list.splits)

lemma dispatchMsg_SomeE:
  assumes "dispatchMsg s i = Some s'"
  obtains w where "i < length (rt_loops s)" "rt_loops s ! i = Dispatching w" "rt_workers s < rt_workersCap s"
    "s' = s\<lparr>rt_workers := Suc (rt_workers s), rt_loops := (rt_loops s)[i := Idle],
        rt_tasks := rt_tasks s @ [(Running, w)], rt_dispatched := rt_dispatched s @ [mw_key w]\<rparr>"
  using assms by (auto simp: dispatchMsg_def split: if_splits start_loop.splits)

lemma run_handler_SomeE:
  assumes "run_handler s j r = Some s'"
  obtains w where "j < length (rt_tasks s)" "rt_tasks s ! j = (Running, w)" "(Running, w) \<in> set (rt_tasks s)"
    "rt_handler s (mw_Msg w) (mw_Result w) r"
    "s' = s\<lparr>rt_tasks := (rt_tasks s)[j := (CallingBack, w\<lparr>mw_Result := r\<rparr>)],
       rt_handled := rt_handled s @ [(mw_key w, r)]\<rparr>"
proof -
  from assms obtain w where "j < length (rt_tasks s)" "rt_tasks s ! j = (Running, w)"
    by (auto simp: run_handler_def split: if_splits prod.splits stage.splits)
  with assms that [of w] show thesis by (simp add: run_handler_def split: if_splits) (metis nth_mem)
qed

lemma run_callback_SomeE:
  assumes "run_callback s j = Some s'"
  obtains w where "j < length (rt_tasks s)" "rt_tasks s ! j = (CallingBack, w)" "(CallingBack, w) \<in> set (rt_tasks s)"
    "s' = s\<lparr>rt_tasks := (rt_tasks s)[j := (Releasing, w)], rt_waiters := callback (rt_waiters s) w\<rparr>"
proof -
  from assms obtain w where "j < length (rt_tasks s)" "rt_tasks s ! j = (CallingBack, w)"
    by (auto simp: run_callback_def split: if_splits prod.splits stage.splits)
  with assms that [of w] show thesis by (simp add: run_callback_def) (metis nth_mem)
qed

lemma run_release_SomeE:
  assumes "run_release s j = Some s'"
  obtains w where "j < length (rt_tasks s)" "rt_tasks s ! j = (Releasing, w)"
    "s' = s\<lparr>rt_tasks := take j (rt_tasks s) @ drop (Suc j) (rt_tasks s), rt_workers := rt_workers s - 1\<rparr>"
  using assms by (auto simp: run_release_def split: if_splits prod.splits stage.splits)

lemma refresh_send_SomeE:
  assumes "refresh_send s rx = Some s'"
  obtains s1 h where "rt_refresh s = SendingNil h" "send_q s rx None = Some s1" "s' = s1\<lparr>rt_refresh := Closing h\<rparr>"
  using assms by (auto simp: refresh_send_def split: refresh.splits)

lemma step_bounds:
  assumes "rt_step zr s s'" "rt_bounds s"
  shows "rt_bounds s'" "rt_qSize s' = rt_qSize s" "rt_workersCap s' = rt_workersCap s"
proof -
  have "rt_bounds s' \<and> rt_qSize s' = rt_qSize s \<and> rt_workersCap s' = rt_workersCap s"
    using assms
    by (cases rule: rt_step.cases)
      (auto simp: rt_op_defs rt_bounds_def split: option.splits if_splits list.splits prod.splits
        stage.splits start_loop.splits refresh.splits)
  then show "rt_bounds s'" "rt_qSize s' = rt_qSize s" "rt_workersCap s' = rt_workersCap s" by simp_all
qed

lemmas key_defs = q_keys_def loop_keys_def task_keys_def q_key_def loop_key_def task_key_def mw_key_def

lemma loop_keys_update:
  assumes "i < length (rt_loops s)" "rt_loops s ! i = l"
  shows "mset (concat (map loop_key ((rt_loops s)[i := l']))) + mset (loop_key l) = mset (loop_keys s) + mset (loop_key l')"
  using mset_concat_update [OF assms(1), of loop_key l'] assms(2) by (simp add: loop_keys_def)

lemma received_key: "loop_key (received x) = q_key x"
  by (simp add: received_def loop_key_def q_key_def split: option.splits)

lemma idle_update:
  assumes "i < length (rt_loops s)" "rt_loops s ! i = Idle"
  shows "mset (concat (map loop_key ((rt_loops s)[i := received x]))) = mset (loop_keys s) + mset (q_key x)"
    "mset (concat (map loop_key ((rt_loops s)[i := EndedCtx]))) = mset (loop_keys s)"
  using loop_keys_update [OF assms, of "received x"] loop_keys_update [OF assms, of EndedCtx]
  by (simp_all add: received_key) (simp_all add: loop_key_def)

lemma send_q_keys:
  assumes "send_q s rx x = Some s'"
  shows "mset (q_keys s') + mset (loop_keys s') = mset (q_keys s) + mset (loop_keys s) + mset (q_key x)"
    "rt_accepted s' = rt_accepted s" "rt_dispatched s' = rt_dispatched s" "rt_handled s' = rt_handled s"
    "rt_tasks s' = rt_tasks s" "rt_next s' = rt_next s" "rt_waiters s' = rt_waiters s"
    "rt_handler s' = rt_handler s" "rt_installed s' = rt_installed s"
  using assms idle_update(1) [of _ s x]
  by (auto simp: send_q_def q_keys_def loop_keys_def split: if_splits option.splits)

lemma send_q_next [simp]: "q_keys (s\<lparr>rt_next := n\<rparr>) = q_keys s" "loop_keys (s\<lparr>rt_next := n\<rparr>) = loop_keys s"
  by (simp_all add: q_keys_def loop_keys_def)

lemma enqueue_conserved:
  assumes "rt_conserved s" "send_q (s\<lparr>rt_next := Suc (rt_next s)\<rparr>) rx (Some w) = Some s'" "mw_id w = rt_next s"
  shows "rt_conserved (s'\<lparr>rt_accepted := rt_accepted s' @ [mw_key w]\<rparr>)"
  using assms(1,3) send_q_keys [OF assms(2)]
  by (fastforce simp: rt_conserved_def q_keys_def loop_keys_def task_keys_def q_key_def mw_key_def
      list_all_iff)

text \<open>Both ways in: the message is dropped, or it goes to the queue and the caller may start to wait.\<close>

lemma Handle_cases:
  obtains (dropped) "fst (Handle s zr rx p msg) = s\<lparr>rt_next := Suc (rt_next s)\<rparr>"
  | (queued) w s1 where "mw_id w = rt_next s" "mw_Result w = zr" "mw_Msg w = msg"
      "send_q (s\<lparr>rt_next := Suc (rt_next s)\<rparr>) rx (Some w) = Some s1"
      "fst (Handle s zr rx p msg) = s1\<lparr>rt_accepted := rt_accepted s1 @ [mw_key w], rt_waiters := rt_waiters s1\<rparr>"
proof -
  let ?w = "\<lparr>mw_id = rt_next s, mw_Peer = p, mw_Msg = msg, mw_Result = zr, mw_callbackC = False\<rparr>"
  show thesis
  proof (cases "send_q (s\<lparr>rt_next := Suc (rt_next s)\<rparr>) rx (Some ?w)")
    case None
    then show thesis by (intro dropped) (simp add: Handle_def)
  next
    case (Some s1)
    then show thesis by (intro queued [of ?w s1]) (simp_all add: Handle_def)
  qed
qed

lemma HandleWait_cases:
  obtains (dropped) "fst (HandleWait s zr rx p msg) = s\<lparr>rt_next := Suc (rt_next s)\<rparr>"
  | (queued) w s1 where "mw_id w = rt_next s" "mw_Result w = zr" "mw_Msg w = msg"
      "send_q (s\<lparr>rt_next := Suc (rt_next s)\<rparr>) rx (Some w) = Some s1"
      "fst (HandleWait s zr rx p msg) = s1\<lparr>rt_accepted := rt_accepted s1 @ [mw_key w],
         rt_waiters := (rt_waiters s1)(mw_id w \<mapsto> Sent)\<rparr>"
proof -
  let ?w = "\<lparr>mw_id = rt_next s, mw_Peer = p, mw_Msg = msg, mw_Result = zr, mw_callbackC = True\<rparr>"
  show thesis
  proof (cases "send_q (s\<lparr>rt_next := Suc (rt_next s)\<rparr>) rx (Some ?w)")
    case None
    then show thesis by (intro dropped) (simp add: HandleWait_def)
  next
    case (Some s1)
    then show thesis by (intro queued [of ?w s1]) (simp_all add: HandleWait_def)
  qed
qed

lemma waiters_conserved [simp]: "rt_conserved (s\<lparr>rt_waiters := ws\<rparr>) = rt_conserved s"
  by (simp add: rt_conserved_def q_keys_def loop_keys_def task_keys_def)

lemma next_conserved: "rt_conserved s \<Longrightarrow> rt_conserved (s\<lparr>rt_next := Suc (rt_next s)\<rparr>)"
  by (auto simp: rt_conserved_def task_keys_def list_all_iff)

lemma step_conserved:
  assumes "rt_step zr s s'" "rt_conserved s"
  shows "rt_conserved s'"
  using assms
proof (cases rule: rt_step.cases)
  case (handle rx p msg)
  show ?thesis
    by (rule Handle_cases [of s zr rx p msg])
      (use handle enqueue_conserved [OF assms(2)] next_conserved [OF assms(2)] in simp_all)
next
  case (handle_wait rx p msg)
  show ?thesis
    by (rule HandleWait_cases [of s zr rx p msg])
      (use handle_wait enqueue_conserved [OF assms(2)] next_conserved [OF assms(2)] in simp_all)
next
  case (receive i)
  then obtain x q where x: "i < length (rt_loops s)" "rt_loops s ! i = Idle" "rt_q s = x # q"
    "s' = s\<lparr>rt_q := q, rt_loops := (rt_loops s)[i := received x]\<rparr>" by (elim loop_receive_SomeE)
  with assms(2) idle_update(1) [OF x(1,2)] show ?thesis
    by (simp add: rt_conserved_def q_keys_def task_keys_def loop_keys_def)
next
  case (ctx_done i)
  then show ?thesis using assms(2) idle_update(2) [of i s]
    by (auto simp: loop_done_def rt_conserved_def q_keys_def task_keys_def loop_keys_def split: if_splits)
next
  case (dispatch i)
  then obtain w where w: "i < length (rt_loops s)" "rt_loops s ! i = Dispatching w"
    "s' = s\<lparr>rt_workers := Suc (rt_workers s), rt_loops := (rt_loops s)[i := Idle],
        rt_tasks := rt_tasks s @ [(Running, w)], rt_dispatched := rt_dispatched s @ [mw_key w]\<rparr>" by (elim dispatchMsg_SomeE)
  with loop_keys_update [OF w(1,2), of Idle] assms(2) show ?thesis
    by (auto simp: rt_conserved_def q_keys_def task_keys_def loop_keys_def loop_key_def task_key_def)
next
  case (handler j r)
  then obtain w where w: "j < length (rt_tasks s)" "rt_tasks s ! j = (Running, w)"
    "s' = s\<lparr>rt_tasks := (rt_tasks s)[j := (CallingBack, w\<lparr>mw_Result := r\<rparr>)],
       rt_handled := rt_handled s @ [(mw_key w, r)]\<rparr>" by (elim run_handler_SomeE)
  with mset_concat_update [OF w(1), of task_key "(CallingBack, w\<lparr>mw_Result := r\<rparr>)"] assms(2) show ?thesis
    by (auto simp: rt_conserved_def q_keys_def task_keys_def loop_keys_def task_key_def)
next
  case (call_back j)
  then obtain w where w: "j < length (rt_tasks s)" "rt_tasks s ! j = (CallingBack, w)"
    "s' = s\<lparr>rt_tasks := (rt_tasks s)[j := (Releasing, w)], rt_waiters := callback (rt_waiters s) w\<rparr>" by (elim run_callback_SomeE)
  with mset_concat_update [OF w(1), of task_key "(Releasing, w)"] assms(2) show ?thesis
    by (auto simp: rt_conserved_def q_keys_def task_keys_def loop_keys_def task_key_def)
next
  case (release j)
  then obtain w where w: "j < length (rt_tasks s)" "rt_tasks s ! j = (Releasing, w)"
    "s' = s\<lparr>rt_tasks := take j (rt_tasks s) @ drop (Suc j) (rt_tasks s), rt_workers := rt_workers s - 1\<rparr>" by (elim run_release_SomeE)
  with mset_concat_drop [OF w(1), of task_key] assms(2) show ?thesis
    by (simp add: rt_conserved_def q_keys_def task_keys_def loop_keys_def task_key_def)
next
  case (refresh_nil rx)
  then obtain s1 h where "send_q s rx None = Some s1" "s' = s1\<lparr>rt_refresh := Closing h\<rparr>" by (elim refresh_send_SomeE)
  with send_q_keys assms(2) show ?thesis
    by (fastforce simp: rt_conserved_def q_keys_def task_keys_def loop_keys_def q_key_def)
qed (auto simp: rt_op_defs rt_conserved_def q_keys_def task_keys_def loop_keys_def loop_key_def
      split: if_splits refresh.splits)

lemma set_update_cases: "x \<in> set (xs[i := y]) \<Longrightarrow> x = y \<or> x \<in> set xs"
  using set_update_subset_insert [of xs i y] by auto

lemma set_take_drop: "x \<in> set (take j xs @ drop (Suc j) xs) \<Longrightarrow> x \<in> set xs"
  using set_take_subset [of j xs] set_drop_subset [of "Suc j" xs] by auto

lemma send_q_sets:
  assumes "send_q s rx x = Some s'"
  shows "set (rt_q s') \<subseteq> insert x (set (rt_q s))" "set (rt_loops s') \<subseteq> insert (received x) (set (rt_loops s))"
  using assms by (auto simp: send_q_def dest!: set_update_cases split: if_splits option.splits)

lemma task_result_mono: "H \<subseteq> H' \<Longrightarrow> task_result_ok zr H t \<Longrightarrow> task_result_ok zr H' t"
  by (cases "(zr, H, t)" rule: task_result_ok.cases) auto

lemma submit_results:
  assumes "rt_results zr s" "send_q (s\<lparr>rt_next := n\<rparr>) rx (Some w) = Some s1" "mw_Result w = zr"
    "\<forall>k r. ws k = Some (Got r) \<longrightarrow> rt_waiters s k = Some (Got r)"
  shows "rt_results zr (s1\<lparr>rt_accepted := a, rt_waiters := ws\<rparr>)"
proof -
  have q: "Some v \<in> set (rt_q s1) \<Longrightarrow> mw_Result v = zr"
    "Dispatching v \<in> set (rt_loops s1) \<Longrightarrow> mw_Result v = zr" for v
    using send_q_sets [OF assms(2)] assms(1,3) by (auto simp: rt_results_def received_def)
  show ?thesis
    using q assms(1,4) send_q_keys [OF assms(2)] by (simp add: rt_results_def)
qed

lemma step_results:
  assumes "rt_step zr s s'" "rt_results zr s"
  shows "rt_results zr s'"
  using assms
proof (cases rule: rt_step.cases)
  case (handle rx p msg)
  show ?thesis
  proof (cases rule: Handle_cases [of s zr rx p msg])
    case dropped
    with handle assms(2) show ?thesis
      by (simp add: rt_results_def)
  next
    case (queued w s1)
    with handle submit_results [OF assms(2) queued(4), of "rt_waiters s1"] send_q_keys [OF queued(4)]
    show ?thesis by auto
  qed
next
  case (handle_wait rx p msg)
  show ?thesis
  proof (cases rule: HandleWait_cases [of s zr rx p msg])
    case dropped
    with handle_wait assms(2) show ?thesis
      by (simp add: rt_results_def)
  next
    case (queued w s1)
    with handle_wait submit_results [OF assms(2) queued(4), of "(rt_waiters s1)(mw_id w \<mapsto> Sent)"]
      send_q_keys [OF queued(4)]
    show ?thesis by auto
  qed
next
  case (receive i)
  then obtain x q where "rt_q s = x # q" "s' = s\<lparr>rt_q := q, rt_loops := (rt_loops s)[i := received x]\<rparr>"
    by (elim loop_receive_SomeE)
  with assms(2) show ?thesis
    by (auto simp: rt_results_def received_def dest!: set_update_cases split: option.splits)
next
  case (dispatch i)
  then obtain w where w: "i < length (rt_loops s)" "rt_loops s ! i = Dispatching w"
    "s' = s\<lparr>rt_workers := Suc (rt_workers s), rt_loops := (rt_loops s)[i := Idle],
        rt_tasks := rt_tasks s @ [(Running, w)], rt_dispatched := rt_dispatched s @ [mw_key w]\<rparr>"
    by (elim dispatchMsg_SomeE)
  then have "Dispatching w \<in> set (rt_loops s)" by (metis nth_mem)
  with w(3) assms(2) show ?thesis by (auto simp: rt_results_def dest!: set_update_cases)
next
  case (release j)
  then have w: "s' = s\<lparr>rt_tasks := take j (rt_tasks s) @ drop (Suc j) (rt_tasks s),
     rt_workers := rt_workers s - 1\<rparr>" by (elim run_release_SomeE)
  then have e: "rt_tasks s' = take j (rt_tasks s) @ drop (Suc j) (rt_tasks s)" by simp
  have "t \<in> set (rt_tasks s)" if "t \<in> set (rt_tasks s')" for t
    using that set_take_drop [of t j "rt_tasks s"] unfolding e by blast
  with w assms(2) show ?thesis unfolding rt_results_def by simp
next
  case (handler j r)
  then obtain w where w: "(Running, w) \<in> set (rt_tasks s)" "rt_handler s (mw_Msg w) (mw_Result w) r"
    "s' = s\<lparr>rt_tasks := (rt_tasks s)[j := (CallingBack, w\<lparr>mw_Result := r\<rparr>)],
       rt_handled := rt_handled s @ [(mw_key w, r)]\<rparr>" by (elim run_handler_SomeE)
  have "mw_Result w = zr" using w(1) assms(2) by (fastforce simp: rt_results_def)
  with w assms(2) show ?thesis
    by (auto simp: rt_results_def mw_key_def dest!: set_update_cases
        intro: task_result_mono [of "set (rt_handled s)"]) blast
next
  case (call_back j)
  then obtain w where w: "(CallingBack, w) \<in> set (rt_tasks s)"
    "s' = s\<lparr>rt_tasks := (rt_tasks s)[j := (Releasing, w)], rt_waiters := callback (rt_waiters s) w\<rparr>"
    by (elim run_callback_SomeE)
  have h: "(mw_key w, mw_Result w) \<in> set (rt_handled s)" using w(1) assms(2) by (fastforce simp: rt_results_def)
  have cb: "callback (rt_waiters s) w k = Some (Got r) \<Longrightarrow>
      rt_waiters s k = Some (Got r) \<or> k = mw_id w \<and> r = mw_Result w" for k r
    by (auto simp: callback_def split: if_splits)
  with w assms(2) h show ?thesis
    by (auto simp: rt_results_def mw_key_def dest!: set_update_cases cb)
next
  case (refresh_nil rx)
  then obtain s1 h where "send_q s rx None = Some s1" "s' = s1\<lparr>rt_refresh := Closing h\<rparr>"
    by (elim refresh_send_SomeE)
  with send_q_sets send_q_keys assms(2) show ?thesis
    by (fastforce simp: rt_results_def received_def)
next
  case (start)
  with assms(2) show ?thesis by (auto simp: Start_def rt_results_def)
next
  case (ctx_done i)
  with assms(2) show ?thesis
    by (auto simp: loop_done_def rt_results_def dest!: set_update_cases split: if_splits)
next
  case (refresh_end)
  with assms(2) show ?thesis
    by (fastforce simp: refresh_finish_def rt_results_def split: refresh.splits if_splits)
qed (auto simp: wait_begin_def wait_timeout_def RefreshHandler_def rt_results_def
      split: if_splits refresh.splits)

section \<open>Order and loops\<close>

text \<open>With one loop the order is kept: what was dispatched, then the message at hand, then the queue.\<close>

definition rt_fifo :: "('m, 'r) msgRouter \<Rightarrow> bool" where
  "rt_fifo s \<longleftrightarrow> length (rt_loops s) \<le> 1 \<longrightarrow> rt_accepted s = rt_dispatched s @ loop_keys s @ q_keys s"

lemma one_loop: "length xs \<le> 1 \<Longrightarrow> i < length xs \<Longrightarrow> \<exists>x. xs = [x] \<and> i = 0"
  by (cases xs) auto

lemma send_q_fifo:
  assumes "send_q s rx x = Some s'" "length (rt_loops s) \<le> 1" "rt_bounds s"
  shows "loop_keys s' @ q_keys s' = loop_keys s @ q_keys s @ q_key x" "length (rt_loops s') = length (rt_loops s)"
proof -
  have "loop_keys s' @ q_keys s' = loop_keys s @ q_keys s @ q_key x \<and> length (rt_loops s') = length (rt_loops s)"
  proof (cases "length (rt_q s) < rt_qSize s")
    case True
    with assms(1) show ?thesis by (auto simp: send_q_def q_keys_def loop_keys_def)
  next
    case False
    with assms obtain i where "i < length (rt_loops s)" "rt_loops s ! i = Idle" "rt_q s = []"
      "s' = s\<lparr>rt_loops := (rt_loops s)[i := received x]\<rparr>"
      by (auto simp: send_q_def rt_bounds_def split: if_splits option.splits)
    moreover obtain l where "rt_loops s = [l]" "i = 0" using one_loop [OF assms(2)] calculation(1) by blast
    ultimately show ?thesis by (simp add: q_keys_def loop_keys_def received_key) (simp add: loop_key_def)
  qed
  then show "loop_keys s' @ q_keys s' = loop_keys s @ q_keys s @ q_key x"
    "length (rt_loops s') = length (rt_loops s)" by simp_all
qed

lemma step_fifo:
  assumes "rt_step zr s s'" "rt_fifo s" "rt_bounds s"
  shows "rt_fifo s'"
proof (cases "length (rt_loops s') \<le> 1")
  case True
  have le: "length (rt_loops s) \<le> length (rt_loops s')"
    using assms(1) by (cases rule: rt_step.cases)
      (auto simp: rt_op_defs split: option.splits if_splits list.splits prod.splits stage.splits
        start_loop.splits refresh.splits)
  then have one: "length (rt_loops s) \<le> 1" using True by simp
  with assms(2) have eq: "rt_accepted s = rt_dispatched s @ loop_keys s @ q_keys s" by (simp add: rt_fifo_def)
  have sub: "rt_accepted s1 @ [mw_key w] = rt_dispatched s1 @ loop_keys s1 @ q_keys s1"
    if "send_q (s\<lparr>rt_next := n\<rparr>) rx (Some w) = Some s1" for n rx w s1
    using send_q_fifo [OF that] send_q_keys [OF that] one eq assms(3)
    by (simp add: rt_bounds_def q_key_def)
  show ?thesis
    using assms(1)
  proof (cases rule: rt_step.cases)
    case (handle rx p msg)
    then show ?thesis
      by (cases rule: Handle_cases [of s zr rx p msg]) (use eq sub in \<open>auto simp: rt_fifo_def q_keys_def loop_keys_def\<close>)
  next
    case (handle_wait rx p msg)
    then show ?thesis
      by (cases rule: HandleWait_cases [of s zr rx p msg]) (use eq sub in \<open>auto simp: rt_fifo_def q_keys_def loop_keys_def\<close>)
  next
    case (receive i)
    then obtain x q where x: "i < length (rt_loops s)" "rt_loops s ! i = Idle" "rt_q s = x # q"
      "s' = s\<lparr>rt_q := q, rt_loops := (rt_loops s)[i := received x]\<rparr>" by (elim loop_receive_SomeE)
    moreover obtain l where "rt_loops s = [l]" "i = 0" using one_loop [OF one x(1)] by blast
    ultimately show ?thesis using eq
      by (simp add: rt_fifo_def q_keys_def loop_keys_def received_key) (simp add: loop_key_def)
  next
    case (dispatch i)
    then obtain w where x: "i < length (rt_loops s)" "rt_loops s ! i = Dispatching w"
      "s' = s\<lparr>rt_workers := Suc (rt_workers s), rt_loops := (rt_loops s)[i := Idle],
        rt_tasks := rt_tasks s @ [(Running, w)], rt_dispatched := rt_dispatched s @ [mw_key w]\<rparr>"
      by (elim dispatchMsg_SomeE)
    moreover obtain l where "rt_loops s = [l]" "i = 0" using one_loop [OF one x(1)] by blast
    ultimately show ?thesis using eq by (simp add: rt_fifo_def q_keys_def loop_keys_def loop_key_def)
  next
    case (ctx_done i)
    then have x: "i < length (rt_loops s)" "rt_loops s ! i = Idle" "s' = s\<lparr>rt_loops := (rt_loops s)[i := EndedCtx]\<rparr>"
      by (auto simp: loop_done_def split: if_splits)
    moreover obtain l where "rt_loops s = [l]" "i = 0" using one_loop [OF one x(1)] by blast
    ultimately show ?thesis using eq by (simp add: rt_fifo_def q_keys_def loop_keys_def loop_key_def)
  next
    case (refresh_nil rx)
    then obtain s1 h where x: "send_q s rx None = Some s1" "s' = s1\<lparr>rt_refresh := Closing h\<rparr>"
      by (elim refresh_send_SomeE)
    have "loop_keys s1 @ q_keys s1 = loop_keys s @ q_keys s" using send_q_fifo(1) [OF x(1) one assms(3)] by (simp add: q_key_def)
    with x send_q_keys [OF x(1)] eq show ?thesis by (simp add: rt_fifo_def q_keys_def loop_keys_def)
  next
    case start
    with eq show ?thesis by (simp add: rt_fifo_def q_keys_def loop_keys_def Start_def loop_key_def)
  qed (use eq in \<open>auto simp: rt_op_defs rt_fifo_def q_keys_def loop_keys_def
      split: if_splits prod.splits stage.splits refresh.splits\<close>)
qed (simp add: rt_fifo_def)

text \<open>Every nil that was sent is still queued or has ended one loop.\<close>

definition count_nil :: "('m, 'r) MsgWrapper option list \<Rightarrow> nat" where
  "count_nil q = length (filter (\<lambda>x. x = None) q)"

definition nils_sent :: "('m, 'r) msgRouter \<Rightarrow> nat" where
  "nils_sent s = (length (rt_installed s) - 1) + (case rt_refresh s of Closing _ \<Rightarrow> 1 | _ \<Rightarrow> 0)"

definition rt_loops_ok :: "('m, 'r) msgRouter \<Rightarrow> bool" where
  "rt_loops_ok s \<longleftrightarrow> rt_installed s \<noteq> [] \<and>
     count_list (rt_loops s) EndedNil + count_nil (rt_q s) = nils_sent s"

lemma count_list_update:
  assumes "i < length xs" "xs ! i \<noteq> z"
  shows "count_list (xs[i := y]) z = count_list xs z + (if y = z then 1 else 0)"
proof -
  have "count_list xs z = count_list (take i xs @ xs ! i # drop (Suc i) xs) z"
    using id_take_nth_drop [OF assms(1)] by simp
  moreover have "count_list (xs[i := y]) z = count_list (take i xs @ y # drop (Suc i) xs) z"
    using upd_conv_take_nth_drop [OF assms(1)] by simp
  ultimately show ?thesis using assms(2) by simp
qed

lemma received_EndedNil [simp]: "received x = EndedNil \<longleftrightarrow> x = None"
  by (simp add: received_def split: option.splits)

lemma send_q_nils:
  assumes "send_q s rx x = Some s'"
  shows "count_list (rt_loops s') EndedNil + count_nil (rt_q s') =
     count_list (rt_loops s) EndedNil + count_nil (rt_q s) + (if x = None then 1 else 0)"
    "rt_refresh s' = rt_refresh s"
  using assms by (auto simp: send_q_def count_nil_def count_list_update split: if_splits option.splits)

lemma submit_loops:
  assumes "rt_loops_ok s" "send_q (s\<lparr>rt_next := n\<rparr>) rx (Some w) = Some s1"
  shows "rt_loops_ok (s1\<lparr>rt_accepted := a, rt_waiters := ws\<rparr>)"
  using assms(1) send_q_nils [OF assms(2)] send_q_keys(9) [OF assms(2)] by (simp add: rt_loops_ok_def nils_sent_def)

lemma step_loops:
  assumes "rt_step zr s s'" "rt_loops_ok s"
  shows "rt_loops_ok s'"
  using assms(1)
proof (cases rule: rt_step.cases)
  case (handle rx p msg)
  show ?thesis
  proof (cases rule: Handle_cases [of s zr rx p msg])
    case (queued w s1)
    with handle submit_loops [OF assms(2) queued(4), where ws = "rt_waiters s1"] show ?thesis by simp
  qed (use handle assms(2) in \<open>simp add: rt_loops_ok_def nils_sent_def\<close>)
next
  case (handle_wait rx p msg)
  show ?thesis
  proof (cases rule: HandleWait_cases [of s zr rx p msg])
    case (queued w s1)
    with handle_wait submit_loops [OF assms(2) queued(4)] show ?thesis by simp
  qed (use handle_wait assms(2) in \<open>simp add: rt_loops_ok_def nils_sent_def\<close>)
next
  case (receive i)
  then obtain x q where x: "i < length (rt_loops s)" "rt_loops s ! i = Idle" "rt_q s = x # q"
    "s' = s\<lparr>rt_q := q, rt_loops := (rt_loops s)[i := received x]\<rparr>" by (elim loop_receive_SomeE)
  with assms(2) show ?thesis
    by (auto simp: rt_loops_ok_def nils_sent_def count_nil_def count_list_update)
next
  case (dispatch i)
  then obtain w where "i < length (rt_loops s)" "rt_loops s ! i = Dispatching w"
    "s' = s\<lparr>rt_workers := Suc (rt_workers s), rt_loops := (rt_loops s)[i := Idle],
        rt_tasks := rt_tasks s @ [(Running, w)], rt_dispatched := rt_dispatched s @ [mw_key w]\<rparr>"
    by (elim dispatchMsg_SomeE)
  with assms(2) show ?thesis by (simp add: rt_loops_ok_def nils_sent_def count_list_update)
next
  case (refresh_nil rx)
  then obtain s1 h where x: "rt_refresh s = SendingNil h" "send_q s rx None = Some s1"
    "s' = s1\<lparr>rt_refresh := Closing h\<rparr>" by (elim refresh_send_SomeE)
  with assms(2) send_q_nils [OF x(2)] send_q_keys(9) [OF x(2)] show ?thesis
    by (simp add: rt_loops_ok_def nils_sent_def)
next
  case refresh_end
  with assms(2) show ?thesis
    by (cases "rt_installed s") (auto simp: refresh_finish_def rt_loops_ok_def nils_sent_def
        split: refresh.splits if_splits)
qed (use assms(2) in \<open>auto simp: rt_op_defs rt_loops_ok_def nils_sent_def count_list_update
      split: if_splits prod.splits stage.splits refresh.splits\<close>)

lemma keys_distinct:
  assumes "rt_conserved s"
  shows "distinct (map fst (q_keys s @ loop_keys s @ task_keys s) @ map (fst \<circ> fst) (rt_handled s))"
proof -
  let ?ks = "q_keys s @ loop_keys s @ task_keys s @ map fst (rt_handled s)"
  have "mset ?ks = mset (rt_accepted s)" using assms by (simp add: rt_conserved_def ac_simps)
  then have "mset (map fst ?ks) = mset (map fst (rt_accepted s))" by (metis mset_map)
  then have "distinct (map fst ?ks)" using assms mset_eq_imp_distinct_iff by (metis rt_conserved_def)
  then show ?thesis by (simp add: comp_def)
qed

text \<open>No two goroutines work on the same message.\<close>

definition rt_unique :: "('m, 'r) msgRouter \<Rightarrow> bool" where
  "rt_unique s \<longleftrightarrow> distinct (map (mw_id \<circ> snd) (rt_tasks s))"

lemma task_ids:
  assumes "rt_results zr s" "t \<in> set (rt_tasks s)"
  shows "mw_id (snd t) \<in> fst ` set (task_keys s) \<union> (fst \<circ> fst) ` set (rt_handled s)"
proof -
  have "task_result_ok zr (set (rt_handled s)) t" using assms by (auto simp: rt_results_def)
  moreover obtain st w where "t = (st, w)" by fastforce
  ultimately show ?thesis using assms(2)
    by (cases st) (force simp: task_keys_def task_key_def mw_key_def)+
qed

lemma map_update_same: "j < length xs \<Longrightarrow> f y = f (xs ! j) \<Longrightarrow> map f (xs[j := y]) = map f xs"
  by (simp add: map_update list_update_same_conv)

lemma distinct_drop_nth: "distinct (map f xs) \<Longrightarrow> distinct (map f (take j xs @ drop (Suc j) xs))"
proof (induction xs arbitrary: j)
  case (Cons x xs)
  then show ?case
    by (cases j) (auto dest: in_set_takeD in_set_dropD)
qed simp

lemma step_unique:
  assumes "rt_step zr s s'" "rt_unique s" "rt_conserved s" "rt_results zr s"
  shows "rt_unique s'"
  using assms(1)
proof (cases rule: rt_step.cases)
  case (handle rx p msg)
  show ?thesis
  proof (cases rule: Handle_cases [of s zr rx p msg])
    case (queued w s1)
    with handle assms(2) send_q_keys [OF queued(4)] show ?thesis by (simp add: rt_unique_def)
  qed (use handle assms(2) in \<open>simp add: rt_unique_def\<close>)
next
  case (handle_wait rx p msg)
  show ?thesis
  proof (cases rule: HandleWait_cases [of s zr rx p msg])
    case (queued w s1)
    with handle_wait assms(2) send_q_keys [OF queued(4)] show ?thesis by (simp add: rt_unique_def)
  qed (use handle_wait assms(2) in \<open>simp add: rt_unique_def\<close>)
next
  case (dispatch i)
  then obtain w where w: "i < length (rt_loops s)" "rt_loops s ! i = Dispatching w"
    "s' = s\<lparr>rt_workers := Suc (rt_workers s), rt_loops := (rt_loops s)[i := Idle],
        rt_tasks := rt_tasks s @ [(Running, w)], rt_dispatched := rt_dispatched s @ [mw_key w]\<rparr>"
    by (elim dispatchMsg_SomeE)
  have "Dispatching w \<in> set (rt_loops s)" using w(1,2) by (metis nth_mem)
  then have "mw_id w \<in> fst ` set (loop_keys s)" by (force simp: loop_keys_def loop_key_def mw_key_def)
  then have "mw_id w \<notin> fst ` set (task_keys s) \<union> (fst \<circ> fst) ` set (rt_handled s)"
    using keys_distinct [OF assms(3)] by auto
  then have "mw_id w \<notin> (mw_id \<circ> snd) ` set (rt_tasks s)" using task_ids [OF assms(4)] by force
  with w(3) assms(2) show ?thesis by (simp add: rt_unique_def)
next
  case (handler j r)
  then obtain w where "j < length (rt_tasks s)" "rt_tasks s ! j = (Running, w)"
    "s' = s\<lparr>rt_tasks := (rt_tasks s)[j := (CallingBack, w\<lparr>mw_Result := r\<rparr>)],
       rt_handled := rt_handled s @ [(mw_key w, r)]\<rparr>" by (elim run_handler_SomeE)
  with assms(2) show ?thesis by (simp add: rt_unique_def map_update_same)
next
  case (call_back j)
  then obtain w where "j < length (rt_tasks s)" "rt_tasks s ! j = (CallingBack, w)"
    "s' = s\<lparr>rt_tasks := (rt_tasks s)[j := (Releasing, w)], rt_waiters := callback (rt_waiters s) w\<rparr>"
    by (elim run_callback_SomeE)
  with assms(2) show ?thesis by (simp add: rt_unique_def map_update_same)
next
  case (release j)
  then have "s' = s\<lparr>rt_tasks := take j (rt_tasks s) @ drop (Suc j) (rt_tasks s),
     rt_workers := rt_workers s - 1\<rparr>" by (elim run_release_SomeE)
  with distinct_drop_nth [of "mw_id \<circ> snd" "rt_tasks s" j] assms(2) show ?thesis
    unfolding rt_unique_def by simp
next
  case (refresh_nil rx)
  then obtain s1 h where x: "send_q s rx None = Some s1" "s' = s1\<lparr>rt_refresh := Closing h\<rparr>"
    by (elim refresh_send_SomeE)
  with assms(2) send_q_keys [OF x(1)] show ?thesis by (simp add: rt_unique_def)
qed (use assms(2) in \<open>auto simp: rt_op_defs rt_unique_def split: if_splits list.splits refresh.splits\<close>)

text \<open>All invariants of a router that was created and then ran in any way.\<close>

lemma reachable_inv:
  assumes "NewMsgRouter qSize workers h = Ret s0" "(rt_step zr)\<^sup>*\<^sup>* s0 s"
  shows "rt_bounds s" "rt_conserved s" "rt_results zr s" "rt_fifo s" "rt_loops_ok s"
    "rt_qSize s = nat qSize" "rt_workersCap s = nat workers" "0 \<le> qSize" "0 \<le> workers" "rt_unique s"
proof -
  have init: "rt_bounds s0 \<and> rt_conserved s0 \<and> rt_results zr s0 \<and> rt_fifo s0 \<and> rt_loops_ok s0
    \<and> rt_qSize s0 = nat qSize \<and> rt_workersCap s0 = nat workers \<and> 0 \<le> qSize \<and> 0 \<le> workers \<and> rt_unique s0"
    using assms(1)
    by (auto simp: NewMsgRouter_def rt_bounds_def rt_conserved_def rt_results_def rt_fifo_def rt_loops_ok_def
        nils_sent_def count_nil_def rt_unique_def q_keys_def loop_keys_def task_keys_def split: if_splits)
  from assms(2) have "rt_bounds s \<and> rt_conserved s \<and> rt_results zr s \<and> rt_fifo s \<and> rt_loops_ok s
    \<and> rt_qSize s = nat qSize \<and> rt_workersCap s = nat workers \<and> rt_unique s"
  proof (induction rule: rtranclp_induct)
    case (step a b)
    then show ?case
      using step_bounds step_conserved step_results step_fifo step_loops step_unique by metis
  qed (use init in blast)
  with init show "rt_bounds s" "rt_conserved s" "rt_results zr s" "rt_fifo s" "rt_loops_ok s"
    "rt_qSize s = nat qSize" "rt_workersCap s = nat workers" "0 \<le> qSize" "0 \<le> workers" "rt_unique s" by simp_all
qed

text \<open>A caller whose result is gone: its message was handled and no goroutine will call back for it.\<close>

definition lost :: "nat \<Rightarrow> ('m, 'r) msgRouter \<Rightarrow> bool" where
  "lost k s \<longleftrightarrow> k \<in> (fst \<circ> fst) ` set (rt_handled s) \<and> (\<forall>w. (CallingBack, w) \<in> set (rt_tasks s) \<longrightarrow> mw_id w \<noteq> k)
     \<and> (\<forall>r. rt_waiters s k \<noteq> Some (Got r))"

lemma handled_old:
  assumes "rt_conserved s" "k \<in> (fst \<circ> fst) ` set (rt_handled s)"
  shows "k < rt_next s"
proof -
  have "mset (rt_accepted s) = mset (q_keys s @ loop_keys s @ task_keys s @ map fst (rt_handled s))"
    using assms(1) by (simp add: rt_conserved_def ac_simps)
  then have "set (rt_accepted s) = set (q_keys s @ loop_keys s @ task_keys s @ map fst (rt_handled s))"
    by (rule mset_eq_setD)
  with assms show ?thesis by (auto simp: rt_conserved_def list_all_iff)
qed

lemma step_lost:
  assumes "rt_step zr s s'" "lost k s" "rt_conserved s"
  shows "lost k s'"
  using assms(1)
proof (cases rule: rt_step.cases)
  case (handle rx p msg)
  show ?thesis
  proof (cases rule: Handle_cases [of s zr rx p msg])
    case (queued w s1)
    with handle assms(2) send_q_keys [OF queued(4)] show ?thesis by (simp add: lost_def)
  qed (use handle assms(2) in \<open>simp add: lost_def\<close>)
next
  case (handle_wait rx p msg)
  show ?thesis
  proof (cases rule: HandleWait_cases [of s zr rx p msg])
    case (queued w s1)
    with handle_wait assms(2) send_q_keys [OF queued(4)] show ?thesis by (simp add: lost_def)
  qed (use handle_wait assms(2) in \<open>simp add: lost_def\<close>)
next
  case (handler j r)
  then obtain w where w: "(Running, w) \<in> set (rt_tasks s)"
    "s' = s\<lparr>rt_tasks := (rt_tasks s)[j := (CallingBack, w\<lparr>mw_Result := r\<rparr>)],
       rt_handled := rt_handled s @ [(mw_key w, r)]\<rparr>" by (elim run_handler_SomeE)
  have "mw_id w \<in> fst ` set (task_keys s)"
    using w(1) by (force simp: task_keys_def task_key_def mw_key_def)
  then have "mw_id w \<noteq> k" using keys_distinct [OF assms(3)] assms(2) by (auto simp: lost_def)
  with w(2) assms(2) show ?thesis by (auto simp: lost_def dest!: set_update_cases)
next
  case (call_back j)
  then obtain w where w: "(CallingBack, w) \<in> set (rt_tasks s)"
    "s' = s\<lparr>rt_tasks := (rt_tasks s)[j := (Releasing, w)], rt_waiters := callback (rt_waiters s) w\<rparr>"
    by (elim run_callback_SomeE)
  with assms(2) have "mw_id w \<noteq> k" by (auto simp: lost_def)
  with w assms(2) show ?thesis by (auto simp: lost_def callback_def dest!: set_update_cases)
next
  case (release j)
  then have w: "s' = s\<lparr>rt_tasks := take j (rt_tasks s) @ drop (Suc j) (rt_tasks s),
     rt_workers := rt_workers s - 1\<rparr>" by (elim run_release_SomeE)
  then have e: "rt_tasks s' = take j (rt_tasks s) @ drop (Suc j) (rt_tasks s)" by simp
  have "t \<in> set (rt_tasks s)" if "t \<in> set (rt_tasks s')" for t
    using that set_take_drop [of t j "rt_tasks s"] unfolding e by blast
  with w assms(2) show ?thesis unfolding lost_def by auto
next
  case (refresh_nil rx)
  then obtain s1 h where x: "send_q s rx None = Some s1" "s' = s1\<lparr>rt_refresh := Closing h\<rparr>"
    by (elim refresh_send_SomeE)
  with assms(2) send_q_keys [OF x(1)] show ?thesis by (simp add: lost_def)
next
  case (dispatch i)
  with assms(2) show ?thesis by (auto simp: lost_def elim!: dispatchMsg_SomeE)
qed (use assms(2) in \<open>auto simp: rt_op_defs lost_def split: if_splits list.splits refresh.splits\<close>)

lemma run_lost:
  assumes "(rt_step zr)\<^sup>*\<^sup>* s s'" "lost k s" "rt_conserved s"
  shows "lost k s' \<and> rt_conserved s'"
  using assms by (induction rule: rtranclp_induct) (auto intro: step_lost step_conserved)

section \<open>Properties\<close>

text \<open>A run used by the witnesses: queue and workers of size one, a message submitted, handled and called back.\<close>

definition toy_router :: "(nat, nat) msgRouter" where
  "toy_router = \<lparr>rt_qSize = 1, rt_workersCap = 1, rt_handler = (\<lambda>m r r'. r' = m + 1), rt_q = [], rt_workers = 0,
     rt_loops = [], rt_tasks = [], rt_waiters = (\<lambda>_. None), rt_refresh = NoRefresh, rt_next = 0,
     rt_accepted = [], rt_dispatched = [], rt_handled = [], rt_installed = [\<lambda>m r r'. r' = m + 1]\<rparr>"

lemma toy_router_new: "NewMsgRouter 1 1 (\<lambda>m r r'. r' = m + 1) = Ret toy_router"
  by (simp add: NewMsgRouter_def toy_router_def)

text \<open>Running enabled operations one after the other; \<open>None\<close> if one of them is not enabled.\<close>

fun run_ops :: "(('m, 'r) msgRouter \<Rightarrow> ('m, 'r) msgRouter option) list \<Rightarrow> ('m, 'r) msgRouter \<Rightarrow> ('m, 'r) msgRouter option" where
  "run_ops [] s = Some s"
| "run_ops (f # fs) s = (case f s of None \<Rightarrow> None | Some s' \<Rightarrow> run_ops fs s')"

lemma run_ops_steps:
  assumes "run_ops fs s = Some s'" "\<forall>f \<in> set fs. \<forall>s s'. f s = Some s' \<longrightarrow> rt_step zr s s'"
  shows "(rt_step zr)\<^sup>*\<^sup>* s s'"
  using assms
proof (induction fs arbitrary: s)
  case (Cons f fs)
  then obtain s1 where "f s = Some s1" "run_ops fs s1 = Some s'" by (auto split: option.splits)
  with Cons show ?case by (meson converse_rtranclp_into_rtranclp list.set_intros)
qed simp

definition toy_ops :: "((nat, nat) msgRouter \<Rightarrow> (nat, nat) msgRouter option) list" where
  "toy_ops = [\<lambda>s. Some (Start s), \<lambda>s. Some (fst (HandleWait s 0 None ''p'' 41)), \<lambda>s. loop_receive s 0,
     \<lambda>s. dispatchMsg s 0, \<lambda>s. run_handler s 0 42]"

lemma toy_ops_steps: "f \<in> set toy_ops \<Longrightarrow> f s = Some s' \<Longrightarrow> rt_step 0 s s'"
  by (auto simp: toy_ops_def intro: rt_step.intros)

lemma toy_run:
  "\<exists>s. run_ops toy_ops toy_router = Some s \<and> rt_waiters s 0 = Some Sent \<and>
     rt_tasks s = [(CallingBack, \<lparr>mw_id = 0, mw_Peer = ''p'', mw_Msg = 41, mw_Result = 42, mw_callbackC = True\<rparr>)]
     \<and> rt_handled s = [((0, 41), 42)] \<and> rt_loops s = [Idle] \<and> rt_q s = [] \<and> rt_accepted s = [(0, 41)]"
  by (simp add: toy_ops_def toy_router_def Start_def HandleWait_def send_q_def loop_receive_def received_def
      dispatchMsg_def run_handler_def mw_key_def)

text \<open>C6: the queue and the workers stay within their bounds and no message is lost or duplicated
  inside the router.  In every reachable state the queue has at most \<open>qSize\<close> entries, at most
  \<open>workers\<close> goroutines run; each accepted message is in exactly one place (queue, a loop, a
  goroutine before its handler, or handled), no message is handled twice, and when nothing is in
  flight every accepted message was handled.\<close>

theorem router_conserves_messages:
  assumes "NewMsgRouter qSize workers h = Ret s0" and "(rt_step zr)\<^sup>*\<^sup>* s0 s"
  shows "int (length (rt_q s)) \<le> qSize \<and> int (length (rt_tasks s)) \<le> workers
    \<and> mset (rt_accepted s) = mset (q_keys s) + mset (loop_keys s) + mset (task_keys s) + mset (map fst (rt_handled s))
    \<and> distinct (map (fst \<circ> fst) (rt_handled s))
    \<and> (rt_q s = [] \<and> rt_tasks s = [] \<and> (\<forall>l \<in> set (rt_loops s). \<forall>w. l \<noteq> Dispatching w)
       \<longrightarrow> mset (map fst (rt_handled s)) = mset (rt_accepted s))"
proof -
  note inv = reachable_inv [OF assms]
  have b: "int (length (rt_q s)) \<le> qSize" "int (length (rt_tasks s)) \<le> workers"
    using inv(1,6-9) by (auto simp: rt_bounds_def nat_le_iff)
  have c: "mset (rt_accepted s) = mset (q_keys s) + mset (loop_keys s) + mset (task_keys s) + mset (map fst (rt_handled s))"
    "distinct (map fst (rt_accepted s))"
    using inv(2) by (auto simp: rt_conserved_def)
  have d: "distinct (map (fst \<circ> fst) (rt_handled s))" using keys_distinct [OF inv(2)] by simp
  have e: "loop_keys s = []" if "\<forall>l \<in> set (rt_loops s). \<forall>w. l \<noteq> Dispatching w"
    using that by (auto simp: loop_keys_def loop_key_def split: start_loop.splits)
  have "mset (map fst (rt_handled s)) = mset (rt_accepted s)"
    if "rt_q s = []" "rt_tasks s = []" "\<forall>l \<in> set (rt_loops s). \<forall>w. l \<noteq> Dispatching w"
    using c(1) e [OF that(3)] that by (simp add: q_keys_def task_keys_def)
  with b c(1) d show ?thesis by blast
qed

theorem router_conserves_messages_witness:
  "\<exists>s. run_ops toy_ops toy_router = Some s \<and> distinct (map (fst \<circ> fst) (rt_handled s)) \<and> rt_handled s = [((0, 41), 42)]"
proof -
  obtain s where s: "run_ops toy_ops toy_router = Some s" "rt_handled s = [((0, 41), 42)]" using toy_run by blast
  with router_conserves_messages [OF toy_router_new run_ops_steps [OF s(1)]] toy_ops_steps show ?thesis by blast
qed

text \<open>C16: order.  As long as \<open>Start\<close> was called at most once, messages are given to the goroutines in the
  order in which they were accepted: the dispatched ones, then the one the loop holds, then the queue.\<close>

theorem router_fifo:
  assumes "NewMsgRouter qSize workers h = Ret s0" and "(rt_step zr)\<^sup>*\<^sup>* s0 s" and "length (rt_loops s) \<le> 1"
  shows "rt_accepted s = rt_dispatched s @ loop_keys s @ q_keys s"
  using reachable_inv(4) [OF assms(1,2)] assms(3) by (simp add: rt_fifo_def)

theorem router_fifo_witness:
  "\<exists>s. run_ops toy_ops toy_router = Some s \<and> rt_accepted s = rt_dispatched s @ loop_keys s @ q_keys s"
proof -
  obtain s where s: "run_ops toy_ops toy_router = Some s" "rt_loops s = [Idle]" using toy_run by blast
  have "(rt_step 0)\<^sup>*\<^sup>* toy_router s" using run_ops_steps [OF s(1)] toy_ops_steps by blast
  with router_fifo [OF toy_router_new this] s show ?thesis by simp
qed

text \<open>C15: a result that \<open>HandleWait\<close> returns is the one a handler computed for that very message: the
  message was accepted from this caller, went through a handler that was installed, and the result
  is one this handler can leave for it.\<close>

theorem router_result_integrity:
  assumes "NewMsgRouter qSize workers h = Ret s0" and "(rt_step zr)\<^sup>*\<^sup>* s0 s" and "rt_waiters s k = Some (Got r)"
  shows "\<exists>m h'. (k, m) \<in> set (rt_accepted s) \<and> h' \<in> set (rt_installed s) \<and> h' m zr r
    \<and> (\<forall>m'. (k, m') \<in> set (rt_accepted s) \<longrightarrow> m' = m)"
proof -
  note inv = reachable_inv [OF assms(1,2)]
  from inv(3) assms(3) obtain m where m: "((k, m), r) \<in> set (rt_handled s)"
    unfolding rt_results_def by blast
  with inv(3) obtain h' where h: "h' \<in> set (rt_installed s)" "h' m zr r" by (fastforce simp: rt_results_def)
  have "mset (rt_accepted s) = mset (q_keys s @ loop_keys s @ task_keys s @ map fst (rt_handled s))"
    using inv(2) by (simp add: rt_conserved_def ac_simps)
  then have "set (rt_accepted s) = set (q_keys s @ loop_keys s @ task_keys s @ map fst (rt_handled s))"
    by (rule mset_eq_setD)
  with m have "(k, m) \<in> set (rt_accepted s)" by force
  moreover have "m' = m" if "(k, m') \<in> set (rt_accepted s)" for m'
    using calculation that inv(2) unfolding rt_conserved_def by (metis eq_key_imp_eq_value)
  ultimately show ?thesis using h by blast
qed

theorem router_result_integrity_witness:
  "\<exists>s s'. run_ops toy_ops toy_router = Some s \<and> run_ops [\<lambda>s. wait_begin s 0, \<lambda>s. run_callback s 0] s = Some s'
    \<and> rt_waiters s' 0 = Some (Got 42) \<and> (\<exists>m h'. (0, m) \<in> set (rt_accepted s') \<and> h' \<in> set (rt_installed s') \<and> h' m 0 42)"
proof -
  obtain s where s: "run_ops toy_ops toy_router = Some s" "rt_waiters s 0 = Some Sent"
    "rt_tasks s = [(CallingBack, \<lparr>mw_id = 0, mw_Peer = ''p'', mw_Msg = 41, mw_Result = 42, mw_callbackC = True\<rparr>)]"
    using toy_run by blast
  obtain s' where s': "run_ops [\<lambda>s. wait_begin s 0, \<lambda>s. run_callback s 0] s = Some s'" "rt_waiters s' 0 = Some (Got 42)"
    using s(2,3) by (simp add: wait_begin_def run_callback_def callback_def)
  have "(rt_step 0)\<^sup>*\<^sup>* toy_router s" using run_ops_steps [OF s(1)] toy_ops_steps by blast
  moreover have "(rt_step 0)\<^sup>*\<^sup>* s s'" using run_ops_steps [OF s'(1), of 0] by (auto intro: rt_step.intros)
  ultimately have "(rt_step 0)\<^sup>*\<^sup>* toy_router s'" by simp
  from router_result_integrity [OF toy_router_new this s'(2)]
  obtain m h' where "(0, m) \<in> set (rt_accepted s')" "h' \<in> set (rt_installed s')" "h' m 0 42"
    by (elim exE conjE)
  then show ?thesis using s(1) s' by (intro exI [of _ s] exI [of _ s'] exI [of _ m] exI [of _ h'] conjI)
qed

text \<open>a result can be lost.  A goroutine that calls back while the caller is still on its way to the
  second \<open>select\<close> drops the result, and from then on no run ever gives that caller a result: it can
  only end by its context.\<close>

theorem router_lost_result:
  assumes "NewMsgRouter qSize workers h = Ret s0" and "(rt_step zr)\<^sup>*\<^sup>* s0 s"
    and "rt_waiters s k = Some Sent" and "rt_tasks s ! j = (CallingBack, w)" and "mw_id w = k"
    and "run_callback s j = Some s1" and "(rt_step zr)\<^sup>*\<^sup>* s1 s2"
  shows "rt_waiters s2 k \<noteq> Some (Got r)"
proof -
  note inv = reachable_inv [OF assms(1,2)]
  have w: "(CallingBack, w) \<in> set (rt_tasks s)" "j < length (rt_tasks s)"
    "s1 = s\<lparr>rt_tasks := (rt_tasks s)[j := (Releasing, w)], rt_waiters := callback (rt_waiters s) w\<rparr>"
    using assms(4,6) by (auto elim!: run_callback_SomeE)
  have "(mw_key w, mw_Result w) \<in> set (rt_handled s)" using w(1) inv(3) by (fastforce simp: rt_results_def)
  then have "k \<in> (fst \<circ> fst) ` set (rt_handled s)" using assms(5) by (force simp: mw_key_def)
  moreover have "mw_id v \<noteq> k" if "(CallingBack, v) \<in> set (rt_tasks s1)" for v
  proof -
    from that w(3) obtain i where "i < length (rt_tasks s)" "(rt_tasks s)[j := (Releasing, w)] ! i = (CallingBack, v)"
      by (auto simp: in_set_conv_nth)
    with w(2) have i: "i < length (rt_tasks s)" "i \<noteq> j" "rt_tasks s ! i = (CallingBack, v)"
      by (auto simp: nth_list_update split: if_splits)
    let ?ids = "map (mw_id \<circ> snd) (rt_tasks s)"
    have "?ids ! i \<noteq> ?ids ! j"
      using nth_eq_iff_index_eq [of ?ids i j] inv(10) i(1,2) w(2) by (simp add: rt_unique_def)
    with i(1,3) w(2) assms(4,5) show ?thesis by simp
  qed
  moreover have "rt_waiters s1 k = Some Sent" using w(3) assms(3,5) by (simp add: callback_def)
  ultimately have "lost k s1" using w(3) by (simp add: lost_def)
  moreover have "rt_conserved s1" using step_conserved [OF rt_step.call_back [OF assms(6)] inv(2)] .
  ultimately show ?thesis using run_lost [OF assms(7)] by (simp add: lost_def)
qed

theorem router_lost_result_witness:
  "\<exists>s s1. run_ops toy_ops toy_router = Some s \<and> run_callback s 0 = Some s1 \<and>
     (\<forall>s2. (rt_step 0)\<^sup>*\<^sup>* s1 s2 \<longrightarrow> rt_waiters s2 0 \<noteq> Some (Got 42))"
proof -
  obtain s where s: "run_ops toy_ops toy_router = Some s" "rt_waiters s 0 = Some Sent"
    "rt_tasks s = [(CallingBack, \<lparr>mw_id = 0, mw_Peer = ''p'', mw_Msg = 41, mw_Result = 42, mw_callbackC = True\<rparr>)]"
    using toy_run by blast
  obtain s1 where s1: "run_callback s 0 = Some s1" using s(3) by (simp add: run_callback_def)
  have r: "(rt_step 0)\<^sup>*\<^sup>* toy_router s" using run_ops_steps [OF s(1)] toy_ops_steps by blast
  have "rt_waiters s2 0 \<noteq> Some (Got 42)" if "(rt_step 0)\<^sup>*\<^sup>* s1 s2" for s2
    using router_lost_result [OF toy_router_new r s(2) _ _ s1 that] s(3) by simp
  with s(1) s1 show ?thesis by blast
qed

text \<open>a router created with no worker slots never handles a message: every loop blocks on the first
  message it takes.\<close>

theorem router_without_workers_stalls:
  assumes "NewMsgRouter qSize 0 h = Ret s0" and "(rt_step zr)\<^sup>*\<^sup>* s0 s"
  shows "rt_handled s = [] \<and> rt_dispatched s = [] \<and> dispatchMsg s i = None"
proof -
  from assms(2) have "rt_handled s = [] \<and> rt_dispatched s = []"
  proof (induction rule: rtranclp_induct)
    case base
    with assms(1) show ?case by (auto simp: NewMsgRouter_def split: if_splits)
  next
    case (step a b)
    note inv = reachable_inv [OF assms(1) step(1)] 
    have "rt_tasks a = []" "rt_workersCap a = 0" using inv(1,7) by (auto simp: rt_bounds_def)
    with step(2,3) show ?case
      by (cases rule: rt_step.cases)
        (auto simp: rt_op_defs split: option.splits if_splits list.splits start_loop.splits refresh.splits)
  qed
  with reachable_inv(7) [OF assms] show ?thesis by (auto simp: dispatchMsg_def split: start_loop.splits)
qed

theorem router_without_workers_stalls_witness:
  "\<exists>s0. NewMsgRouter 8 0 (\<lambda>m r r'. r' = m + 1) = Ret s0 \<and> rt_handled (fst (Handle (Start s0) (0 :: nat) None ''p'' 5)) = []"
proof -
  obtain s0 :: "(nat, nat) msgRouter" where s0: "NewMsgRouter 8 0 (\<lambda>m r r'. r' = m + 1) = Ret s0"
    by (simp add: NewMsgRouter_def)
  have "(rt_step 0)\<^sup>*\<^sup>* s0 (fst (Handle (Start s0) 0 None ''p'' 5))"
    using rt_step.start rt_step.handle by (metis converse_rtranclp_into_rtranclp r_into_rtranclp)
  from router_without_workers_stalls [OF s0 this] s0 show ?thesis by blast
qed

text \<open>restarts.  Each nil that \<open>RefreshHandler\<close> sends ends exactly one \<open>Start\<close> loop: the loops that ended
  this way and the nils still queued together are the number of nils sent.  In particular after one
  completed refresh and two calls of \<open>Start\<close>, as in the start-up of the command, exactly one loop
  is left once the nil is consumed, unless a context ended it.\<close>

theorem router_refresh_ends_one_loop:
  assumes "NewMsgRouter qSize workers h = Ret s0" and "(rt_step zr)\<^sup>*\<^sup>* s0 s"
  shows "count_list (rt_loops s) EndedNil + count_nil (rt_q s) = nils_sent s \<and>
    (length (rt_installed s) = 2 \<and> rt_refresh s = NoRefresh \<and> length (rt_loops s) = 2 \<and> None \<notin> set (rt_q s)
       \<and> EndedCtx \<notin> set (rt_loops s)
     \<longrightarrow> length (filter (\<lambda>l. l \<noteq> EndedNil) (rt_loops s)) = 1)"
proof -
  have c: "count_list (rt_loops s) EndedNil + count_nil (rt_q s) = nils_sent s"
    using reachable_inv(5) [OF assms] by (simp add: rt_loops_ok_def)
  have f: "length (filter (\<lambda>l. l \<noteq> z) xs) + count_list xs z = length xs" for xs and z :: 'x
    by (induction xs) auto
  have "None \<notin> set q \<Longrightarrow> count_nil q = 0" for q :: "('a, 'b) MsgWrapper option list"
    by (induction q) (auto simp: count_nil_def, metis not_None_eq)
  with c f [of EndedNil "rt_loops s"] show ?thesis by (auto simp: nils_sent_def)
qed

theorem router_refresh_ends_one_loop_witness:
  "\<exists>s. run_ops [\<lambda>s. RefreshHandler s (\<lambda>m r r'. r' = m), \<lambda>s. refresh_send s None, \<lambda>s. refresh_finish s,
       \<lambda>s. Some (Start s), \<lambda>s. Some (Start s), \<lambda>s. loop_receive s 0] toy_router = Some s
     \<and> length (filter (\<lambda>l. l \<noteq> EndedNil) (rt_loops s)) = 1"
proof -
  let ?ops = "[\<lambda>s. RefreshHandler s (\<lambda>m r r'. r' = m), \<lambda>s. refresh_send s None, \<lambda>s. refresh_finish s,
       \<lambda>s. Some (Start s), \<lambda>s. Some (Start s), \<lambda>s. loop_receive s 0] :: ((nat, nat) msgRouter \<Rightarrow> _) list"
  obtain s where s: "run_ops ?ops toy_router = Some s" "length (rt_installed s) = 2" "rt_refresh s = NoRefresh"
    "rt_loops s = [EndedNil, Idle]" "rt_q s = []"
    by (simp add: toy_router_def RefreshHandler_def refresh_send_def send_q_def refresh_finish_def Start_def
        loop_receive_def received_def)
  have "(rt_step 0)\<^sup>*\<^sup>* toy_router s" by (rule run_ops_steps [OF s(1)]) (auto intro: rt_step.intros)
  from router_refresh_ends_one_loop [OF toy_router_new this] s show ?thesis by simp
qed

end
