(* ===== verification/Report_Ring.thy ===== *)
theory Report_Ring
  imports Go_Prelude
begin

text \<open>
  The sequence-numbered ring that both example networks keep per peer network, as a pure
  specification on lists: a report goes to the slot given by its sequence number modulo the
  size, and only over an older one.  The locale \<open>seq_ring\<close> gives what follows from the
  sequence numbers alone; \<open>report_store\<close> is the contract of a buffer towards the validators
  that read it.  Both are interpreted on the buffers of \<open>examples/bls\<close> and \<open>examples/don\<close>.
\<close>

section \<open>Rings\<close>

definition ring_put :: "('r \<Rightarrow> int) \<Rightarrow> 'r list \<Rightarrow> 'r \<Rightarrow> 'r list \<times> bool" where
  "ring_put sq buf r =
     (let i = nat (sq r mod int (length buf))
      in if sq (buf ! i) < sq r then (buf[i := r], True) else (buf, False))"

definition ring_get :: "('r \<Rightarrow> int) \<Rightarrow> 'r list \<Rightarrow> int \<Rightarrow> 'r option" where
  "ring_get sq buf s =
     (let x = buf ! nat (s mod int (length buf)) in if sq x = s then Some x else None)"

fun ring_latest :: "('r \<Rightarrow> int) \<Rightarrow> 'r \<Rightarrow> 'r list \<Rightarrow> 'r" where
  "ring_latest sq l [] = l"
| "ring_latest sq l (r # rs) = ring_latest sq (if sq r > sq l then r else l) rs"

definition ring_inv :: "('r \<Rightarrow> int) \<Rightarrow> 'r list \<Rightarrow> bool" where
  "ring_inv sq buf \<longleftrightarrow> buf \<noteq> [] \<and>
     (\<forall>i < length buf. 0 \<le> sq (buf ! i) \<and>
        (sq (buf ! i) \<noteq> 0 \<longrightarrow> sq (buf ! i) mod int (length buf) = int i))"

text \<open>All reports ever offered to a ring of size \<open>n\<close>, in order.\<close>

definition ring_run :: "('r \<Rightarrow> int) \<Rightarrow> 'r \<Rightarrow> nat \<Rightarrow> 'r list \<Rightarrow> 'r list" where
  "ring_run sq z n hs = foldl (\<lambda>b r. fst (ring_put sq b r)) (replicate n z) hs"

text \<open>Rings of size \<open>n\<close> by network, allocated on first use; a ring that is stored holds a report.\<close>

definition rings_read :: "(string \<Rightarrow> 'r list option) \<Rightarrow> string \<Rightarrow> 'r list" where
  "rings_read m net = (case m net of None \<Rightarrow> [] | Some b \<Rightarrow> b)"

definition rings_ring :: "'r \<Rightarrow> nat \<Rightarrow> (string \<Rightarrow> 'r list option) \<Rightarrow> string \<Rightarrow> 'r list" where
  "rings_ring z n m net = (if rings_read m net = [] then replicate n z else rings_read m net)"

definition rings_inv :: "('r \<Rightarrow> int) \<Rightarrow> nat \<Rightarrow> (string \<Rightarrow> 'r list option) \<Rightarrow> bool" where
  "rings_inv sq n m \<longleftrightarrow> (\<forall>net b. m net = Some b \<longrightarrow>
     length b = n \<and> ring_inv sq b \<and> (\<exists>r \<in> set b. sq r \<noteq> 0))"

lemma rings_upd: "b \<noteq> [] \<Longrightarrow> rings_ring z n (m(net \<mapsto> b)) = (rings_ring z n m)(net := b)"
  by (auto simp: rings_ring_def rings_read_def fun_eq_iff)

lemma find_key: "(\<exists>y. find (\<lambda>x. f x = k) xs = Some y) \<longleftrightarrow> k \<in> f ` set xs"
  by (induction xs) auto

lemma ring_put_length [simp]: "length (fst (ring_put sq buf r)) = length buf"
  by (simp add: ring_put_def Let_def)

lemma ring_slot_less: "buf \<noteq> [] \<Longrightarrow> nat (s mod int (length buf)) < length buf"
  by (simp add: nat_less_iff)

lemma ring_latest_mem: "ring_latest sq l rs = l \<or> ring_latest sq l rs \<in> set rs"
proof (induction rs arbitrary: l)
  case (Cons r rs)
  from Cons.IH [of "if sq r > sq l then r else l"] show ?case by (auto split: if_splits)
qed simp

lemma ring_latest_ge:
  "sq l \<le> sq (ring_latest sq l rs) \<and> (\<forall>r \<in> set rs. sq r \<le> sq (ring_latest sq l rs))"
proof (induction rs arbitrary: l)
  case (Cons r rs)
  from Cons.IH [of "if sq r > sq l then r else l"] show ?case by (auto split: if_splits)
qed simp

lemma ring_latest_Max:
  "sq (ring_latest sq l rs) = Max (insert (sq l) (sq ` set rs))"
proof (rule Max_eqI [symmetric])
  show "sq (ring_latest sq l rs) \<in> insert (sq l) (sq ` set rs)"
    using ring_latest_mem [of sq l rs] by auto
qed (use ring_latest_ge [of sq l rs] in auto)

locale seq_ring =
  fixes sq :: "'r \<Rightarrow> int" and z :: 'r
  assumes sq_z: "sq z = 0"
begin

lemma inv_new: "0 < n \<Longrightarrow> ring_inv sq (replicate n z)"
  by (simp add: ring_inv_def sq_z)

lemma inv_put:
  assumes "ring_inv sq buf" "0 \<le> sq r"
  shows "ring_inv sq (fst (ring_put sq buf r))"
proof -
  have "buf \<noteq> []" using assms(1) by (simp add: ring_inv_def)
  then have "int (nat (sq r mod int (length buf))) = sq r mod int (length buf)"
    and "nat (sq r mod int (length buf)) < length buf"
    by (simp_all add: ring_slot_less)
  with assms show ?thesis
    by (auto simp: ring_inv_def ring_put_def Let_def nth_list_update)
qed

lemma get_put_same:
  assumes "ring_inv sq buf" "snd (ring_put sq buf r)"
  shows "ring_get sq (fst (ring_put sq buf r)) (sq r) = Some r"
proof -
  have "buf \<noteq> []" using assms(1) by (simp add: ring_inv_def)
  with assms(2) show ?thesis
    by (auto simp: ring_get_def ring_put_def Let_def ring_slot_less split: if_splits)
qed

lemma rings_ok:
  assumes "rings_inv sq n m" "0 < n"
  shows "ring_inv sq (rings_ring z n m net)" "length (rings_ring z n m net) = n"
  using assms inv_new by (auto simp: rings_ring_def rings_inv_def rings_read_def split: option.splits)

lemma rings_put:
  assumes "rings_inv sq n m" "0 < n" "0 \<le> sq r" "snd (ring_put sq (rings_ring z n m net) r)"
  shows "rings_inv sq n (m(net \<mapsto> fst (ring_put sq (rings_ring z n m net) r)))"
    "rings_ring z n (m(net \<mapsto> fst (ring_put sq (rings_ring z n m net) r)))
       = (rings_ring z n m)(net := fst (ring_put sq (rings_ring z n m net) r))"
proof -
  let ?b = "rings_ring z n m net" and ?b' = "fst (ring_put sq (rings_ring z n m net) r)"
  note ok = rings_ok [OF assms(1,2), of net]
  then have ne: "?b \<noteq> []" using assms(2) by auto
  let ?k = "nat (sq r mod int (length ?b))"
  have k: "?k < length ?b" using ne by (rule ring_slot_less)
  have p: "?b' = ?b[?k := r]" "sq (?b ! ?k) < sq r" using assms(4) by (auto simp: ring_put_def Let_def split: if_splits)
  have "r \<in> set ?b'" "sq r \<noteq> 0" using p k ok(1) by (auto simp: set_update_memI ring_inv_def)
  with assms(1) ok inv_put [OF ok(1) assms(3)] show "rings_inv sq n (m(net \<mapsto> ?b'))"
    by (auto simp: rings_inv_def)
  have "?b' \<noteq> []" using ne by (metis ring_put_length length_0_conv)
  then show "rings_ring z n (m(net \<mapsto> ?b')) = (rings_ring z n m)(net := ?b')" by (rule rings_upd)
qed

lemma put_refused:
  assumes "ring_inv sq buf" "\<not> snd (ring_put sq buf r)"
  shows "fst (ring_put sq buf r) = buf \<and> (\<exists>x \<in> set buf. sq r \<le> sq x)"
proof -
  have "buf \<noteq> []" using assms(1) by (simp add: ring_inv_def)
  from nth_mem [OF ring_slot_less [OF this, of "sq r"]] assms(2) show ?thesis
    by (auto simp: ring_put_def Let_def not_less split: if_splits)
qed

lemma latest_put:
  assumes "ring_inv sq buf"
  shows "sq (ring_latest sq z (fst (ring_put sq buf r))) = max (sq (ring_latest sq z buf)) (sq r)"
proof -
  let ?L = "sq (ring_latest sq z buf)" and ?i = "nat (sq r mod int (length buf))"
  have ne: "buf \<noteq> []" using assms by (simp add: ring_inv_def)
  then have i: "?i < length buf" by (rule ring_slot_less)
  have ub: "sq x \<le> ?L" if "x \<in> set buf" for x using that ring_latest_ge [of sq z buf] by auto
  show ?thesis
  proof (cases "snd (ring_put sq buf r)")
    case False
    with put_refused [OF assms] ub show ?thesis by (force simp: max_def)
  next
    case True
    then have b: "fst (ring_put sq buf r) = buf[?i := r]" and lt: "sq (buf ! ?i) < sq r"
      by (auto simp: ring_put_def Let_def split: if_splits)
    have "Max (insert 0 (sq ` set (buf[?i := r]))) = max ?L (sq r)"
    proof (rule Max_eqI)
      fix y assume "y \<in> insert 0 (sq ` set (buf[?i := r]))"
      then show "y \<le> max ?L (sq r)"
        using ub ring_latest_ge [of sq z buf] set_update_subset_insert [of buf ?i r] sq_z
        by (auto simp: le_max_iff_disj)
    next
      have r: "sq r \<in> sq ` set (buf[?i := r])" using i by (simp add: set_update_memI)
      have "?L \<in> insert 0 (sq ` set (buf[?i := r]))" if "sq r < ?L"
      proof (cases "ring_latest sq z buf = z")
        case False
        then obtain k where k: "k < length buf" "buf ! k = ring_latest sq z buf"
          using ring_latest_mem [of sq z buf] by (auto simp: in_set_conv_nth)
        then have "k \<noteq> ?i" using lt that by auto
        then have "buf[?i := r] ! k = ring_latest sq z buf" using k by simp
        then show ?thesis using k by (metis imageI insertI2 length_list_update nth_mem)
      qed (simp add: sq_z)
      with r show "max ?L (sq r) \<in> insert 0 (sq ` set (buf[?i := r]))" by (auto simp: max_def)
    qed simp
    with b show ?thesis by (simp add: ring_latest_Max sq_z)
  qed
qed

lemma run_snoc: "ring_run sq z n (hs @ [r]) = fst (ring_put sq (ring_run sq z n hs) r)"
  by (simp add: ring_run_def)

lemma run_inv:
  "0 < n \<Longrightarrow> (\<forall>r \<in> set hs. 0 \<le> sq r) \<Longrightarrow> ring_inv sq (ring_run sq z n hs) \<and> length (ring_run sq z n hs) = n"
proof (induction hs rule: rev_induct)
  case Nil
  then show ?case by (simp add: ring_run_def inv_new)
next
  case (snoc r hs)
  then show ?case by (simp add: run_snoc inv_put)
qed

text \<open>The latest report is the newest ever offered, although slots are overwritten.\<close>

lemma run_latest:
  assumes "0 < n" "\<forall>r \<in> set hs. 0 \<le> sq r"
  shows "sq (ring_latest sq z (ring_run sq z n hs)) = Max (insert 0 (sq ` set hs))"
  using assms(2)
proof (induction hs rule: rev_induct)
  case Nil
  have "sq ` set (replicate n z) = {0}" using assms(1) by (auto simp: sq_z)
  then show ?case by (simp add: ring_run_def ring_latest_Max sq_z)
next
  case (snoc r hs)
  from snoc.prems have "ring_inv sq (ring_run sq z n hs)" using run_inv assms(1) by simp
  with snoc have "sq (ring_latest sq z (ring_run sq z n (hs @ [r]))) = max (Max (insert 0 (sq ` set hs))) (sq r)"
    by (simp add: run_snoc latest_put)
  also have "\<dots> = Max (insert (sq r) (insert 0 (sq ` set hs)))"
    by (subst Max_insert) (auto simp: max.commute)
  finally show ?case by (simp add: insert_commute)
qed

text \<open>A slot holds the first report offered with the greatest number of its residue.\<close>

lemma put_slot:
  assumes "buf \<noteq> []" "i < length buf"
  shows "fst (ring_put sq buf r) ! i =
    (if sq r mod int (length buf) = int i \<and> sq (buf ! i) < sq r then r else buf ! i)"
proof (cases "sq r mod int (length buf) = int i")
  case True
  then have "nat (sq r mod int (length buf)) = i" by simp
  with assms True show ?thesis by (simp add: ring_put_def)
next
  case False
  then have "nat (sq r mod int (length buf)) \<noteq> i" using assms by auto
  with False show ?thesis by (simp add: ring_put_def Let_def)
qed

lemma run_slot:
  assumes "0 < n" "i < n" "\<forall>r \<in> set hs. 0 \<le> sq r"
  shows "(\<forall>x \<in> set hs. sq x mod int n = int i \<longrightarrow> sq x \<le> sq (ring_run sq z n hs ! i))
    \<and> (sq (ring_run sq z n hs ! i) = 0 \<or>
       find (\<lambda>x. sq x = sq (ring_run sq z n hs ! i)) hs = Some (ring_run sq z n hs ! i))"
  using assms(3)
proof (induction hs rule: rev_induct)
  case Nil
  then show ?case using assms by (simp add: ring_run_def sq_z)
next
  case (snoc r hs)
  let ?b = "ring_run sq z n hs"
  from snoc.prems have b: "ring_inv sq ?b" "length ?b = n" using run_inv assms(1) by simp_all
  then have "?b \<noteq> []" using assms(1) by auto
  note slot = put_slot [OF this, of i r]
  show ?case
  proof (cases "sq r mod int n = int i \<and> sq (?b ! i) < sq r")
    case True
    then have s: "ring_run sq z n (hs @ [r]) ! i = r" using slot b assms by (simp add: run_snoc)
    have "find (\<lambda>x. sq x = sq r) hs = None"
      using snoc True by (fastforce simp: find_None_iff)
    then have "find (\<lambda>x. sq x = sq r) (hs @ [r]) = Some r"
      by (induction hs) auto
    with s snoc True show ?thesis by (fastforce simp: s)
  next
    case False
    then have s: "ring_run sq z n (hs @ [r]) ! i = ?b ! i" using slot b assms by (auto simp: run_snoc)
    have "find P (hs @ [r]) = Some x" if "find P hs = Some x" for P x
      using that by (induction hs) auto
    with s snoc False show ?thesis by (auto simp: s)
  qed
qed

lemma run_get:
  assumes "0 < n" "\<forall>r \<in> set hs. 0 \<le> sq r" "0 < s"
  shows "ring_get sq (ring_run sq z n hs) s = Some r \<longleftrightarrow>
    find (\<lambda>x. sq x = s) hs = Some r \<and> (\<forall>x \<in> set hs. sq x mod int n = s mod int n \<longrightarrow> sq x \<le> s)"
proof -
  let ?b = "ring_run sq z n hs" and ?i = "nat (s mod int n)"
  have i: "?i < n" "int ?i = s mod int n" using assms(1) by (simp_all add: nat_less_iff)
  have len: "length ?b = n" using run_inv assms by simp
  have slot: "\<forall>x \<in> set hs. sq x mod int n = s mod int n \<longrightarrow> sq x \<le> sq (?b ! ?i)"
    "sq (?b ! ?i) = 0 \<or> find (\<lambda>x. sq x = sq (?b ! ?i)) hs = Some (?b ! ?i)"
    using run_slot [OF assms(1) i(1) assms(2)] i(2) by auto
  have g: "ring_get sq ?b s = Some r \<longleftrightarrow> sq (?b ! ?i) = s \<and> r = ?b ! ?i"
    by (auto simp: ring_get_def len Let_def)
  show ?thesis
  proof
    assume "ring_get sq ?b s = Some r"
    with slot g assms(3) show "find (\<lambda>x. sq x = s) hs = Some r \<and>
        (\<forall>x \<in> set hs. sq x mod int n = s mod int n \<longrightarrow> sq x \<le> s)" by auto
  next
    assume R: "find (\<lambda>x. sq x = s) hs = Some r \<and>
        (\<forall>x \<in> set hs. sq x mod int n = s mod int n \<longrightarrow> sq x \<le> s)"
    then have r: "r \<in> set hs" "sq r = s" by (auto simp: find_Some_iff)
    with slot(1) have "s \<le> sq (?b ! ?i)" by auto
    with assms(3) slot(2) have f: "find (\<lambda>x. sq x = sq (?b ! ?i)) hs = Some (?b ! ?i)" by auto
    then have m: "?b ! ?i \<in> set hs" by (auto simp: find_Some_iff)
    have "sq (?b ! ?i) mod int n = s mod int n"
      using run_inv [OF assms(1,2)] i assms(3) \<open>s \<le> sq (?b ! ?i)\<close> by (auto simp: ring_inv_def)
    with R m have "sq (?b ! ?i) \<le> s" by auto
    with \<open>s \<le> sq (?b ! ?i)\<close> f R g show "ring_get sq ?b s = Some r" by auto
  qed
qed

end

section \<open>The contract of a report buffer\<close>

text \<open>Offering a list of reports to a buffer.\<close>

fun store_adds :: "('b \<Rightarrow> string \<Rightarrow> 'r \<Rightarrow> ('b \<times> bool) go) \<Rightarrow> 'b \<Rightarrow> (string \<times> 'r) list \<Rightarrow> 'b go" where
  "store_adds add b [] = Ret b"
| "store_adds add b ((n, r) # xs) = go_bind (add b n r) (\<lambda>(b, _). store_adds add b xs)"

text \<open>
  A buffer keeps rings by network name; an absent ring counts as empty.  \<open>ring_of\<close> is the
  abstraction, \<open>seqOf\<close> the number as the code stores it and \<open>num\<close> its value.
\<close>

locale report_store =
  fixes add :: "'b \<Rightarrow> string \<Rightarrow> 'r \<Rightarrow> ('b \<times> bool) go"
    and get :: "'b \<Rightarrow> string \<Rightarrow> 'q \<Rightarrow> 'r option go"
    and latest :: "'b \<Rightarrow> string \<Rightarrow> 'r option"
    and inv :: "'b \<Rightarrow> bool"
    and seqOf :: "'r \<Rightarrow> 'q"
    and num :: "'q \<Rightarrow> int"
    and sq :: "'r \<Rightarrow> int"
    and z :: 'r
    and sz :: "'b \<Rightarrow> nat"
    and ring_of :: "'b \<Rightarrow> string \<Rightarrow> 'r list"
  assumes sq_num: "sq r = num (seqOf r)"
    and num_z: "sq z = 0"
    and size_pos: "inv b \<Longrightarrow> 0 < sz b"
    and ring_ok: "inv b \<Longrightarrow> ring_inv sq (ring_of b n) \<and> length (ring_of b n) = sz b"
    and add_ring: "inv b \<Longrightarrow> 0 \<le> sq r \<Longrightarrow>
          \<exists>b'. add b n r = Ret (b', snd (ring_put sq (ring_of b n) r)) \<and> inv b' \<and> sz b' = sz b
             \<and> ring_of b' = (ring_of b)(n := fst (ring_put sq (ring_of b n) r))"
    and get_ring: "inv b \<Longrightarrow> 0 < num q \<Longrightarrow>
          get b n q = Ret (ring_get sq (ring_of b n) (num q))"
    and latest_ring: "inv b \<Longrightarrow> (case latest b n of None \<Rightarrow> 0 | Some r \<Rightarrow> sq r)
          = sq (ring_latest sq z (ring_of b n))"
begin

lemma rings: "seq_ring sq z"
  by unfold_locales (simp add: num_z)

lemma adds_ring:
  assumes "inv b" "\<forall>(m, r) \<in> set xs. 0 \<le> sq r"
  shows "\<exists>b'. store_adds add b xs = Ret b' \<and> inv b' \<and> sz b' = sz b
     \<and> ring_of b' n = foldl (\<lambda>c r. fst (ring_put sq c r)) (ring_of b n)
          (map snd (filter (\<lambda>(m, r). m = n) xs))"
  using assms
proof (induction xs arbitrary: b)
  case (Cons x xs)
  obtain m r where x: "x = (m, r)" by fastforce
  with Cons.prems obtain b1 u where b1: "add b m r = Ret (b1, u)" "inv b1" "sz b1 = sz b"
    "ring_of b1 = (ring_of b)(m := fst (ring_put sq (ring_of b m) r))"
    using add_ring [of b r m] by auto
  from Cons.IH [OF b1(2)] Cons.prems(2) x obtain b' where "store_adds add b1 xs = Ret b'" "inv b'"
    "sz b' = sz b1" "ring_of b' n = foldl (\<lambda>c r. fst (ring_put sq c r)) (ring_of b1 n)
          (map snd (filter (\<lambda>(m, r). m = n) xs))" by auto
  with b1 x show ?case by auto
qed simp

text \<open>A fresh buffer after a history of offers, and what was offered for a network.\<close>

definition offers :: "string \<Rightarrow> (string \<times> 'r) list \<Rightarrow> 'r list" where
  "offers n xs = map snd (filter (\<lambda>(m, r). m = n) xs)"

lemma adds_history:
  assumes "inv b0" "ring_of b0 n = replicate (sz b0) z" "\<forall>(m, r) \<in> set xs. 0 \<le> sq r" "store_adds add b0 xs = Ret b"
  shows "inv b" "sz b = sz b0"
    and "(case latest b n of None \<Rightarrow> 0 | Some r \<Rightarrow> sq r) = Max (insert 0 (sq ` set (offers n xs)))"
    and "0 < num q \<Longrightarrow> get b n q = Ret (Some r) \<longleftrightarrow> find (\<lambda>x. sq x = num q) (offers n xs) = Some r \<and>
          (\<forall>x \<in> set (offers n xs). sq x mod int (sz b0) = num q mod int (sz b0) \<longrightarrow> sq x \<le> num q)"
    and "0 < num q \<Longrightarrow> \<exists>x. get b n q = Ret x"
proof -
  from adds_ring [OF assms(1,3), of n] assms(2,4)
  have b: "inv b" "sz b = sz b0" "ring_of b n = ring_run sq z (sz b0) (offers n xs)"
    by (auto simp: ring_run_def offers_def)
  show "inv b" "sz b = sz b0" by (rule b)+
  have n: "0 < sz b0" by (rule size_pos [OF assms(1)])
  have pos: "\<forall>r \<in> set (offers n xs). 0 \<le> sq r" using assms(3) by (auto simp: offers_def)
  show "(case latest b n of None \<Rightarrow> 0 | Some r \<Rightarrow> sq r) = Max (insert 0 (sq ` set (offers n xs)))"
    unfolding latest_ring [OF b(1)] b(3) by (rule seq_ring.run_latest [OF rings n pos])
  assume q: "0 < num q"
  from seq_ring.run_get [OF rings n pos q] show "get b n q = Ret (Some r) \<longleftrightarrow> find (\<lambda>x. sq x = num q) (offers n xs) = Some r \<and>
          (\<forall>x \<in> set (offers n xs). sq x mod int (sz b0) = num q mod int (sz b0) \<longrightarrow> sq x \<le> num q)"
    by (simp add: get_ring [OF b(1) q] b(3))
  show "\<exists>x. get b n q = Ret x" by (simp add: get_ring [OF b(1) q])
qed

lemma accepted_is_found:
  assumes "inv b" "0 < sq r" "add b n r = Ret (b', True)"
  shows "inv b'" "get b' n (seqOf r) = Ret (Some r)"
proof -
  from assms obtain b1 where b1: "add b n r = Ret (b1, snd (ring_put sq (ring_of b n) r))"
    "inv b1" "ring_of b1 = (ring_of b)(n := fst (ring_put sq (ring_of b n) r))"
    using add_ring [of b r n] by auto
  with assms(3) have e: "b1 = b'" "snd (ring_put sq (ring_of b n) r)" by auto
  with b1 show "inv b'" by simp
  have "ring_get sq (fst (ring_put sq (ring_of b n) r)) (sq r) = Some r"
    using ring_ok [OF assms(1)] e(2) by (intro seq_ring.get_put_same [OF rings]) auto
  with get_ring [OF \<open>inv b'\<close>, of "seqOf r" n] assms(2) b1(3) e(1) sq_num show "get b' n (seqOf r) = Ret (Some r)" by simp
qed

text \<open>What a buffer holds behind an \<open>add\<close> was offered by it or was there before.\<close>

lemma found_was_added:
  assumes "inv b" "0 \<le> sq r" "add b n r = Ret (b', ok)" "0 < num q" "get b' m q = Ret (Some x)"
  shows "(m = n \<and> x = r) \<or> get b m q = Ret (Some x)"
proof -
  from add_ring [OF assms(1,2), of n] assms(3) have b': "inv b'" "ring_of b' = (ring_of b)(n := fst (ring_put sq (ring_of b n) r))"
    by auto
  have g: "ring_get sq (ring_of b' m) (num q) = Some x" using get_ring [OF b'(1) assms(4), of m] assms(5) by simp
  have ne: "ring_of b n \<noteq> []" using ring_ok [OF assms(1), of n] by (auto simp: ring_inv_def)
  from seq_ring.put_slot [OF rings ne ring_slot_less [OF ne, of "num q"], of r]
  show ?thesis using g get_ring [OF assms(1,4), of m] b'(2)
    by (cases "m = n") (auto simp: ring_get_def Let_def split: if_splits)
qed

end

end
