(* ===== verification/Proto.thy ===== *)
theory Proto
  imports Go_Prelude
begin

text \<open>
  The messages of the gRPC interface (\<open>proto/main.pb.go\<close>) and their nil-safe getters.  The
  verdict is a protobuf enumeration: an \<open>int32\<close> with four named values, and any other value can
  arrive on the wire.
\<close>

type_synonym ValidationResult = int

definition VR_NIL :: ValidationResult where "VR_NIL = 0"

definition VR_ACCEPT :: ValidationResult where "VR_ACCEPT = 1"

definition VR_IGNORE :: ValidationResult where "VR_IGNORE = 2"

definition VR_REJECT :: ValidationResult where "VR_REJECT = 3"

lemmas VR_defs = VR_NIL_def VR_ACCEPT_def VR_IGNORE_def VR_REJECT_def

record PublishRequest =
  pr_Topic :: string
  pr_Data :: bytes

record PublishResponse =
  prs_MessageId :: string

record SubscribeRequest =
  sr_Topic :: string

record Message =
  msg_MessageId :: string
  msg_Topic :: string
  msg_Data :: bytes

record ValidatedMessage =
  vm_Result :: ValidationResult
  vm_Msg :: "Message option"

definition PublishRequest_GetTopic :: "PublishRequest option \<Rightarrow> string" where
  "PublishRequest_GetTopic x = (case x of Some x \<Rightarrow> pr_Topic x | None \<Rightarrow> [])"

definition PublishRequest_GetData :: "PublishRequest option \<Rightarrow> bytes" where
  "PublishRequest_GetData x = (case x of Some x \<Rightarrow> pr_Data x | None \<Rightarrow> [])"

definition SubscribeRequest_GetTopic :: "SubscribeRequest option \<Rightarrow> string" where
  "SubscribeRequest_GetTopic x = (case x of Some x \<Rightarrow> sr_Topic x | None \<Rightarrow> [])"

definition Message_GetMessageId :: "Message option \<Rightarrow> string" where
  "Message_GetMessageId x = (case x of Some x \<Rightarrow> msg_MessageId x | None \<Rightarrow> [])"

definition Message_GetTopic :: "Message option \<Rightarrow> string" where
  "Message_GetTopic x = (case x of Some x \<Rightarrow> msg_Topic x | None \<Rightarrow> [])"

definition Message_GetData :: "Message option \<Rightarrow> bytes" where
  "Message_GetData x = (case x of Some x \<Rightarrow> msg_Data x | None \<Rightarrow> [])"

definition ValidatedMessage_GetResult :: "ValidatedMessage option \<Rightarrow> ValidationResult" where
  "ValidatedMessage_GetResult x = (case x of Some x \<Rightarrow> vm_Result x | None \<Rightarrow> VR_NIL)"

definition ValidatedMessage_GetMsg :: "ValidatedMessage option \<Rightarrow> Message option" where
  "ValidatedMessage_GetMsg x = (case x of Some x \<Rightarrow> vm_Msg x | None \<Rightarrow> None)"

end
