(* ===== verification/Bls_Report_Buffer.thy ===== *)
theory Bls_Report_Buffer
  imports Report_Ring Proto Go_Strings
begin

text \<open>
  The report buffer of the BLS example (\<open>examples/bls/reportbuf.go\<close>, \<open>report.go\<close>): a map from
  network to a ring of signed reports with unsigned 64-bit sequence numbers, and the sequence
  validation on top of it.  Every method but \<open>Lookup\<close> runs under the buffer's lock.
\<close>

section \<open>State\<close>

record SignedReport =
  bsr_Network :: string
  bsr_Data :: bytes
  bsr_SigHex :: string
  bsr_SeqNumber :: u64
  bsr_SignerID :: u64

definition zeroReport :: SignedReport where
  "zeroReport = \<lparr>bsr_Network = [], bsr_Data = [], bsr_SigHex = [], bsr_SeqNumber = 0, bsr_SignerID = 0\<rparr>"

text \<open>\<open>reports\<close> is a nil map (\<open>None\<close>) until the first \<open>Add\<close>.\<close>

record BlsBuffer =
  bb_reports :: "(string \<Rightarrow> SignedReport list option) option"
  bb_bufferSize :: int

definition reportBufferSize :: int where "reportBufferSize = 128"

definition skipThreshold :: u64 where "skipThreshold = 5"

definition invalidThreshold :: u64 where "invalidThreshold = 25"

section \<open>Operations\<close>

definition NewReportBuffer :: "int \<Rightarrow> BlsBuffer" where
  "NewReportBuffer bufferSize = \<lparr>bb_reports = None, bb_bufferSize = bufferSize\<rparr>"

text \<open>\<open>rb.reports[net]\<close>: reading a nil map or a missing key gives a nil slice.\<close>

definition read_buf :: "BlsBuffer \<Rightarrow> string \<Rightarrow> SignedReport list" where
  "read_buf rb net = (case bb_reports rb of None \<Rightarrow> [] | Some m \<Rightarrow> (case m net of None \<Rightarrow> [] | Some b \<Rightarrow> b))"

text \<open>\<open>if len(buf) == 0 { buf = make([]SignedReport, rb.bufferSize) }\<close>\<close>

definition alloc_buf :: "int \<Rightarrow> SignedReport list \<Rightarrow> SignedReport list go" where
  "alloc_buf n buf = (if length buf = 0 then go_make n zeroReport else Ret buf)"

definition Add :: "BlsBuffer \<Rightarrow> string \<Rightarrow> SignedReport \<Rightarrow> (BlsBuffer \<times> bool) go" where
  "Add rb net sr =
     (let reports = (case bb_reports rb of None \<Rightarrow> (\<lambda>_. None) | Some m \<Rightarrow> m);
          rb = rb\<lparr>bb_reports := Some reports\<rparr>;
          buf = read_buf rb net in
      go_bind (alloc_buf (bb_bufferSize rb) buf) (\<lambda>buf.
      go_bind (umod64 (bsr_SeqNumber sr) (word_of_int (bb_bufferSize rb))) (\<lambda>i.
      go_bind (slice_get buf (uint i)) (\<lambda>old.
        if bsr_SeqNumber old < bsr_SeqNumber sr
        then go_bind (slice_set buf (uint i) sr) (\<lambda>buf.
               Ret (rb\<lparr>bb_reports := Some (reports(net \<mapsto> buf))\<rparr>, True))
        else Ret (rb, False)))))"

text \<open>
  \<open>GetAll\<close> appends the address of the loop variable.  In the module's Go version (1.21) the
  loop has one variable for all iterations, so the result is a list of equal pointers to the
  cell that holds the last element read.  The model returns the cell and one entry per
  appended pointer.
\<close>

fun getall_loop :: "SignedReport list \<Rightarrow> SignedReport \<Rightarrow> unit list \<Rightarrow> SignedReport \<times> unit list" where
  "getall_loop [] r ps = (r, ps)"
| "getall_loop (x # xs) r ps = (let r = x in getall_loop xs r (if bsr_SeqNumber r \<noteq> 0 then ps @ [()] else ps))"

definition GetAll :: "BlsBuffer \<Rightarrow> string \<Rightarrow> SignedReport \<times> unit list" where
  "GetAll rb net = (let buf = read_buf rb net in
     if length buf = 0 then (zeroReport, []) else getall_loop buf zeroReport [])"

text \<open>What the caller reads through the returned pointers.\<close>

definition deref_all :: "SignedReport \<times> unit list \<Rightarrow> SignedReport list" where
  "deref_all res = map (\<lambda>_. fst res) (snd res)"

definition Get :: "BlsBuffer \<Rightarrow> string \<Rightarrow> u64 \<Rightarrow> SignedReport option go" where
  "Get rb net seq =
     (case bb_reports rb of
        None \<Rightarrow> Ret None
      | Some _ \<Rightarrow>
          (let buf = read_buf rb net in
           if length buf = 0 then Ret None
           else go_bind (umod64 seq (word_of_int (bb_bufferSize rb))) (\<lambda>i.
                go_bind (slice_get buf (uint i)) (\<lambda>r.
                  Ret (if bsr_SeqNumber r = seq then Some r else None)))))"

text \<open>
  \<open>Lookup\<close> ranges over the map: the order of the keys is chosen by the run time and is the
  argument \<open>ids\<close>, an enumeration of the keys.
\<close>

fun lookup_loop :: "(string \<Rightarrow> SignedReport list option) \<Rightarrow> u64 \<Rightarrow> u64 \<Rightarrow> string list \<Rightarrow> string list go" where
  "lookup_loop m i seq [] = Ret []"
| "lookup_loop m i seq (x # xs) =
     go_bind (slice_get (case m x of None \<Rightarrow> [] | Some b \<Rightarrow> b) (uint i)) (\<lambda>r.
     go_bind (lookup_loop m i seq xs) (\<lambda>rest.
       Ret (if bsr_SeqNumber r = seq then x # rest else rest)))"

definition Lookup :: "string list \<Rightarrow> BlsBuffer \<Rightarrow> u64 \<Rightarrow> string list go" where
  "Lookup ids rb seq =
     (case bb_reports rb of
        None \<Rightarrow> Ret []
      | Some m \<Rightarrow>
          if length ids = 0 then Ret []
          else go_bind (umod64 seq (word_of_int (bb_bufferSize rb))) (\<lambda>i. lookup_loop m i seq ids))"

fun latest_loop :: "SignedReport list \<Rightarrow> SignedReport \<Rightarrow> SignedReport" where
  "latest_loop [] latest = latest"
| "latest_loop (r # rs) latest =
     latest_loop rs (if bsr_SeqNumber r > bsr_SeqNumber latest then r else latest)"

text \<open>An empty map and a missing key both end in the empty slice.\<close>

definition getLatest :: "BlsBuffer \<Rightarrow> string \<Rightarrow> SignedReport option" where
  "getLatest rb net = (let buf = read_buf rb net in
     if length buf = 0 then None else Some (latest_loop buf zeroReport))"

definition ValidateSequence :: "BlsBuffer \<Rightarrow> SignedReport \<Rightarrow> ValidationResult go" where
  "ValidateSequence rb sr =
     (let tail = go_bind (Get rb (bsr_Network sr) (bsr_SeqNumber sr)) (\<lambda>r.
                   Ret (case r of Some _ \<Rightarrow> VR_IGNORE | None \<Rightarrow> VR_ACCEPT)) in
      case getLatest rb (bsr_Network sr) of
        Some latest \<Rightarrow>
          (let diff = bsr_SeqNumber sr - bsr_SeqNumber latest in
           if diff > invalidThreshold then Ret VR_REJECT
           else if diff > skipThreshold then Ret VR_IGNORE
           else tail)
      | None \<Rightarrow> tail)"

section \<open>Invariant and refinement\<close>

definition bseq :: "SignedReport \<Rightarrow> int" where "bseq r = uint (bsr_SeqNumber r)"

definition bb_size :: "BlsBuffer \<Rightarrow> nat" where "bb_size rb = nat (bb_bufferSize rb)"

text \<open>The ring of a network; a ring not yet allocated is empty.\<close>

definition bb_ring :: "BlsBuffer \<Rightarrow> string \<Rightarrow> SignedReport list" where
  "bb_ring rb net = (let b = read_buf rb net in if b = [] then replicate (bb_size rb) zeroReport else b)"

definition bb_inv :: "BlsBuffer \<Rightarrow> bool" where
  "bb_inv rb \<longleftrightarrow> 0 < bb_bufferSize rb \<and> bb_bufferSize rb < 2 ^ 63 \<and>
     (\<forall>net. read_buf rb net \<noteq> [] \<longrightarrow>
        length (read_buf rb net) = bb_size rb \<and> ring_inv bseq (read_buf rb net)) \<and>
     (\<forall>m net b. bb_reports rb = Some m \<longrightarrow> m net = Some b \<longrightarrow> (\<exists>r \<in> set b. bseq r \<noteq> 0))"

interpretation bls: seq_ring bseq zeroReport
  by unfold_locales (simp add: bseq_def zeroReport_def)

lemma bb_size_word:
  assumes "bb_inv rb"
  shows "uint (word_of_int (bb_bufferSize rb) :: u64) = bb_bufferSize rb"
    "(word_of_int (bb_bufferSize rb) :: u64) \<noteq> 0" "int (bb_size rb) = bb_bufferSize rb"
proof -
  show u: "uint (word_of_int (bb_bufferSize rb) :: u64) = bb_bufferSize rb"
    using assms by (simp add: bb_inv_def uint_word_of_int)
  then show "(word_of_int (bb_bufferSize rb) :: u64) \<noteq> 0"
    using assms by (auto simp: bb_inv_def)
  show "int (bb_size rb) = bb_bufferSize rb" using assms by (simp add: bb_size_def bb_inv_def)
qed

lemma bb_umod:
  assumes "bb_inv rb"
  shows "\<exists>i. umod64 s (word_of_int (bb_bufferSize rb)) = Ret i \<and> uint i = uint s mod bb_bufferSize rb"
  using bb_size_word [OF assms] by (auto simp: umod64_def uint_mod)

lemma bb_ring_ok:
  assumes "bb_inv rb"
  shows "ring_inv bseq (bb_ring rb net)" "length (bb_ring rb net) = bb_size rb"
proof -
  have "0 < bb_size rb" using assms by (simp add: bb_inv_def bb_size_def)
  with assms bls.inv_new show "ring_inv bseq (bb_ring rb net)" "length (bb_ring rb net) = bb_size rb"
    by (auto simp: bb_ring_def bb_inv_def Let_def)
qed

lemma read_buf_upd:
  "read_buf (rb\<lparr>bb_reports := Some (m(n \<mapsto> b))\<rparr>) = (read_buf (rb\<lparr>bb_reports := Some m\<rparr>))(n := b)"
  by (auto simp: read_buf_def fun_eq_iff)

lemma read_buf_make:
  "read_buf (rb\<lparr>bb_reports := Some (case bb_reports rb of None \<Rightarrow> (\<lambda>_. None) | Some m \<Rightarrow> m)\<rparr>) = read_buf rb"
  by (auto simp: read_buf_def fun_eq_iff split: option.splits)

lemma bb_make:
  assumes "bb_inv rb"
  shows "alloc_buf (bb_bufferSize rb) (read_buf rb net) = Ret (bb_ring rb net)"
  using assms by (auto simp: alloc_buf_def bb_ring_def bb_inv_def go_make_def bb_size_def Let_def)

lemma Add_ring:
  assumes inv: "bb_inv rb"
  shows "\<exists>rb'. Add rb net r = Ret (rb', snd (ring_put bseq (bb_ring rb net) r)) \<and> bb_inv rb'
     \<and> bb_size rb' = bb_size rb
     \<and> bb_ring rb' = (bb_ring rb)(net := fst (ring_put bseq (bb_ring rb net) r))"
proof -
  let ?m = "case bb_reports rb of None \<Rightarrow> (\<lambda>_. None) | Some m \<Rightarrow> m"
  let ?rb = "rb\<lparr>bb_reports := Some ?m\<rparr>" and ?ring = "bb_ring rb net"
  define k where "k = nat (bseq r mod int (length ?ring))"
  obtain i where i: "umod64 (bsr_SeqNumber r) (word_of_int (bb_bufferSize rb)) = Ret i"
    "uint i = bseq r mod bb_bufferSize rb" using bb_umod [OF inv] by (auto simp: bseq_def)
  note ok = bb_ring_ok [OF inv, of net]
  then have ne: "?ring \<noteq> []" by (auto simp: ring_inv_def)
  have "0 \<le> bseq r mod bb_bufferSize rb" using inv by (simp add: bb_inv_def)
  then have k: "uint i = int k" "k < length ?ring"
    using i(2) ok(2) bb_size_word(3) [OF inv] ring_slot_less [OF ne]
    by (simp_all add: k_def)
  have lt: "bsr_SeqNumber a < bsr_SeqNumber b \<longleftrightarrow> bseq a < bseq b" for a b
    by (simp add: bseq_def word_less_def)
  have add: "Add rb net r = (if bseq (?ring ! k) < bseq r
      then Ret (?rb\<lparr>bb_reports := Some (?m(net \<mapsto> ?ring[k := r]))\<rparr>, True) else Ret (?rb, False))"
    using k by (simp add: Add_def Let_def read_buf_make lt bb_make [OF inv] i(1))
  have r1: "read_buf ?rb = read_buf rb" by (rule read_buf_make)
  have kept: "?m n = Some b \<Longrightarrow> \<exists>r \<in> set b. bseq r \<noteq> 0" for n b
    using inv by (auto simp: bb_inv_def split: option.splits)
  show ?thesis
  proof (cases "bseq (?ring ! k) < bseq r")
    case False
    have "bb_inv ?rb" using inv r1 kept by (simp add: bb_inv_def bb_size_def)
    moreover have "bb_ring ?rb = bb_ring rb" using r1 by (simp add: bb_ring_def bb_size_def fun_eq_iff Let_def)
    ultimately have "bb_inv ?rb" "bb_ring ?rb = bb_ring rb" .
    with False add show ?thesis by (auto simp: ring_put_def bb_size_def simp flip: k_def)
  next
    case True
    let ?rb' = "?rb\<lparr>bb_reports := Some (?m(net \<mapsto> ?ring[k := r]))\<rparr>"
    have r2: "read_buf ?rb' = (read_buf rb)(net := ?ring[k := r])"
      using r1 read_buf_upd [where rb = rb and m = ?m and n = net and b = "?ring[k := r]"] by simp
    have "ring_inv bseq (fst (ring_put bseq ?ring r))"
      using ok(1) by (rule bls.inv_put) (simp add: bseq_def)
    with True have p: "ring_inv bseq (?ring[k := r])" by (simp add: ring_put_def flip: k_def)
    have "r \<in> set (?ring[k := r])" "bseq r \<noteq> 0"
      using k(2) True ok(1) by (auto simp: set_update_memI ring_inv_def)
    then have "bb_inv ?rb'" using inv r2 p ok(2) ne kept by (auto simp: bb_inv_def bb_size_def)
    moreover have "bb_ring ?rb' = (bb_ring rb)(net := ?ring[k := r])"
      using r2 ne by (auto simp: bb_ring_def fun_eq_iff bb_size_def Let_def)
    ultimately show ?thesis using True add by (auto simp: ring_put_def bb_size_def simp flip: k_def)
  qed
qed

lemma bseq_nonneg [simp]: "0 \<le> bseq r"
  by (simp add: bseq_def)

lemma Get_ring:
  assumes inv: "bb_inv rb" and pos: "0 < uint q"
  shows "Get rb net q = Ret (ring_get bseq (bb_ring rb net) (uint q))"
proof -
  obtain i where i: "umod64 q (word_of_int (bb_bufferSize rb)) = Ret i"
    "uint i = uint q mod bb_bufferSize rb" using bb_umod [OF inv] by auto
  define k where "k = nat (uint q mod int (length (bb_ring rb net)))"
  note ok = bb_ring_ok [OF inv, of net]
  then have ne: "bb_ring rb net \<noteq> []" by (auto simp: ring_inv_def)
  have "0 \<le> uint q mod bb_bufferSize rb" using inv by (simp add: bb_inv_def)
  then have k: "uint i = int k" "k < length (bb_ring rb net)"
    using i(2) ok(2) bb_size_word(3) [OF inv] ring_slot_less [OF ne] by (simp_all add: k_def)
  have eq: "bsr_SeqNumber r = q \<longleftrightarrow> bseq r = uint q" for r by (simp add: bseq_def word_uint_eq_iff)
  show ?thesis
  proof (cases "read_buf rb net = []")
    case True
    then have "bb_ring rb net ! k = zeroReport" using k(2) by (simp add: bb_ring_def)
    with True pos show ?thesis
      by (auto simp: Get_def ring_get_def bls.sq_z simp flip: k_def split: option.splits)
  next
    case False
    then have "read_buf rb net = bb_ring rb net" "bb_reports rb \<noteq> None"
      by (auto simp: bb_ring_def read_buf_def Let_def split: option.splits)
    with ne k i(1) show ?thesis
      by (auto simp: Get_def ring_get_def eq Let_def simp flip: k_def)
  qed
qed

lemma latest_loop_ring: "latest_loop rs l = ring_latest bseq l rs"
proof -
  have "bsr_SeqNumber a < bsr_SeqNumber b \<longleftrightarrow> bseq a < bseq b" for a b
    by (simp add: bseq_def word_less_def)
  then show ?thesis by (induction rs arbitrary: l) auto
qed

lemma getLatest_None_Get: "getLatest rb net = None \<Longrightarrow> Get rb net q = Ret None"
  by (auto simp: getLatest_def Get_def Let_def split: option.splits if_splits)

lemma getLatest_zero:
  assumes "bb_inv rb" "(case getLatest rb net of None \<Rightarrow> 0 | Some r \<Rightarrow> bseq r) = 0"
  shows "getLatest rb net = None"
proof (rule ccontr)
  assume "getLatest rb net \<noteq> None"
  then have ne: "read_buf rb net \<noteq> []" "getLatest rb net = Some (latest_loop (read_buf rb net) zeroReport)"
    by (auto simp: getLatest_def Let_def)
  then obtain r where "r \<in> set (read_buf rb net)" "bseq r \<noteq> 0"
    using assms(1) by (fastforce simp: bb_inv_def read_buf_def split: option.splits)
  moreover have "bseq r \<le> bseq (latest_loop (read_buf rb net) zeroReport)" if "r \<in> set (read_buf rb net)" for r
    using that ring_latest_ge [of bseq zeroReport] by (simp add: latest_loop_ring)
  ultimately show False using assms(2) ne(2) bseq_nonneg [of r] by fastforce
qed

lemma ring_latest_replicate: "ring_latest bseq zeroReport (replicate n zeroReport) = zeroReport"
  by (induction n) auto

lemma getLatest_ring:
  "(case getLatest rb net of None \<Rightarrow> 0 | Some r \<Rightarrow> bseq r)
     = bseq (ring_latest bseq zeroReport (bb_ring rb net))"
  by (auto simp: getLatest_def bb_ring_def Let_def latest_loop_ring ring_latest_replicate bls.sq_z)

interpretation bls_store: report_store Add Get getLatest bb_inv bsr_SeqNumber uint bseq zeroReport
    bb_size bb_ring
proof unfold_locales
  show "bseq r = uint (bsr_SeqNumber r)" for r by (simp add: bseq_def)
  show "bseq zeroReport = 0" by (rule bls.sq_z)
  show "0 < bb_size b" if "bb_inv b" for b using that by (simp add: bb_inv_def bb_size_def)
  show "ring_inv bseq (bb_ring b n) \<and> length (bb_ring b n) = bb_size b" if "bb_inv b" for b n
    using that by (simp add: bb_ring_ok)
  show "\<exists>b'. Add b n r = Ret (b', snd (ring_put bseq (bb_ring b n) r)) \<and> bb_inv b' \<and> bb_size b' = bb_size b
      \<and> bb_ring b' = (bb_ring b)(n := fst (ring_put bseq (bb_ring b n) r))" if "bb_inv b" for b n r
    using that by (rule Add_ring)
  show "Get b n q = Ret (ring_get bseq (bb_ring b n) (uint q))" if "bb_inv b" "0 < uint q" for b n q
    using that by (rule Get_ring)
  show "(case getLatest b n of None \<Rightarrow> 0 | Some r \<Rightarrow> bseq r)
      = bseq (ring_latest bseq zeroReport (bb_ring b n))" for b n
    by (rule getLatest_ring)
qed

lemma bb_inv_new: "0 < n \<Longrightarrow> n < 2 ^ 63 \<Longrightarrow> bb_inv (NewReportBuffer n)"
  by (simp add: bb_inv_def NewReportBuffer_def read_buf_def)

lemma bb_ring_new: "bb_ring (NewReportBuffer n) net = replicate (nat n) zeroReport"
  by (simp add: bb_ring_def NewReportBuffer_def read_buf_def bb_size_def)

text \<open>The ring of a network after a history of \<open>Add\<close> calls on a fresh buffer.\<close>

lemma adds_from_new:
  assumes "0 < n" "n < 2 ^ 63"
  obtains rb where "store_adds Add (NewReportBuffer n) xs = Ret rb" "bb_inv rb"
    "bb_ring rb net = ring_run bseq zeroReport (nat n) (map snd (filter (\<lambda>(m, r). m = net) xs))"
proof -
  have "\<forall>(m, r) \<in> set xs. 0 \<le> bseq r" by auto
  from bls_store.adds_ring [OF bb_inv_new [OF assms] this, of net] that show thesis
    by (auto simp: ring_run_def bb_ring_new)
qed

lemma Lookup_loop_ring:
  assumes inv: "bb_inv rb" and m: "bb_reports rb = Some m" and ids: "\<forall>x \<in> set ids. m x \<noteq> None"
    and i: "umod64 q (word_of_int (bb_bufferSize rb)) = Ret i"
  shows "lookup_loop m i q ids = Ret (filter (\<lambda>x. \<exists>r. Get rb x q = Ret (Some r)) ids)"
  using ids
proof (induction ids)
  case (Cons x xs)
  then obtain b where b: "m x = Some b" by auto
  then have rb: "read_buf rb x = b" "b \<noteq> []" using inv m by (fastforce simp: read_buf_def bb_inv_def)+
  then have len: "int (length b) = bb_bufferSize rb"
    using inv bb_size_word(3) [OF inv] by (auto simp: bb_inv_def)
  have "uint i = uint q mod bb_bufferSize rb" using bb_umod [OF inv, of q] i by auto
  then have "slice_get b (uint i) = Ret (b ! nat (uint i))"
    using inv len by (auto simp: slice_get_def bb_inv_def)
  with Cons b rb m i show ?case by (auto simp: Get_def)
qed simp

text \<open>What was offered for a network, and the greatest number among it.\<close>

definition offered :: "string \<Rightarrow> (string \<times> SignedReport) list \<Rightarrow> SignedReport list" where
  "offered net xs = map snd (filter (\<lambda>(m, r). m = net) xs)"

definition newest :: "string \<Rightarrow> (string \<times> SignedReport) list \<Rightarrow> int" where
  "newest net xs = Max (insert 0 (bseq ` set (offered net xs)))"

lemma newest_ge: "0 \<le> newest net xs" "r \<in> set (offered net xs) \<Longrightarrow> bseq r \<le> newest net xs"
  by (simp_all add: newest_def)

lemma newest_mem:
  assumes "0 < newest net xs"
  obtains r where "r \<in> set (offered net xs)" "bseq r = newest net xs"
proof -
  have "newest net xs \<in> insert 0 (bseq ` set (offered net xs))"
    unfolding newest_def by (rule Max_in) auto
  with assms that show thesis by auto
qed

lemma newest_less: "newest net xs < 2 ^ 64"
proof (cases "newest net xs = 0")
  case False
  then obtain r where "bseq r = newest net xs" using newest_mem newest_ge(1) by (metis order_le_less)
  then show ?thesis using uint_lt2p [of "bsr_SeqNumber r"] by (simp add: bseq_def)
qed simp

lemma history:
  assumes "0 < n" "n < 2 ^ 63" "store_adds Add (NewReportBuffer n) xs = Ret rb"
  shows "bb_inv rb"
    and "(case getLatest rb net of None \<Rightarrow> 0 | Some r \<Rightarrow> bseq r) = newest net xs"
    and "s \<noteq> 0 \<Longrightarrow> Get rb net s = Ret (Some r) \<longleftrightarrow>
          find (\<lambda>x. bsr_SeqNumber x = s) (offered net xs) = Some r \<and>
          (\<forall>x \<in> set (offered net xs). bseq x mod n = uint s mod n \<longrightarrow> bseq x \<le> uint s)"
proof -
  have rb: "bb_inv rb" "bb_ring rb net = ring_run bseq zeroReport (nat n) (offered net xs)"
    using adds_from_new [OF assms(1,2), of xs net] assms(3) by (auto simp: offered_def)
  have n: "0 < nat n" using assms by simp
  show "bb_inv rb" by (rule rb(1))
  show "(case getLatest rb net of None \<Rightarrow> 0 | Some r \<Rightarrow> bseq r) = newest net xs"
    by (simp add: getLatest_ring rb bls.run_latest [OF n] newest_def)
  have eq: "bsr_SeqNumber x = s \<longleftrightarrow> bseq x = uint s" for x s
    by (simp add: bseq_def word_uint_eq_iff)
  assume "s \<noteq> 0"
  then have "0 < uint s" by (simp add: word_neq_0_conv word_less_def)
  with rb n assms(1) show "Get rb net s = Ret (Some r) \<longleftrightarrow>
          find (\<lambda>x. bsr_SeqNumber x = s) (offered net xs) = Some r \<and>
          (\<forall>x \<in> set (offered net xs). bseq x mod n = uint s mod n \<longrightarrow> bseq x \<le> uint s)"
    by (simp add: Get_ring bls.run_get eq)
qed

lemma history_Get:
  assumes "0 < n" "n < 2 ^ 63" "store_adds Add (NewReportBuffer n) xs = Ret rb" "0 < newest net xs"
    "newest net xs \<le> uint s"
  shows "uint s = newest net xs \<Longrightarrow> \<exists>r. Get rb net s = Ret (Some r)"
    and "newest net xs < uint s \<Longrightarrow> Get rb net s = Ret None"
proof -
  have pos: "0 < uint s" using assms(4,5) by simp
  then have nz: "s \<noteq> 0" by auto
  note get = history(3) [OF assms(1-3) nz, of net]
  have eq: "bsr_SeqNumber x = s \<longleftrightarrow> bseq x = uint s" for x by (simp add: bseq_def word_uint_eq_iff)
  {
    assume s: "uint s = newest net xs"
    obtain r where "r \<in> set (offered net xs)" "bsr_SeqNumber r = s"
      using newest_mem [OF assms(4)] s eq by metis
    then obtain r' where "find (\<lambda>x. bsr_SeqNumber x = s) (offered net xs) = Some r'"
      by (cases "find (\<lambda>x. bsr_SeqNumber x = s) (offered net xs)") (auto simp: find_None_iff)
    with get newest_ge(2) [of _ net xs] s show "\<exists>r. Get rb net s = Ret (Some r)" by auto
  next
    assume s: "newest net xs < uint s"
    have "find (\<lambda>x. bsr_SeqNumber x = s) (offered net xs) = None"
      using newest_ge(2) [of _ net xs] s by (fastforce simp: find_None_iff eq)
    with get Get_ring [OF history(1) [OF assms(1-3)] pos, of net] show "Get rb net s = Ret None"
      by (cases "ring_get bseq (bb_ring rb net) (uint s)") auto
  }
qed

section \<open>Properties\<close>

text \<open>C11: the buffer against its history.  After any sequence of \<open>Add\<close> calls on a new buffer no
  call has panicked; for every network, \<open>getLatest\<close> has the greatest sequence number ever offered
  for it, and \<open>Get\<close> finds exactly the reports that were the first offered with their number and
  were not displaced by a newer one in the same slot.\<close>

theorem bls_buffer_history:
  assumes "0 < n" and "n < 2 ^ 63"
  shows "\<exists>rb. store_adds Add (NewReportBuffer n) xs = Ret rb \<and>
    (\<forall>net. (case getLatest rb net of None \<Rightarrow> 0 | Some r \<Rightarrow> bseq r) = newest net xs \<and>
       (\<forall>s r. s \<noteq> 0 \<longrightarrow> (Get rb net s = Ret (Some r) \<longleftrightarrow>
          find (\<lambda>x. bsr_SeqNumber x = s) (offered net xs) = Some r \<and>
          (\<forall>x \<in> set (offered net xs). bseq x mod n = uint s mod n \<longrightarrow> bseq x \<le> uint s))))"
proof -
  obtain rb where rb: "store_adds Add (NewReportBuffer n) xs = Ret rb"
    using adds_from_new [OF assms, of xs] by metis
  with history [OF assms rb] show ?thesis by blast
qed

theorem bls_buffer_history_witness:
  "\<exists>rb. store_adds Add (NewReportBuffer 4)
      [(''a'', zeroReport\<lparr>bsr_SeqNumber := 1\<rparr>), (''a'', zeroReport\<lparr>bsr_SeqNumber := 5\<rparr>),
       (''a'', zeroReport\<lparr>bsr_SeqNumber := 2\<rparr>)] = Ret rb
    \<and> Get rb ''a'' 2 = Ret (Some (zeroReport\<lparr>bsr_SeqNumber := 2\<rparr>))"
  using bls_buffer_history [of 4 "[(''a'', zeroReport\<lparr>bsr_SeqNumber := 1\<rparr>),
      (''a'', zeroReport\<lparr>bsr_SeqNumber := 5\<rparr>), (''a'', zeroReport\<lparr>bsr_SeqNumber := 2\<rparr>)]"]
  by (fastforce simp: offered_def bseq_def simp del: store_adds.simps)



text \<open>\<open>Lookup\<close> returns, for any order in which the map is read, exactly the keys under which
  \<open>Get\<close> finds a report with that sequence number, in that order; it does not panic.\<close>

theorem bls_lookup_exact:
  assumes "0 < n" "n < 2 ^ 63" "store_adds Add (NewReportBuffer n) xs = Ret rb"
    and "\<forall>m. bb_reports rb = Some m \<longrightarrow> set ids = dom m"
  shows "Lookup ids rb s = Ret (if bb_reports rb = None then []
     else filter (\<lambda>x. \<exists>r. Get rb x s = Ret (Some r)) ids)"
proof -
  note inv = history(1) [OF assms(1-3)]
  obtain i where i: "umod64 s (word_of_int (bb_bufferSize rb)) = Ret i" using bb_umod [OF inv] by blast
  show ?thesis
  proof (cases "bb_reports rb")
    case (Some m)
    with assms(4) have "\<forall>x \<in> set ids. m x \<noteq> None" by auto
    from Lookup_loop_ring [OF inv Some this i] i Some show ?thesis by (simp add: Lookup_def)
  qed (simp add: Lookup_def)
qed

theorem bls_lookup_exact_witness:
  "\<exists>rb. store_adds Add (NewReportBuffer 3) [(''1'', zeroReport\<lparr>bsr_SeqNumber := 7\<rparr>)] = Ret rb
    \<and> Lookup [''1''] rb 7 = Ret [''1'']"
proof -
  let ?r = "zeroReport\<lparr>bsr_SeqNumber := 7\<rparr>"
  let ?m = "[''1'' \<mapsto> [zeroReport, ?r, zeroReport]]"
  let ?rb = "\<lparr>bb_reports = Some ?m, bb_bufferSize = 3\<rparr>"
  have rb: "store_adds Add (NewReportBuffer 3) [(''1'', ?r)] = Ret ?rb"
    by (simp add: Add_def NewReportBuffer_def read_buf_def alloc_buf_def go_defs zeroReport_def
        numeral_3_eq_3 Let_def)
  have "\<exists>r. Get ?rb ''1'' 7 = Ret (Some r)"
    by (simp add: Get_def read_buf_def go_defs)
  with bls_lookup_exact [OF _ _ rb, of "[''1'']" 7] rb show ?thesis
    by (simp del: store_adds.simps)
qed

lemma getall_loop_last:
  "getall_loop xs r ps = (last (r # xs), ps @ replicate (length (filter (\<lambda>x. bsr_SeqNumber x \<noteq> 0) xs)) ())"
proof (induction xs arbitrary: r ps)
  case (Cons x xs)
  have "ps @ () # replicate k () = ps @ replicate k () @ [()]" for k
    by (simp add: replicate_append_same)
  then show ?case by (simp add: Cons.IH)
qed simp

text \<open>\<open>GetAll\<close> has one entry for every stored report, but every entry is a pointer to the one
  loop variable: the caller reads the last slot of the ring each time, which is the zero report
  when that slot is still empty.\<close>

theorem bls_GetAll_aliases:
  assumes "read_buf rb net = buf" and "buf \<noteq> []"
  shows "deref_all (GetAll rb net) = replicate (length (filter (\<lambda>x. bsr_SeqNumber x \<noteq> 0) buf)) (last buf)"
  using assms by (simp add: GetAll_def deref_all_def getall_loop_last)

theorem bls_GetAll_aliases_witness:
  "\<exists>rb. store_adds Add (NewReportBuffer 3) [(''a'', zeroReport\<lparr>bsr_SeqNumber := 1\<rparr>)] = Ret rb
    \<and> deref_all (GetAll rb ''a'') = [zeroReport]"
proof -
  let ?xs = "[(''a'', zeroReport\<lparr>bsr_SeqNumber := 1\<rparr>)]"
  obtain rb where rb: "store_adds Add (NewReportBuffer 3) ?xs = Ret rb" using adds_from_new [of 3 ?xs] by auto
  then have "read_buf rb ''a'' = [zeroReport, zeroReport\<lparr>bsr_SeqNumber := 1\<rparr>, zeroReport]"
    by (auto simp: Add_def NewReportBuffer_def read_buf_def alloc_buf_def go_defs zeroReport_def numeral_3_eq_3)
  from bls_GetAll_aliases [OF this] rb show ?thesis by (simp add: zeroReport_def del: store_adds.simps)
qed

end
