(* ===== verification/Bls_Node.thy ===== *)
theory Bls_Node
  imports Bls_Report_Buffer "HOL-Library.AList" "HOL-Library.List_Lexorder" "HOL-Library.Char_ord"
begin

text \<open>
  The node of the BLS example (\<open>examples/bls/node.go\<close>, \<open>node_internalnet.go\<close>, \<open>share.go\<close>,
  \<open>store.go\<close>, \<open>reconstruct.go\<close>, \<open>gen.go\<close>): validation of reports, the internal signing network
  (leader, partial signatures, quorum, reconstruction) and the generation of key shares.

  The BLS library, the JSON codec and the gRPC connection are the parameters of \<open>bls_env\<close>.
  The bodies given to \<open>threadC.Go\<close> are values of \<open>task\<close>: a handler returns the goroutines it
  starts and \<open>run_task\<close> runs one.  Each runs without interruption; their order is free.
\<close>

section \<open>Environment and state\<close>

record ('pk, 'sk, 'sig, 'id) bls_env =
  SignByte :: "'sk \<Rightarrow> bytes \<Rightarrow> 'sig"
  VerifyByte :: "'sig \<Rightarrow> 'pk \<Rightarrow> bytes \<Rightarrow> bool"
  DeserializeHexStr :: "string \<Rightarrow> string + 'sig"
  SerializeToHexStr :: "'sig \<Rightarrow> string"
  Serialize :: "'sig \<Rightarrow> bytes"
  Deserialize :: "bytes \<Rightarrow> string + 'sig"
  SetDecString :: "string \<Rightarrow> string + 'id"
  Recover :: "'sig list \<Rightarrow> 'id list \<Rightarrow> string + 'sig"
  MarshalSignedReport :: "SignedReport \<Rightarrow> string + bytes"
  UnmarshalSignedReport :: "bytes \<Rightarrow> string + SignedReport"
  Connect :: err
  PublishRPC :: "PublishRequest \<Rightarrow> err"
  key_order :: "BlsBuffer \<Rightarrow> string list"
  sig_order :: "(u64 \<times> bytes) list \<Rightarrow> (u64 \<times> bytes) list"

text \<open>
  \<open>key_order\<close> and \<open>sig_order\<close> are the orders in which the run time walks over the maps that
  \<open>Lookup\<close> and \<open>ReconstructSigs\<close> range over.
\<close>

record 'a store =
  st_items :: "string \<Rightarrow> 'a option"

definition NewStore :: "'a store" where "NewStore = \<lparr>st_items = (\<lambda>_. None)\<rparr>"

definition store_Add :: "'a store \<Rightarrow> string \<Rightarrow> 'a \<Rightarrow> 'a store" where
  "store_Add s network item = s\<lparr>st_items := (st_items s)(network \<mapsto> item)\<rparr>"

definition store_Get :: "'a store \<Rightarrow> string \<Rightarrow> 'a option" where
  "store_Get s network = st_items s network"

text \<open>The map of signers is an association list with distinct keys.\<close>

record ('pk, 'sk) Share =
  share_SignerID :: u64
  share_SharePublicKey :: 'pk
  share_PrivateKey :: 'sk
  share_Signers :: "(u64 \<times> 'pk) list"

text \<open>\<open>internalReports\<close> holds pointers: \<open>nd_heap\<close> are the buffers they point to.\<close>

record ('pk, 'sk) Node =
  nd_pubstore :: "'pk store"
  nd_reports :: BlsBuffer
  nd_Shares :: "('pk, 'sk) Share store"
  nd_internalReports :: "nat store"
  nd_heap :: "BlsBuffer list"

datatype ('pk, 'sk) task =
    TriggerTask SignedReport
  | InternalTask "('pk, 'sk) Share" SignedReport
  | FinishTask nat SignedReport "string list"

definition NewNode :: "'pk store \<Rightarrow> ('pk, 'sk) Node" where
  "NewNode pubstore = \<lparr>nd_pubstore = pubstore, nd_reports = NewReportBuffer reportBufferSize,
     nd_Shares = NewStore, nd_internalReports = NewStore, nd_heap = []\<rparr>"

section \<open>Shares\<close>

definition Sign :: "('pk, 'sk, 'sig, 'id) bls_env \<Rightarrow> ('pk, 'sk) Share \<Rightarrow> SignedReport \<Rightarrow> SignedReport" where
  "Sign env share sr =
     sr\<lparr>bsr_SigHex := SerializeToHexStr env (SignByte env (share_PrivateKey share) (bsr_Data sr)),
        bsr_SignerID := share_SignerID share\<rparr>"

definition Share_Validate :: "('pk, 'sk, 'sig, 'id) bls_env \<Rightarrow> ('pk, 'sk) Share \<Rightarrow> SignedReport \<Rightarrow> bool" where
  "Share_Validate env share sr =
     (case map_of (share_Signers share) (bsr_SignerID sr) of
        None \<Rightarrow> False
      | Some pk \<Rightarrow> (case DeserializeHexStr env (bsr_SigHex sr) of
            Inl _ \<Rightarrow> False
          | Inr sign \<Rightarrow> if VerifyByte env sign pk (bsr_Data sr) then True else False))"

definition Threshold :: "int \<Rightarrow> int" where
  "Threshold count = (let f = (count - 1) sdiv 3 in count - f)"

definition QuorumCount :: "('pk, 'sk) Share \<Rightarrow> int" where
  "QuorumCount share = Threshold (int (length (share_Signers share)))"

definition RoundRobinLeader :: "u64 \<Rightarrow> (u64 \<times> 'pk) list \<Rightarrow> u64 go" where
  "RoundRobinLeader seq signers = go_bind (umod64 seq (of_nat (length signers))) (\<lambda>i. Ret (i + 1))"

section \<open>Reconstruction\<close>

fun reconstruct_loop :: "('pk, 'sk, 'sig, 'id) bls_env \<Rightarrow> (u64 \<times> bytes) list \<Rightarrow> 'id list \<Rightarrow> 'sig list
    \<Rightarrow> string + ('id list \<times> 'sig list)" where
  "reconstruct_loop env [] idVec sigVec = Inr (idVec, sigVec)"
| "reconstruct_loop env ((index, signature) # xs) idVec sigVec =
     (case SetDecString env (show_u64 index) of
        Inl err \<Rightarrow> Inl err
      | Inr i \<Rightarrow> (case Deserialize env signature of
            Inl err \<Rightarrow> Inl err
          | Inr sig \<Rightarrow> reconstruct_loop env xs (idVec @ [i]) (sigVec @ [sig])))"

definition ReconstructSigs :: "('pk, 'sk, 'sig, 'id) bls_env \<Rightarrow> (u64 \<times> bytes) list \<Rightarrow> string + 'sig" where
  "ReconstructSigs env signatures =
     (case reconstruct_loop env (sig_order env signatures) [] [] of
        Inl err \<Rightarrow> Inl err
      | Inr (idVec, sigVec) \<Rightarrow> Recover env sigVec idVec)"

section \<open>The internal network\<close>

definition quorumCount :: "('pk, 'sk) Node \<Rightarrow> string \<Rightarrow> int" where
  "quorumCount n net = (case store_Get (nd_Shares n) net of None \<Rightarrow> 0 | Some share \<Rightarrow> QuorumCount share)"

definition hasQuorum :: "('pk, 'sk) Node \<Rightarrow> SignedReport \<Rightarrow> string list \<Rightarrow> bool" where
  "hasQuorum n sr signers = (int (length signers) \<ge> quorumCount n (bsr_Network sr))"

definition getLeader :: "('pk, 'sk) Node \<Rightarrow> string \<Rightarrow> u64 \<Rightarrow> u64 go" where
  "getLeader n net seq = (case store_Get (nd_Shares n) net of
      None \<Rightarrow> Ret 0
    | Some share \<Rightarrow> RoundRobinLeader seq (share_Signers share))"

fun processable_loop :: "string \<Rightarrow> string \<Rightarrow> string list \<Rightarrow> bool \<Rightarrow> bool \<Rightarrow> bool \<times> bool" where
  "processable_loop opid leader [] leaderSigned selfSigned = (leaderSigned, selfSigned)"
| "processable_loop opid leader (signer # xs) leaderSigned selfSigned =
     processable_loop opid leader xs (if leader = signer then True else leaderSigned)
       (if opid = signer then True else selfSigned)"

definition isProcessable :: "string \<Rightarrow> string \<Rightarrow> string list \<Rightarrow> bool" where
  "isProcessable opid leader signers =
     (let (leaderSigned, selfSigned) = processable_loop opid leader signers False False
      in leaderSigned \<and> \<not> selfSigned)"

fun collect_loop :: "('pk, 'sk, 'sig, 'id) bls_env \<Rightarrow> u64 \<Rightarrow> BlsBuffer \<Rightarrow> string list \<Rightarrow> (u64 \<times> bytes) list
    \<Rightarrow> (u64 \<times> bytes) list go" where
  "collect_loop env seq reports [] signatures = Ret signatures"
| "collect_loop env seq reports (s # xs) signatures =
     (case ParseUint s of
        None \<Rightarrow> collect_loop env seq reports xs signatures
      | Some i \<Rightarrow> go_bind (Get reports s seq) (\<lambda>rep.
          case rep of
            None \<Rightarrow> collect_loop env seq reports xs signatures
          | Some rep \<Rightarrow> (case DeserializeHexStr env (bsr_SigHex rep) of
                Inl _ \<Rightarrow> collect_loop env seq reports xs signatures
              | Inr sign \<Rightarrow> collect_loop env seq reports xs (AList.update i (Serialize env sign) signatures))))"

definition collectSignatures :: "('pk, 'sk, 'sig, 'id) bls_env \<Rightarrow> u64 \<Rightarrow> BlsBuffer \<Rightarrow> string list
    \<Rightarrow> (u64 \<times> bytes) list go" where
  "collectSignatures env seq reports signers = collect_loop env seq reports signers []"

definition prepareReport :: "('pk, 'sk, 'sig, 'id) bls_env \<Rightarrow> (u64 \<times> bytes) list \<Rightarrow> SignedReport
    \<Rightarrow> string + SignedReport" where
  "prepareReport env signatures sr =
     (case ReconstructSigs env signatures of
        Inl err \<Rightarrow> Inl err
      | Inr sign \<Rightarrow> Inr (sr\<lparr>bsr_SigHex := SerializeToHexStr env sign, bsr_SignerID := 0\<rparr>))"

text \<open>\<open>Broadcast\<close> returns the request it gave to the RPC client, if it got that far.\<close>

definition Broadcast :: "('pk, 'sk, 'sig, 'id) bls_env \<Rightarrow> SignedReport \<Rightarrow> PublishRequest list \<times> err" where
  "Broadcast env report =
     (case Connect env of
        Some e \<Rightarrow> ([], Some e)
      | None \<Rightarrow> (case MarshalSignedReport env report of
            Inl e \<Rightarrow> ([], Some e)
          | Inr data \<Rightarrow>
              (let req = \<lparr>pr_Topic = bsr_Network report, pr_Data = data\<rparr>
               in ([req], PublishRPC env req))))"

definition validateInternalNet :: "('pk, 'sk, 'sig, 'id) bls_env \<Rightarrow> ('pk, 'sk) Node \<Rightarrow> SignedReport
    \<Rightarrow> ValidationResult go" where
  "validateInternalNet env n sr =
     (case store_Get (nd_Shares n) (bsr_Network sr) of
        None \<Rightarrow> Ret VR_IGNORE
      | Some share \<Rightarrow>
          if \<not> Share_Validate env share sr then Ret VR_REJECT
          else (case store_Get (nd_internalReports n) (bsr_Network sr) of
              None \<Rightarrow> Ret VR_ACCEPT
            | Some a \<Rightarrow> go_bind (Get (nd_heap n ! a) (show_u64 (bsr_SignerID sr)) (bsr_SeqNumber sr)) (\<lambda>r.
                Ret (case r of Some _ \<Rightarrow> VR_IGNORE | None \<Rightarrow> VR_ACCEPT))))"

definition consumeInternalNet :: "('pk, 'sk) Node \<Rightarrow> SignedReport \<Rightarrow> ('pk, 'sk) task list \<times> err" where
  "consumeInternalNet n sr =
     (case store_Get (nd_Shares n) (bsr_Network sr) of
        Some share \<Rightarrow> ([InternalTask share sr], None)
      | None \<Rightarrow> ([], None))"

text \<open>\<open>reports, ok := n.internalReports.Get(net)\<close>, and the allocation when it is missing.\<close>

definition internal_buffer :: "('pk, 'sk) Node \<Rightarrow> string \<Rightarrow> ('pk, 'sk) Node \<times> nat" where
  "internal_buffer n net =
     (case store_Get (nd_internalReports n) net of
        Some a \<Rightarrow> (n, a)
      | None \<Rightarrow>
          (let a = length (nd_heap n)
           in (n\<lparr>nd_heap := nd_heap n @ [NewReportBuffer reportBufferSize],
                 nd_internalReports := store_Add (nd_internalReports n) net a\<rparr>, a)))"

definition put_buffer :: "('pk, 'sk) Node \<Rightarrow> nat \<Rightarrow> BlsBuffer \<Rightarrow> ('pk, 'sk) Node" where
  "put_buffer n a b = n\<lparr>nd_heap := (nd_heap n)[a := b]\<rparr>"

text \<open>
  The goroutine of \<open>consumeInternalNet\<close>.  \<open>sign_step\<close> is its middle part: sign and broadcast when
  the leader has signed and this node has not; an error of the broadcast ends the goroutine.
\<close>

definition sign_step :: "('pk, 'sk, 'sig, 'id) bls_env \<Rightarrow> ('pk, 'sk) Node \<Rightarrow> ('pk, 'sk) Share \<Rightarrow> nat
    \<Rightarrow> SignedReport \<Rightarrow> u64 \<Rightarrow> string list
    \<Rightarrow> (('pk, 'sk) Node \<times> SignedReport \<times> string list option \<times> PublishRequest list) go" where
  "sign_step env n share a sr leader signers =
     (if isProcessable (show_u64 (share_SignerID share)) (show_u64 leader) signers
      then (let sr = Sign env share sr in
            go_bind (Add (nd_heap n ! a) (show_u64 (share_SignerID share)) sr) (\<lambda>(buf, _).
              case Broadcast env sr of
                (reqs, Some _) \<Rightarrow> Ret (put_buffer n a buf, sr, None, reqs)
              | (reqs, None) \<Rightarrow>
                  Ret (put_buffer n a buf, sr, Some (signers @ [show_u64 (share_SignerID share)]), reqs)))
      else Ret (n, sr, Some signers, []))"

definition run_internal :: "('pk, 'sk, 'sig, 'id) bls_env \<Rightarrow> ('pk, 'sk) Node \<Rightarrow> ('pk, 'sk) Share
    \<Rightarrow> SignedReport \<Rightarrow> (('pk, 'sk) Node \<times> ('pk, 'sk) task list \<times> PublishRequest list) go" where
  "run_internal env n share sr =
     (let (n, a) = internal_buffer n (bsr_Network sr) in
      go_bind (Add (nd_heap n ! a) (show_u64 (bsr_SignerID sr)) sr) (\<lambda>(buf, ok).
        let n = put_buffer n a buf in
        if \<not> ok then Ret (n, [], [])
        else
          go_bind (Lookup (key_order env buf) buf (bsr_SeqNumber sr)) (\<lambda>signers.
          go_bind (getLeader n (bsr_Network sr) (bsr_SeqNumber sr)) (\<lambda>leader.
          go_bind (sign_step env n share a sr leader signers) (\<lambda>(n, sr, res, reqs).
            case res of
              None \<Rightarrow> Ret (n, [], reqs)
            | Some signers \<Rightarrow>
                Ret (n, if hasQuorum n sr signers then [FinishTask a sr signers] else [], reqs))))))"

definition run_finish :: "('pk, 'sk, 'sig, 'id) bls_env \<Rightarrow> ('pk, 'sk) Node \<Rightarrow> nat \<Rightarrow> SignedReport
    \<Rightarrow> string list \<Rightarrow> PublishRequest list go" where
  "run_finish env n a sr signers =
     go_bind (collectSignatures env (bsr_SeqNumber sr) (nd_heap n ! a) signers) (\<lambda>signatures.
       if int (length signatures) > quorumCount n (bsr_Network sr)
       then (case prepareReport env signatures sr of
               Inl _ \<Rightarrow> Ret []
             | Inr rep \<Rightarrow> Ret (fst (Broadcast env rep)))
       else Ret [])"

section \<open>The node\<close>

definition Consume :: "('pk, 'sk, 'sig, 'id) bls_env \<Rightarrow> ('pk, 'sk) Node \<Rightarrow> Message option
    \<Rightarrow> (('pk, 'sk) Node \<times> ('pk, 'sk) task list \<times> err) go" where
  "Consume env n msg =
     (case UnmarshalSignedReport env (Message_GetData msg) of
        Inl e \<Rightarrow> Ret (n, [], Some e)
      | Inr sr \<Rightarrow>
          if bsr_SignerID sr > 0
          then (let (tasks, e) = consumeInternalNet n sr in Ret (n, tasks, e))
          else go_bind (Add (nd_reports n) (bsr_Network sr) sr) (\<lambda>(reports, ok).
                 Ret (n\<lparr>nd_reports := reports\<rparr>, [], None)))"

definition Validate :: "('pk, 'sk, 'sig, 'id) bls_env \<Rightarrow> ('pk, 'sk) Node \<Rightarrow> Message option
    \<Rightarrow> ValidationResult go" where
  "Validate env n msg =
     (case store_Get (nd_pubstore n) (Message_GetTopic msg) of
        None \<Rightarrow> Ret VR_IGNORE
      | Some pubkey \<Rightarrow> (case UnmarshalSignedReport env (Message_GetData msg) of
            Inl _ \<Rightarrow> Ret VR_REJECT
          | Inr sr \<Rightarrow>
              if bsr_SignerID sr > 0 then validateInternalNet env n sr
              else (case DeserializeHexStr env (bsr_SigHex sr) of
                  Inl _ \<Rightarrow> Ret VR_REJECT
                | Inr sign \<Rightarrow>
                    if \<not> VerifyByte env sign pubkey (bsr_Data sr) then Ret VR_REJECT
                    else ValidateSequence (nd_reports n) sr)))"

definition run_trigger :: "('pk, 'sk, 'sig, 'id) bls_env \<Rightarrow> ('pk, 'sk) Node \<Rightarrow> SignedReport
    \<Rightarrow> (('pk, 'sk) Node \<times> ('pk, 'sk) task list \<times> PublishRequest list) go" where
  "run_trigger env n report =
     (case store_Get (nd_Shares n) (bsr_Network report) of
        None \<Rightarrow> Ret (n, [], [])
      | Some share \<Rightarrow>
          go_bind (getLeader n (bsr_Network report) (bsr_SeqNumber report)) (\<lambda>leader.
            if leader = share_SignerID share
            then (let report = Sign env share report in
                  go_bind (Add (nd_reports n) (bsr_Network report) report) (\<lambda>(reports, _).
                    Ret (n\<lparr>nd_reports := reports\<rparr>, [], fst (Broadcast env report))))
            else Ret (n, [], [])))"

definition TriggerReport :: "SignedReport \<Rightarrow> ('pk, 'sk) task list" where
  "TriggerReport report = [TriggerTask report]"

fun run_task :: "('pk, 'sk, 'sig, 'id) bls_env \<Rightarrow> ('pk, 'sk) Node \<Rightarrow> ('pk, 'sk) task
    \<Rightarrow> (('pk, 'sk) Node \<times> ('pk, 'sk) task list \<times> PublishRequest list) go" where
  "run_task env n (TriggerTask report) = run_trigger env n report"
| "run_task env n (InternalTask share sr) = run_internal env n share sr"
| "run_task env n (FinishTask a sr signers) =
     go_bind (run_finish env n a sr signers) (\<lambda>reqs. Ret (n, [], reqs))"

section \<open>Well-formed nodes\<close>

definition buf_ok :: "BlsBuffer \<Rightarrow> bool" where
  "buf_ok b \<longleftrightarrow> bb_inv b \<and> (\<forall>m. bb_reports b = Some m \<longrightarrow> finite (dom m))"

definition share_ok :: "('pk, 'sk) Share \<Rightarrow> bool" where
  "share_ok share \<longleftrightarrow> share_Signers share \<noteq> [] \<and> distinct (map fst (share_Signers share))
     \<and> length (share_Signers share) < 2 ^ 63"

definition node_ok :: "('pk, 'sk) Node \<Rightarrow> bool" where
  "node_ok n \<longleftrightarrow> buf_ok (nd_reports n) \<and> (\<forall>b \<in> set (nd_heap n). buf_ok b)
     \<and> (\<forall>net a. store_Get (nd_internalReports n) net = Some a \<longrightarrow> a < length (nd_heap n))
     \<and> (\<forall>net share. store_Get (nd_Shares n) net = Some share \<longrightarrow> share_ok share)"

text \<open>A task in flight: the share it captured is the one in the store, its buffer exists.\<close>

fun task_ok :: "('pk, 'sk) Node \<Rightarrow> ('pk, 'sk) task \<Rightarrow> bool" where
  "task_ok n (TriggerTask report) = True"
| "task_ok n (InternalTask share sr) = (store_Get (nd_Shares n) (bsr_Network sr) = Some share)"
| "task_ok n (FinishTask a sr signers) =
     (a < length (nd_heap n) \<and> store_Get (nd_Shares n) (bsr_Network sr) \<noteq> None)"

text \<open>What no operation of the node changes: the shares, and the buffers already allocated.\<close>

definition keeps :: "('pk, 'sk) Node \<Rightarrow> ('pk, 'sk) Node \<Rightarrow> bool" where
  "keeps n n' \<longleftrightarrow> nd_Shares n' = nd_Shares n \<and> nd_pubstore n' = nd_pubstore n
     \<and> length (nd_heap n) \<le> length (nd_heap n')"

text \<open>The run time visits each key of a map.\<close>

definition visits_keys :: "('pk, 'sk, 'sig, 'id) bls_env \<Rightarrow> bool" where
  "visits_keys env \<longleftrightarrow>
     (\<forall>b m. bb_reports b = Some m \<longrightarrow> finite (dom m) \<longrightarrow> set (key_order env b) = dom m)"

lemma store_simps [simp]:
  "store_Get NewStore k = None" "store_Get (store_Add s k v) k' = (if k' = k then Some v else store_Get s k')"
  by (simp_all add: store_Get_def store_Add_def NewStore_def)

lemma buf_ok_new: "buf_ok (NewReportBuffer reportBufferSize)"
  by (simp add: buf_ok_def bb_inv_new reportBufferSize_def) (simp add: NewReportBuffer_def)

lemma Add_finite:
  assumes "Add b net r = Ret (b', ok)" "\<forall>m. bb_reports b = Some m \<longrightarrow> finite (dom m)"
  shows "\<forall>m. bb_reports b' = Some m \<longrightarrow> finite (dom m)"
  using assms by (auto simp: Add_def Let_def go_bind_eq_Ret_iff split: if_splits option.splits)

lemma Add_ok:
  assumes "buf_ok b"
  shows "\<exists>b' ok. Add b net r = Ret (b', ok) \<and> buf_ok b'"
proof -
  from assms have b: "bb_inv b" "\<forall>m. bb_reports b = Some m \<longrightarrow> finite (dom m)" by (simp_all add: buf_ok_def)
  obtain b' ok where "Add b net r = Ret (b', ok)" "bb_inv b'" using Add_ring [OF b(1)] by blast
  with Add_finite [OF _ b(2)] show ?thesis by (auto simp: buf_ok_def)
qed

lemma Add_okD: "buf_ok b \<Longrightarrow> Add b net r = Ret (b', ok) \<Longrightarrow> buf_ok b'"
  using Add_ok [of b net r] by auto

lemma Get_total:
  assumes "bb_inv b"
  shows "\<exists>r. Get b net q = Ret r"
proof -
  obtain i where i: "umod64 q (word_of_int (bb_bufferSize b)) = Ret i" "uint i = uint q mod bb_bufferSize b"
    using bb_umod [OF assms] by blast
  have "slice_get (read_buf b net) (uint i) = Ret (read_buf b net ! nat (uint i))" if "read_buf b net \<noteq> []"
    using that assms i(2) bb_size_word(3) [OF assms] by (auto simp: slice_get_def bb_inv_def)
  with i show ?thesis by (auto simp: Get_def Let_def split: option.splits)
qed

lemma Lookup_total:
  assumes "buf_ok b" "visits_keys env"
  shows "\<exists>ids. Lookup (key_order env b) b q = Ret ids \<and>
    (bb_reports b \<noteq> None \<longrightarrow> ids = filter (\<lambda>x. \<exists>r. Get b x q = Ret (Some r)) (key_order env b))"
proof (cases "bb_reports b")
  case (Some m)
  have inv: "bb_inv b" and fin: "finite (dom m)" using assms(1) Some by (auto simp: buf_ok_def)
  with assms(2) Some have "\<forall>x \<in> set (key_order env b). m x \<noteq> None" by (auto simp: visits_keys_def)
  moreover obtain i where "umod64 q (word_of_int (bb_bufferSize b)) = Ret i" using bb_umod [OF inv] by blast
  ultimately show ?thesis using Lookup_loop_ring [OF inv Some] Some by (auto simp: Lookup_def)
qed (simp add: Lookup_def)

lemma RoundRobinLeader_total:
  assumes "signers \<noteq> []" "length signers < 2 ^ 63"
  shows "RoundRobinLeader seq signers = Ret (seq mod of_nat (length signers) + 1)"
proof -
  have "(of_nat (length signers) :: u64) \<noteq> 0"
    using assms by (simp add: word_of_nat_eq_0_iff nat_dvd_not_less)
  then show ?thesis by (simp add: RoundRobinLeader_def umod64_def)
qed

lemma getLeader_total:
  assumes "node_ok n"
  shows "\<exists>l. getLeader n net seq = Ret l"
  using assms
  by (auto simp: getLeader_def node_ok_def share_ok_def RoundRobinLeader_total split: option.splits)

lemma collect_total:
  assumes "bb_inv b"
  shows "\<exists>sigs. collect_loop env seq b signers acc = Ret sigs"
proof (induction signers arbitrary: acc)
  case (Cons s xs)
  obtain r where "Get b s seq = Ret r" using Get_total [OF assms] by blast
  with Cons show ?case by (auto split: option.splits sum.splits)
qed simp

lemma processable_loop_eq:
  "processable_loop opid leader xs l s = (l \<or> leader \<in> set xs, s \<or> opid \<in> set xs)"
  by (induction xs arbitrary: l s) auto

lemma isProcessable_iff: "isProcessable opid leader signers \<longleftrightarrow> leader \<in> set signers \<and> opid \<notin> set signers"
  by (simp add: isProcessable_def processable_loop_eq)

section \<open>Steps of a node\<close>

text \<open>A node with the goroutines in flight and the requests it has sent so far.\<close>

type_synonym ('pk, 'sk) bls_sys = "('pk, 'sk) Node \<times> ('pk, 'sk) task list \<times> PublishRequest list"

inductive bls_step :: "('pk, 'sk, 'sig, 'id) bls_env \<Rightarrow> ('pk, 'sk) bls_sys \<Rightarrow> ('pk, 'sk) bls_sys \<Rightarrow> bool"
  for env where
  deliver: "Consume env n msg = Ret (n', ts', e) \<Longrightarrow> bls_step env (n, ts, out) (n', ts @ ts', out)"
| trigger: "bls_step env (n, ts, out) (n, ts @ TriggerReport r, out)"
| run: "run_task env n t = Ret (n', ts', reqs) \<Longrightarrow>
    bls_step env (n, ts1 @ t # ts2, out) (n', ts1 @ ts2 @ ts', out @ reqs)"

lemma keeps_refl [simp]: "keeps n n"
  by (simp add: keeps_def)

lemma keeps_trans: "keeps a b \<Longrightarrow> keeps b c \<Longrightarrow> keeps a c"
  by (auto simp: keeps_def)

lemma keeps_task: "keeps n n' \<Longrightarrow> task_ok n t \<Longrightarrow> task_ok n' t"
  by (cases t) (auto simp: keeps_def)

lemma node_ok_reports: "node_ok n \<Longrightarrow> buf_ok b \<Longrightarrow> node_ok (n\<lparr>nd_reports := b\<rparr>)"
  by (simp add: node_ok_def)

lemma node_ok_put: "node_ok n \<Longrightarrow> buf_ok b \<Longrightarrow> node_ok (put_buffer n a b)"
  using set_update_subset_insert [of "nd_heap n" a b] by (auto simp: node_ok_def put_buffer_def)

lemma keeps_put [simp]: "keeps n (put_buffer n a b)" "keeps n (n\<lparr>nd_reports := r\<rparr>)"
  by (simp_all add: keeps_def put_buffer_def)

lemma put_buffer_simps [simp]:
  "nd_Shares (put_buffer n a b) = nd_Shares n" "length (nd_heap (put_buffer n a b)) = length (nd_heap n)"
  "a < length (nd_heap n) \<Longrightarrow> nd_heap (put_buffer n a b) ! a = b"
  by (simp_all add: put_buffer_def)

lemma internal_buffer_ok:
  assumes "node_ok n" "internal_buffer n net = (n', a)"
  shows "node_ok n'" "keeps n n'" "a < length (nd_heap n')" "buf_ok (nd_heap n' ! a)"
proof -
  have "node_ok n' \<and> keeps n n' \<and> a < length (nd_heap n')"
    using assms by (auto simp: internal_buffer_def node_ok_def keeps_def Let_def buf_ok_new
        less_Suc_eq split: option.splits if_splits)
  then show "node_ok n'" "keeps n n'" "a < length (nd_heap n')" by simp_all
  then show "buf_ok (nd_heap n' ! a)" by (simp add: node_ok_def)
qed

lemma sign_step_ok:
  assumes "node_ok n" "a < length (nd_heap n)"
  shows "\<exists>n' sr' res reqs. sign_step env n share a sr leader signers = Ret (n', sr', res, reqs)
     \<and> node_ok n' \<and> keeps n n' \<and> bsr_Network sr' = bsr_Network sr"
proof -
  have "buf_ok (nd_heap n ! a)" using assms by (simp add: node_ok_def)
  then obtain b ok where "Add (nd_heap n ! a) (show_u64 (share_SignerID share)) (Sign env share sr) = Ret (b, ok)"
    "buf_ok b" using Add_ok by blast
  with assms show ?thesis
    by (auto simp: sign_step_def Let_def node_ok_put Sign_def split: prod.splits option.splits)
qed

lemma run_internal_ok:
  assumes "node_ok n" "visits_keys env" "task_ok n (InternalTask share sr)"
  shows "\<exists>n' ts reqs. run_internal env n share sr = Ret (n', ts, reqs) \<and> node_ok n' \<and> keeps n n'
     \<and> (\<forall>t \<in> set ts. task_ok n' t)"
proof -
  obtain n1 a where n1: "internal_buffer n (bsr_Network sr) = (n1, a)" by fastforce
  note ok1 = internal_buffer_ok [OF assms(1) n1]
  obtain b ok where b: "Add (nd_heap n1 ! a) (show_u64 (bsr_SignerID sr)) sr = Ret (b, ok)" "buf_ok b"
    using Add_ok [OF ok1(4)] by blast
  let ?n2 = "put_buffer n1 a b"
  have ok2: "node_ok ?n2" "keeps n ?n2" "a < length (nd_heap ?n2)"
    using ok1 b(2) by (auto simp: node_ok_put intro: keeps_trans)
  obtain ids where ids: "Lookup (key_order env b) b (bsr_SeqNumber sr) = Ret ids"
    using Lookup_total [OF b(2) assms(2)] by blast
  obtain l where l: "getLeader ?n2 (bsr_Network sr) (bsr_SeqNumber sr) = Ret l"
    using getLeader_total [OF ok2(1)] by blast
  obtain n3 sr' res reqs where s: "sign_step env ?n2 share a sr l ids = Ret (n3, sr', res, reqs)"
    "node_ok n3" "keeps ?n2 n3" "bsr_Network sr' = bsr_Network sr"
    using sign_step_ok [OF ok2(1,3)] by blast
  have k: "keeps n n3" using keeps_trans ok2(2) s(3) by blast
  have "a < length (nd_heap n3)" "store_Get (nd_Shares n3) (bsr_Network sr') \<noteq> None"
    using s(3,4) ok2(3) k assms(3) by (auto simp: keeps_def)
  with n1 b ids l s k ok2 show ?thesis
    by (auto simp: run_internal_def Let_def split: option.splits)
qed

lemma run_trigger_ok:
  assumes "node_ok n"
  shows "\<exists>n' reqs. run_trigger env n r = Ret (n', [], reqs) \<and> node_ok n' \<and> keeps n n'"
proof (cases "store_Get (nd_Shares n) (bsr_Network r)")
  case (Some share)
  obtain l where l: "getLeader n (bsr_Network r) (bsr_SeqNumber r) = Ret l"
    using getLeader_total [OF assms] by blast
  have "buf_ok (nd_reports n)" using assms by (simp add: node_ok_def)
  then obtain b ok where "Add (nd_reports n) (bsr_Network (Sign env share r)) (Sign env share r) = Ret (b, ok)"
    "buf_ok b" using Add_ok by blast
  with Some l assms show ?thesis by (simp add: run_trigger_def Let_def node_ok_reports)
qed (use assms in \<open>simp add: run_trigger_def\<close>)

lemma run_task_ok:
  assumes "node_ok n" "visits_keys env" "task_ok n t"
  shows "\<exists>n' ts reqs. run_task env n t = Ret (n', ts, reqs) \<and> node_ok n' \<and> keeps n n'
     \<and> (\<forall>t \<in> set ts. task_ok n' t)"
proof (cases t)
  case (TriggerTask r)
  with run_trigger_ok assms show ?thesis by fastforce
next
  case (InternalTask share sr)
  with run_internal_ok assms show ?thesis by fastforce
next
  case (FinishTask a sr signers)
  with assms have "bb_inv (nd_heap n ! a)" by (simp add: node_ok_def buf_ok_def)
  then obtain sigs where "collectSignatures env (bsr_SeqNumber sr) (nd_heap n ! a) signers = Ret sigs"
    using collect_total unfolding collectSignatures_def by blast
  with FinishTask assms(1) show ?thesis
    by (cases "prepareReport env sigs sr") (auto simp: run_finish_def)
qed

lemma Consume_ok:
  assumes "node_ok n"
  shows "\<exists>n' ts e. Consume env n msg = Ret (n', ts, e) \<and> node_ok n' \<and> keeps n n'
     \<and> (\<forall>t \<in> set ts. task_ok n' t)"
proof (cases "UnmarshalSignedReport env (Message_GetData msg)")
  case (Inr sr)
  have "buf_ok (nd_reports n)" using assms by (simp add: node_ok_def)
  then obtain b ok where "Add (nd_reports n) (bsr_Network sr) sr = Ret (b, ok)" "buf_ok b"
    using Add_ok by blast
  with Inr assms show ?thesis
    by (auto simp: Consume_def consumeInternalNet_def node_ok_reports split: option.splits)
qed (use assms in \<open>simp add: Consume_def\<close>)

definition sys_ok :: "('pk, 'sk) bls_sys \<Rightarrow> bool" where
  "sys_ok st \<longleftrightarrow> (case st of (n, ts, out) \<Rightarrow> node_ok n \<and> (\<forall>t \<in> set ts. task_ok n t))"

lemma step_sys_ok:
  assumes "bls_step env st st'" "visits_keys env" "sys_ok st"
  shows "sys_ok st'" "keeps (fst st) (fst st')"
proof -
  have "sys_ok st' \<and> keeps (fst st) (fst st')"
    using assms
  proof (cases rule: bls_step.cases)
    case (deliver n msg n' ts' e ts out)
    with Consume_ok [of n env msg] assms(3) keeps_task show ?thesis by (auto simp: sys_ok_def)
  next
    case (trigger n ts out r)
    with assms(3) show ?thesis by (auto simp: sys_ok_def TriggerReport_def)
  next
    case (run n t n' ts' reqs ts1 ts2 out)
    with run_task_ok [of n env t] assms keeps_task show ?thesis by (auto simp: sys_ok_def)
  qed
  then show "sys_ok st'" "keeps (fst st) (fst st')" by simp_all
qed

lemma run_sys_ok:
  assumes "(bls_step env)\<^sup>*\<^sup>* st st'" "visits_keys env" "sys_ok st"
  shows "sys_ok st' \<and> keeps (fst st) (fst st')"
  using assms
proof (induction rule: rtranclp_induct)
  case (step y z)
  then show ?case using step_sys_ok keeps_trans by blast
qed simp

section \<open>What a node publishes\<close>

definition own_signed :: "('pk, 'sk, 'sig, 'id) bls_env \<Rightarrow> ('pk, 'sk) Share \<Rightarrow> SignedReport \<Rightarrow> bool" where
  "own_signed env share r \<longleftrightarrow> bsr_SignerID r = share_SignerID share \<and>
     bsr_SigHex r = SerializeToHexStr env (SignByte env (share_PrivateKey share) (bsr_Data r))"

text \<open>A map of partial signatures taken from reports with one sequence number.\<close>

definition partial_sigs :: "('pk, 'sk, 'sig, 'id) bls_env \<Rightarrow> u64 \<Rightarrow> bytes set" where
  "partial_sigs env seq = {Serialize env sg |(rep :: SignedReport) sg.
     bsr_SeqNumber rep = seq \<and> DeserializeHexStr env (bsr_SigHex rep) = Inr sg}"

definition sigs_ok :: "('pk, 'sk, 'sig, 'id) bls_env \<Rightarrow> u64 \<Rightarrow> (u64 \<times> bytes) list \<Rightarrow> bool" where
  "sigs_ok env seq sigs \<longleftrightarrow> distinct (map fst sigs) \<and> snd ` set sigs \<subseteq> partial_sigs env seq"

definition aggregated :: "('pk, 'sk, 'sig, 'id) bls_env \<Rightarrow> ('pk, 'sk) Share \<Rightarrow> SignedReport \<Rightarrow> bool" where
  "aggregated env share r \<longleftrightarrow> bsr_SignerID r = 0 \<and>
     (\<exists>sigs sign. sigs_ok env (bsr_SeqNumber r) sigs \<and> QuorumCount share < int (length sigs) \<and>
        ReconstructSigs env sigs = Inr sign \<and> bsr_SigHex r = SerializeToHexStr env sign)"

definition explained :: "('pk, 'sk, 'sig, 'id) bls_env \<Rightarrow> ('pk, 'sk) Node \<Rightarrow> PublishRequest \<Rightarrow> bool" where
  "explained env n req \<longleftrightarrow>
     (\<exists>r share. MarshalSignedReport env r = Inr (pr_Data req) \<and> pr_Topic req = bsr_Network r \<and>
        store_Get (nd_Shares n) (bsr_Network r) = Some share \<and>
        (own_signed env share r \<or> aggregated env share r))"

lemma Broadcast_req:
  "req \<in> set (fst (Broadcast env r)) \<Longrightarrow>
     MarshalSignedReport env r = Inr (pr_Data req) \<and> pr_Topic req = bsr_Network r"
  by (auto simp: Broadcast_def Let_def split: option.splits sum.splits)

lemma Sign_own [simp]: "own_signed env share (Sign env share r)" "bsr_Network (Sign env share r) = bsr_Network r"
  by (simp_all add: own_signed_def Sign_def)

lemma explained_own:
  "store_Get (nd_Shares n) (bsr_Network r) = Some share \<Longrightarrow> req \<in> set (fst (Broadcast env (Sign env share r)))
     \<Longrightarrow> explained env n req"
  unfolding explained_def using Broadcast_req [of req env "Sign env share r"] Sign_own [of env share r] by metis

lemma explained_keeps: "keeps n n' \<Longrightarrow> explained env n req \<Longrightarrow> explained env n' req"
  by (simp add: explained_def keeps_def)

lemma Get_seq: "Get b net q = Ret (Some r) \<Longrightarrow> bsr_SeqNumber r = q"
  by (auto simp: Get_def Let_def go_bind_eq_Ret_iff split: option.splits if_splits)

lemma sigs_ok_update:
  assumes "sigs_ok env seq sigs" "x \<in> partial_sigs env seq"
  shows "sigs_ok env seq (AList.update i x sigs)"
proof -
  have "snd ` set (AList.update i x sigs) \<subseteq> insert x (snd ` set sigs)"
    by (induction sigs) auto
  with assms show ?thesis unfolding sigs_ok_def by (simp add: distinct_update) blast
qed

lemma collect_loop_Cons:
  assumes "collect_loop env seq b (s # xs) acc = Ret sigs"
  obtains "collect_loop env seq b xs acc = Ret sigs"
  | i rep sg where "ParseUint s = Some i" "Get b s seq = Ret (Some rep)" "DeserializeHexStr env (bsr_SigHex rep) = Inr sg"
      "collect_loop env seq b xs (AList.update i (Serialize env sg) acc) = Ret sigs"
proof (cases "ParseUint s")
  case (Some i)
  from assms Some obtain r where r: "Get b s seq = Ret r" by (auto simp: go_bind_eq_Ret_iff)
  with that assms Some show ?thesis
    by (cases r; cases "DeserializeHexStr env (bsr_SigHex (the r))") auto
qed (use that assms in auto)

lemma collect_loop_sigs:
  "collect_loop env seq b signers acc = Ret sigs \<Longrightarrow> sigs_ok env seq acc \<Longrightarrow> sigs_ok env seq sigs"
proof (induction signers arbitrary: acc)
  case (Cons s xs)
  show ?case
  proof (cases rule: collect_loop_Cons [OF Cons.prems(1)])
    case (2 i rep sg)
    then have "Serialize env sg \<in> partial_sigs env seq" by (auto simp: partial_sigs_def dest: Get_seq)
    with 2(4) Cons sigs_ok_update show ?thesis by blast
  qed (use Cons in blast)
qed simp

lemma finish_explained:
  assumes "run_finish env n a sr signers = Ret reqs" "req \<in> set reqs"
    "store_Get (nd_Shares n) (bsr_Network sr) \<noteq> None"
  shows "explained env n req"
proof -
  obtain share where sh: "store_Get (nd_Shares n) (bsr_Network sr) = Some share" using assms(3) by blast
  from assms(1,2) obtain sigs r where c: "collectSignatures env (bsr_SeqNumber sr) (nd_heap n ! a) signers = Ret sigs"
    and q: "quorumCount n (bsr_Network sr) < int (length sigs)" and r: "prepareReport env sigs sr = Inr r"
    "req \<in> set (fst (Broadcast env r))"
    by (auto simp: run_finish_def go_bind_eq_Ret_iff split: if_splits sum.splits)
  have "sigs_ok env (bsr_SeqNumber sr) sigs"
    using c by (auto simp: collectSignatures_def sigs_ok_def [of _ _ "[]"] intro: collect_loop_sigs)
  with q r(1) sh have "aggregated env share r" "bsr_Network r = bsr_Network sr"
    by (auto simp: aggregated_def prepareReport_def quorumCount_def split: sum.splits)
  with sh Broadcast_req [OF r(2)] show ?thesis by (auto simp: explained_def)
qed

lemma sign_step_reqs:
  assumes "sign_step env n share a sr leader signers = Ret (n', sr', res, reqs)" "reqs \<noteq> []"
  shows "isProcessable (show_u64 (share_SignerID share)) (show_u64 leader) signers"
    "reqs = fst (Broadcast env (Sign env share sr))"
proof -
  obtain rq e where "Broadcast env (Sign env share sr) = (rq, e)" by fastforce
  with assms show "isProcessable (show_u64 (share_SignerID share)) (show_u64 leader) signers"
    "reqs = fst (Broadcast env (Sign env share sr))"
    by (auto simp: sign_step_def Let_def go_bind_eq_Ret_iff split: if_splits option.splits)
qed

text \<open>When the goroutine of \<open>consumeInternalNet\<close> sends anything.\<close>

lemma run_internal_reqs:
  assumes "run_internal env n share sr = Ret (n', ts, reqs)" "reqs \<noteq> []"
  obtains n1 a b ids l where "internal_buffer n (bsr_Network sr) = (n1, a)"
    "Add (nd_heap n1 ! a) (show_u64 (bsr_SignerID sr)) sr = Ret (b, True)"
    "Lookup (key_order env b) b (bsr_SeqNumber sr) = Ret ids"
    "getLeader (put_buffer n1 a b) (bsr_Network sr) (bsr_SeqNumber sr) = Ret l"
    "isProcessable (show_u64 (share_SignerID share)) (show_u64 l) ids"
    "reqs = fst (Broadcast env (Sign env share sr))"
proof -
  obtain n1 a where n1: "internal_buffer n (bsr_Network sr) = (n1, a)" by fastforce
  then obtain b ok where b: "Add (nd_heap n1 ! a) (show_u64 (bsr_SignerID sr)) sr = Ret (b, ok)"
    using assms(1) by (auto simp: run_internal_def go_bind_eq_Ret_iff)
  with n1 assms have ok by (cases ok) (auto simp: run_internal_def)
  with n1 b assms(1) obtain ids l n3 sr' res rq where i:
    "Lookup (key_order env b) b (bsr_SeqNumber sr) = Ret ids"
    "getLeader (put_buffer n1 a b) (bsr_Network sr) (bsr_SeqNumber sr) = Ret l"
    "sign_step env (put_buffer n1 a b) share a sr l ids = Ret (n3, sr', res, rq)"
    "(case res of None \<Rightarrow> Ret (n3, [], rq) | Some signers \<Rightarrow>
        Ret (n3, if hasQuorum n3 sr' signers then [FinishTask a sr' signers] else [], rq)) = Ret (n', ts, reqs)"
    by (auto simp: run_internal_def Let_def go_bind_eq_Ret_iff)
  then have "rq = reqs" by (cases res) auto
  with i sign_step_reqs [OF i(3)] n1 b \<open>ok\<close> assms(2) that show thesis by auto
qed

lemma internal_explained:
  assumes "run_internal env n share sr = Ret (n', ts, reqs)" "store_Get (nd_Shares n) (bsr_Network sr) = Some share"
    "req \<in> set reqs"
  shows "explained env n req"
proof -
  have "reqs \<noteq> []" using assms(3) by auto
  from run_internal_reqs [OF assms(1) this] have "reqs = fst (Broadcast env (Sign env share sr))" by blast
  with assms(2,3) show ?thesis by (auto intro: explained_own)
qed

lemma task_explained:
  assumes "run_task env n t = Ret (n', ts, reqs)" "task_ok n t" "req \<in> set reqs"
  shows "explained env n req"
proof (cases t)
  case (TriggerTask r)
  with assms show ?thesis
    by (auto simp: run_trigger_def Let_def go_bind_eq_Ret_iff intro: explained_own
        split: option.splits if_splits)
next
  case (InternalTask share sr)
  with assms internal_explained show ?thesis by fastforce
next
  case (FinishTask a sr signers)
  with assms finish_explained show ?thesis by (fastforce simp: go_bind_eq_Ret_iff)
qed

lemma step_explained:
  assumes "bls_step env (n, ts, out) (n', ts', out')" "visits_keys env" "sys_ok (n, ts, out)"
    "\<forall>req \<in> set out. explained env n req"
  shows "\<forall>req \<in> set out'. explained env n' req"
proof -
  have k: "keeps n n'" using step_sys_ok(2) [OF assms(1-3)] by simp
  have "\<forall>req \<in> set out'. explained env n req"
    using assms(1)
  proof (cases rule: bls_step.cases)
    case (run t ts'' reqs ts1 ts2)
    with assms(3) have "task_ok n t" by (simp add: sys_ok_def)
    with run assms(4) task_explained [OF run(4)] show ?thesis by auto
  qed (use assms(4) in auto)
  with explained_keeps [OF k] show ?thesis by blast
qed

lemma run_explained:
  assumes "(bls_step env)\<^sup>*\<^sup>* (n, [], []) st'" "visits_keys env" "node_ok n"
  shows "\<forall>req \<in> set (snd (snd st')). explained env (fst st') req"
  using assms(1)
proof (induction rule: rtranclp_induct)
  case (step y z)
  have "sys_ok y" using run_sys_ok [OF step(1) assms(2)] assms(3) by (simp add: sys_ok_def)
  with step show ?case using step_explained assms(2) by (cases y; cases z) fastforce
qed simp

lemma Validate_total:
  assumes "node_ok n"
  shows "\<exists>v. Validate env n msg = Ret v"
proof -
  have g: "\<exists>r. Get (nd_heap n ! a) net q = Ret r" if "a < length (nd_heap n)" for a net q
    using that assms by (simp add: Get_total node_ok_def buf_ok_def)
  have "\<exists>v. validateInternalNet env n sr = Ret v" for sr
  proof (cases "store_Get (nd_internalReports n) (bsr_Network sr)")
    case (Some a)
    then have "a < length (nd_heap n)" using assms by (simp add: node_ok_def)
    with g obtain r where "Get (nd_heap n ! a) (show_u64 (bsr_SignerID sr)) (bsr_SeqNumber sr) = Ret r" by blast
    with Some show ?thesis by (simp add: validateInternalNet_def split: option.splits)
  qed (simp add: validateInternalNet_def split: option.splits)
  moreover have "\<exists>v. ValidateSequence (nd_reports n) sr = Ret v" for sr
  proof -
    obtain r where "Get (nd_reports n) (bsr_Network sr) (bsr_SeqNumber sr) = Ret r"
      using Get_total assms unfolding node_ok_def buf_ok_def by blast
    then show ?thesis by (simp add: ValidateSequence_def Let_def split: option.splits)
  qed
  ultimately show ?thesis by (simp add: Validate_def split: option.splits sum.splits)
qed

section \<open>Properties\<close>

text \<open>A concrete environment: a signature is the signed data, an identity check verifies it.\<close>

definition toy_env :: "(bytes, bytes, bytes, string) bls_env" where
  "toy_env = \<lparr>SignByte = (\<lambda>sk m. m), VerifyByte = (\<lambda>sig pk m. sig = m),
     DeserializeHexStr = (\<lambda>h. Inr (map (\<lambda>c. of_nat (of_char c)) h)),
     SerializeToHexStr = map (\<lambda>b. char_of (unat b)), Serialize = (\<lambda>s. s), Deserialize = Inr,
     SetDecString = Inr, Recover = (\<lambda>ss is. case ss of [] \<Rightarrow> Inl ''no signatures'' | s # _ \<Rightarrow> Inr s),
     MarshalSignedReport = (\<lambda>r. Inr (bsr_Data r)),
     UnmarshalSignedReport = (\<lambda>d. if d = [] then Inl ''unexpected end of JSON input''
        else Inr (zeroReport\<lparr>bsr_Network := ''n'', bsr_Data := d, bsr_SigHex := map (\<lambda>b. char_of (unat b)) d,
           bsr_SeqNumber := of_nat (length d)\<rparr>)),
     Connect = None, PublishRPC = (\<lambda>_. None),
     key_order = (\<lambda>b. case bb_reports b of None \<Rightarrow> [] | Some m \<Rightarrow> sorted_list_of_set (dom m)),
     sig_order = (\<lambda>s. s)\<rparr>"

lemma toy_env_visits: "visits_keys toy_env"
  by (simp add: visits_keys_def toy_env_def)

definition toy_share :: "(bytes, bytes) Share" where
  "toy_share = \<lparr>share_SignerID = 1, share_SharePublicKey = [], share_PrivateKey = [],
     share_Signers = [(1, []), (2, []), (3, []), (4, [])]\<rparr>"

definition toy_node :: "(bytes, bytes) Node" where
  "toy_node = (NewNode (store_Add NewStore ''n'' []))\<lparr>nd_Shares := store_Add NewStore ''n'' toy_share\<rparr>"

lemma toy_node_ok: "node_ok toy_node"
  by (simp add: toy_node_def NewNode_def node_ok_def buf_ok_new share_ok_def toy_share_def)

text \<open>a node never panics.  From any well-formed node, after any interleaving of deliveries,
  triggers and goroutines, the node is still well formed, and every message it may be given for
  consumption or validation and every goroutine in flight returns.\<close>

theorem bls_node_never_panics:
  assumes "visits_keys env" and "node_ok n" and "(bls_step env)\<^sup>*\<^sup>* (n, [], []) (n', ts, out)"
  shows "node_ok n' \<and> (\<forall>t \<in> set ts. is_ret (run_task env n' t)) \<and> is_ret (Consume env n' msg)
    \<and> is_ret (Validate env n' msg)"
proof -
  have ok: "node_ok n'" "\<forall>t \<in> set ts. task_ok n' t"
    using run_sys_ok [OF assms(3,1)] assms(2) by (simp_all add: sys_ok_def)
  then have "\<forall>t \<in> set ts. is_ret (run_task env n' t)"
    using run_task_ok [OF ok(1) assms(1)] by (metis is_ret_iff)
  with ok(1) show ?thesis using Consume_ok [OF ok(1)] Validate_total [OF ok(1)] by (metis is_ret_iff)
qed

theorem bls_node_never_panics_witness:
  "is_ret (Consume toy_env toy_node (Some \<lparr>msg_MessageId = [], msg_Topic = ''n'', msg_Data = [7]\<rparr>))"
  using bls_node_never_panics [OF toy_env_visits toy_node_ok rtranclp.rtrancl_refl] by blast

text \<open>everything a node sends to the network is accounted for.  Each request carries a report of a
  network the node has a share for, on that network's topic, that is either signed with the node's
  own share under its own id, or reconstructed, with id zero, from more partial signatures of
  distinct signers than the quorum count, all taken from reports with the same sequence number.\<close>

theorem bls_published_explained:
  assumes "visits_keys env" and "node_ok n" and "(bls_step env)\<^sup>*\<^sup>* (n, [], []) (n', ts, out)"
    and "req \<in> set out"
  shows "\<exists>r share. MarshalSignedReport env r = Inr (pr_Data req) \<and> pr_Topic req = bsr_Network r \<and>
     store_Get (nd_Shares n) (bsr_Network r) = Some share \<and> (own_signed env share r \<or> aggregated env share r)"
proof -
  have "explained env n' req" using run_explained [OF assms(3,1,2)] assms(4) by simp
  moreover have "keeps n n'" using run_sys_ok [OF assms(3,1)] assms(2) by (simp add: sys_ok_def)
  ultimately show ?thesis by (simp add: explained_def keeps_def)
qed

theorem bls_published_explained_witness:
  "\<exists>n' req. (bls_step toy_env)\<^sup>*\<^sup>* (toy_node, [], []) (n', [], [req]) \<and>
    (\<exists>r share. MarshalSignedReport toy_env r = Inr (pr_Data req) \<and> pr_Topic req = bsr_Network r \<and>
     store_Get (nd_Shares toy_node) (bsr_Network r) = Some share \<and>
     (own_signed toy_env share r \<or> aggregated toy_env share r))"
proof -
  let ?r = "zeroReport\<lparr>bsr_Network := ''n'', bsr_SeqNumber := 4, bsr_Data := [7]\<rparr>"
  let ?req = "\<lparr>pr_Topic = ''n'', pr_Data = [7]\<rparr>"
  obtain b ok where b: "Add (nd_reports toy_node) ''n'' (Sign toy_env toy_share ?r) = Ret (b, ok)"
    using Add_ok toy_node_ok unfolding node_ok_def by blast
  have "run_task toy_env toy_node (TriggerTask ?r) = Ret (toy_node\<lparr>nd_reports := b\<rparr>, [], [?req])"
    using b by (simp add: run_trigger_def toy_node_def getLeader_def toy_share_def RoundRobinLeader_def
        umod64_def NewNode_def Broadcast_def Sign_def toy_env_def)
  then have s: "bls_step toy_env (toy_node, TriggerReport ?r, []) (toy_node\<lparr>nd_reports := b\<rparr>, [], [?req])"
    using bls_step.run [of toy_env toy_node "TriggerTask ?r" _ "[]" _ "[]" "[]" "[]"]
    by (simp add: TriggerReport_def)
  have "bls_step toy_env (toy_node, [], []) (toy_node, [] @ TriggerReport ?r, [])" by (rule bls_step.trigger)
  with s have steps: "(bls_step toy_env)\<^sup>*\<^sup>* (toy_node, [], []) (toy_node\<lparr>nd_reports := b\<rparr>, [], [?req])"
    using rtranclp.rtrancl_into_rtrancl [OF r_into_rtranclp, of "bls_step toy_env"] by simp
  have "?req \<in> set [?req]" by simp
  from bls_published_explained [OF toy_env_visits toy_node_ok steps this] steps show ?thesis by blast
qed

text \<open>in the internal network a node broadcasts its own partial signature only once the report of
  the round's leader is in its buffer, and never while its own is there.\<close>

theorem bls_signs_only_after_leader:
  assumes "visits_keys env" and "node_ok n" and "run_internal env n share sr = Ret (n', ts, reqs)"
    and "reqs \<noteq> []"
  shows "\<exists>n1 a b l. internal_buffer n (bsr_Network sr) = (n1, a)
    \<and> Add (nd_heap n1 ! a) (show_u64 (bsr_SignerID sr)) sr = Ret (b, True)
    \<and> getLeader n (bsr_Network sr) (bsr_SeqNumber sr) = Ret l
    \<and> (\<exists>r. Get b (show_u64 l) (bsr_SeqNumber sr) = Ret (Some r))
    \<and> Get b (show_u64 (share_SignerID share)) (bsr_SeqNumber sr) = Ret None"
proof -
  obtain n1 a b ids l where i: "internal_buffer n (bsr_Network sr) = (n1, a)"
    "Add (nd_heap n1 ! a) (show_u64 (bsr_SignerID sr)) sr = Ret (b, True)"
    "Lookup (key_order env b) b (bsr_SeqNumber sr) = Ret ids"
    "getLeader (put_buffer n1 a b) (bsr_Network sr) (bsr_SeqNumber sr) = Ret l"
    "isProcessable (show_u64 (share_SignerID share)) (show_u64 l) ids"
    using run_internal_reqs [OF assms(3,4)] by metis
  note n1 = internal_buffer_ok [OF assms(2) i(1)]
  have b: "buf_ok b" using Add_okD [OF n1(4) i(2)] .
  have m: "bb_reports b \<noteq> None"
    using i(2) by (auto simp: Add_def Let_def go_bind_eq_Ret_iff split: if_splits)
  then have ids: "ids = filter (\<lambda>x. \<exists>r. Get b x (bsr_SeqNumber sr) = Ret (Some r)) (key_order env b)"
    using Lookup_total [OF b assms(1), of "bsr_SeqNumber sr"] i(3) by auto
  let ?own = "show_u64 (share_SignerID share)"
  obtain m' where m': "bb_reports b = Some m'" using m by blast
  then have keys: "set (key_order env b) = dom m'" using assms(1) b by (simp add: visits_keys_def buf_ok_def)
  have "Get b ?own (bsr_SeqNumber sr) = Ret None"
  proof (cases "?own \<in> dom m'")
    case True
    with i(5) ids keys have "\<nexists>r. Get b ?own (bsr_SeqNumber sr) = Ret (Some r)" by (simp add: isProcessable_iff)
    then show ?thesis using Get_total [of b] b by (metis buf_ok_def option.exhaust)
  qed (use m' in \<open>simp add: Get_def read_buf_def dom_def\<close>)
  moreover have "getLeader n (bsr_Network sr) (bsr_SeqNumber sr) = Ret l"
    using i(4) n1(2) by (simp add: getLeader_def keeps_def)
  ultimately show ?thesis using i ids by (auto simp: isProcessable_iff)
qed

theorem bls_signs_only_after_leader_witness:
  "\<exists>n' ts reqs n1 a b. run_internal toy_env toy_node toy_share
       (zeroReport\<lparr>bsr_Network := ''n'', bsr_SeqNumber := 1, bsr_SignerID := 2\<rparr>) = Ret (n', ts, reqs) \<and> reqs \<noteq> []
    \<and> internal_buffer toy_node ''n'' = (n1, a)
    \<and> Add (nd_heap n1 ! a) ''2'' (zeroReport\<lparr>bsr_Network := ''n'', bsr_SeqNumber := 1, bsr_SignerID := 2\<rparr>)
        = Ret (b, True)
    \<and> Get b ''1'' 1 = Ret None"
proof -
  let ?r = "zeroReport\<lparr>bsr_Network := ''n'', bsr_SeqNumber := 1, bsr_SignerID := 2\<rparr>"
  obtain n' ts reqs where r: "run_internal toy_env toy_node toy_share ?r = Ret (n', ts, reqs)"
    using run_internal_ok [OF toy_node_ok toy_env_visits, of toy_share ?r] by (auto simp: toy_node_def)
  have s: "show_u64 1 = ''1''" "show_u64 2 = ''2''" by code_simp+
  have ne: "reqs \<noteq> []"
    using r
    by (auto simp add: run_internal_def toy_node_def NewNode_def internal_buffer_def Let_def s
        Add_def NewReportBuffer_def reportBufferSize_def read_buf_def alloc_buf_def go_defs zeroReport_def
        Lookup_def toy_env_def getLeader_def RoundRobinLeader_def toy_share_def put_buffer_def
        sign_step_def isProcessable_iff Sign_def Broadcast_def)
  have own: "share_SignerID toy_share = 1" "bsr_SignerID ?r = 2" "bsr_SeqNumber ?r = 1" "bsr_Network ?r = ''n''"
    by (simp_all add: toy_share_def)
  show ?thesis
    using bls_signs_only_after_leader [OF toy_env_visits toy_node_ok r ne, unfolded own s] r ne by blast
qed

text \<open>C32: the quorum.  For any positive number of signers below the size of an \<open>int\<close> the threshold leaves
  out at most \<open>f = (count - 1) / 3\<close> of them, and any two sets of signers that reach it share more
  than \<open>f\<close> members; with no signers the threshold is zero.\<close>

theorem bls_quorum_intersection:
  assumes "0 < count"
  shows "Threshold count = count - (count - 1) div 3 \<and> 0 < Threshold count \<and> Threshold count \<le> count \<and>
    (\<forall>(S :: u64 set) A B. finite S \<longrightarrow> int (card S) = count \<longrightarrow> A \<subseteq> S \<longrightarrow> B \<subseteq> S \<longrightarrow>
       Threshold count \<le> int (card A) \<longrightarrow> Threshold count \<le> int (card B) \<longrightarrow>
       (count - 1) div 3 < int (card (A \<inter> B))) \<and> Threshold 0 = 0"
proof -
  have sd: "(count - 1) sdiv 3 = (count - 1) div 3"
    using assms by (auto simp: signed_divide_int_def sgn_if)
  then have t: "Threshold count = count - (count - 1) div 3" by (simp add: Threshold_def)
  have "Threshold 0 = 0" by (simp add: Threshold_def signed_divide_int_def)
  moreover have "(count - 1) div 3 < int (card (A \<inter> B))"
    if "finite S" "int (card S) = count" "A \<subseteq> S" "B \<subseteq> S" "Threshold count \<le> int (card A)"
      "Threshold count \<le> int (card B)" for S A B :: "u64 set"
  proof -
    have "finite A" "finite B" using that finite_subset by blast+
    then have "card A + card B = card (A \<union> B) + card (A \<inter> B)" by (rule card_Un_Int)
    moreover have "card (A \<union> B) \<le> card S" using that by (simp add: card_mono)
    ultimately have "2 * Threshold count \<le> count + int (card (A \<inter> B))" using that by linarith
    moreover have "3 * ((count - 1) div 3) \<le> count - 1" by simp
    ultimately show ?thesis using t by linarith
  qed
  ultimately show ?thesis using t assms by auto
qed

theorem bls_quorum_intersection_witness: "Threshold 4 = 3 \<and> Threshold 0 = 0"
  using bls_quorum_intersection [of 4] by simp

lemma leader_nat:
  assumes "signers \<noteq> []" "length signers < 2 ^ 63" "RoundRobinLeader s signers = Ret l"
  shows "unat l = unat s mod length signers + 1"
proof -
  have u: "unat (of_nat (length signers) :: u64) = length signers" using assms(2) by (simp add: unat_of_nat)
  have m: "unat (s mod of_nat (length signers)) = unat s mod length signers" by (simp add: unat_mod u)
  moreover have "unat s mod length signers < length signers" using assms(1) by simp
  moreover have l: "l = s mod of_nat (length signers) + 1"
    using assms(3) RoundRobinLeader_total [OF assms(1,2), of s] by simp
  ultimately show ?thesis
    using assms(2) unat_word_ariths(1) [of "s mod of_nat (length signers)" 1] by simp
qed

text \<open>C33: leaders rotate.  With signers numbered from one, the leader of a sequence number is one of
  them, and of any \<open>count\<close> consecutive sequence numbers that do not wrap around each signer leads
  exactly one; with no signers the computation panics.\<close>

theorem bls_leader_rotation:
  assumes "signers \<noteq> []" "length signers < 2 ^ 63" "unat s + length signers \<le> 2 ^ 64"
    and "1 \<le> i" "i \<le> length signers"
  shows "(\<exists>!k. k < length signers \<and> RoundRobinLeader (s + of_nat k) signers = Ret (of_nat i))
    \<and> RoundRobinLeader s ([] :: (u64 \<times> 'pk) list) = Panic IntegerDivideByZero"
proof -
  let ?n = "length signers"
  have "unat (s + of_nat k) = unat s + k" if "k < ?n" for k
    using that assms(3) by (simp add: unat_word_ariths unat_of_nat)
  then have lead: "RoundRobinLeader (s + of_nat k) signers = Ret (of_nat i) \<longleftrightarrow> (unat s + k) mod ?n + 1 = i"
    if "k < ?n" for k
  proof -
    obtain l where l: "RoundRobinLeader (s + of_nat k) signers = Ret l"
      using RoundRobinLeader_total [OF assms(1,2)] by blast
    have "l = of_nat i \<longleftrightarrow> unat l = i" using assms(2,5) by (auto simp: unat_of_nat)
    with leader_nat [OF assms(1,2) l] l that show ?thesis
      using \<open>\<And>k. k < ?n \<Longrightarrow> unat (s + of_nat k) = unat s + k\<close> by simp
  qed
  have "\<exists>!k. k < ?n \<and> (unat s + k) mod ?n + 1 = i"
  proof (rule ex_ex1I)
    let ?k = "(i - 1 + ?n - unat s mod ?n) mod ?n"
    have "unat s mod ?n < ?n" using assms(1) by simp
    then have "(unat s + ?k) mod ?n = (unat s mod ?n + (i - 1 + ?n - unat s mod ?n)) mod ?n"
      by (metis mod_add_eq mod_add_left_eq)
    also have "\<dots> = (i - 1) mod ?n" using \<open>unat s mod ?n < ?n\<close> by simp
    also have "\<dots> = i - 1" using assms(4,5) by simp
    finally show "\<exists>k. k < ?n \<and> (unat s + k) mod ?n + 1 = i" using assms(1,4) by (intro exI [of _ ?k]) simp
  next
    fix k k' assume "k < ?n \<and> (unat s + k) mod ?n + 1 = i" "k' < ?n \<and> (unat s + k') mod ?n + 1 = i"
    then have "k < ?n" "k' < ?n" "(unat s + k) mod ?n = (unat s + k') mod ?n" by auto
    then obtain p q where "unat s + k + ?n * p = unat s + k' + ?n * q" using nat_mod_eq_iff by blast
    then have "(k + ?n * p) mod ?n = (k' + ?n * q) mod ?n" by simp
    then show "k = k'" using \<open>k < ?n\<close> \<open>k' < ?n\<close> by simp
  qed
  moreover have "(k < ?n \<and> RoundRobinLeader (s + of_nat k) signers = Ret (of_nat i))
      \<longleftrightarrow> (k < ?n \<and> (unat s + k) mod ?n + 1 = i)" for k using lead by blast
  moreover have "RoundRobinLeader s ([] :: (u64 \<times> 'pk) list) = Panic IntegerDivideByZero"
    by (simp add: RoundRobinLeader_def umod64_def)
  ultimately show ?thesis by presburger
qed

theorem bls_leader_rotation_witness:
  "\<exists>!k. k < length [(1 :: u64, ()), (2, ()), (3, ()), (4, ())] \<and>
     RoundRobinLeader (7 + of_nat k) [(1, ()), (2, ()), (3, ()), (4, ())] = Ret (of_nat 2)"
  by (rule conjunct1 [OF bls_leader_rotation]) simp_all

lemma update_length: "length (AList.update k v xs) \<le> Suc (length xs)"
  by (induction xs) auto

lemma collect_loop_length:
  "collect_loop env seq b signers acc = Ret sigs \<Longrightarrow> length sigs \<le> length acc + length signers"
proof (induction signers arbitrary: acc)
  case (Cons s xs)
  show ?case
  proof (cases rule: collect_loop_Cons [OF Cons.prems])
    case (2 i rep sg)
    with Cons.IH update_length [of i "Serialize env sg" acc] show ?thesis by fastforce
  qed (use Cons.IH in fastforce)
qed simp

text \<open>at the quorum exactly nothing is reconstructed.  \<open>hasQuorum\<close> holds from the threshold on and
  starts the last goroutine, which asks for strictly more signatures than the threshold; with as
  many signers as the threshold it therefore sends nothing.\<close>

theorem bls_exact_quorum_stalls:
  assumes "node_ok n" "a < length (nd_heap n)" "int (length signers) = quorumCount n (bsr_Network sr)"
  shows "hasQuorum n sr signers \<and> run_finish env n a sr signers = Ret []"
proof -
  have "bb_inv (nd_heap n ! a)" using assms by (simp add: node_ok_def buf_ok_def)
  from collect_total [OF this] obtain sigs
    where "collectSignatures env (bsr_SeqNumber sr) (nd_heap n ! a) signers = Ret sigs"
    unfolding collectSignatures_def by blast
  with collect_loop_length [of env "bsr_SeqNumber sr" "nd_heap n ! a" signers "[]" sigs] assms(3)
  show ?thesis by (simp add: hasQuorum_def run_finish_def collectSignatures_def)
qed

theorem bls_exact_quorum_stalls_witness:
  "\<exists>n. hasQuorum n (zeroReport\<lparr>bsr_Network := ''n''\<rparr>) [''1'', ''2'', ''3''] \<and>
     run_finish toy_env n 0 (zeroReport\<lparr>bsr_Network := ''n''\<rparr>) [''1'', ''2'', ''3''] = Ret []"
proof -
  let ?n = "toy_node\<lparr>nd_heap := [NewReportBuffer reportBufferSize]\<rparr>"
  have "node_ok ?n" using toy_node_ok by (simp add: node_ok_def buf_ok_new toy_node_def NewNode_def)
  moreover have "quorumCount ?n ''n'' = 3"
    by (simp add: quorumCount_def toy_node_def QuorumCount_def toy_share_def Threshold_def signed_divide_int_def)
  ultimately show ?thesis
    using bls_exact_quorum_stalls [of ?n 0 "[''1'', ''2'', ''3'']" "zeroReport\<lparr>bsr_Network := ''n''\<rparr>" toy_env]
    by (intro exI [of _ ?n]) simp
qed



end
