(* ===== verification/Val_Router.thy ===== *)
theory Val_Router
  imports Proto
begin

text \<open>
  The validation router of the gRPC interface (\<open>api/grpc/val_router.go\<close>): \<open>PushWait\<close> hands a message to
  the connected validators and waits for a verdict, \<open>Handle\<close> sends the queued messages to a stream,
  \<open>receiver\<close> takes the verdicts that come back and resolves the waiting calls by message id.

  Calls of \<open>PushWait\<close> and receptions interleave at their channel and lock operations.  A call is
  identified by its channel, which \<open>add\<close> creates.  \<open>vr_replies\<close> records the verdicts received and
  is not part of the program.
\<close>

section \<open>State\<close>

datatype psResult = ValidationAccept | ValidationReject | ValidationIgnore

text \<open>
  A call of \<open>PushWait\<close>: after \<open>add\<close>, after the queue, in the second \<open>select\<close>, at the deferred \<open>cancel\<close>,
  returned.
\<close>

datatype pw_state = Added | Queued | Awaiting | Cancelling psResult | Returned psResult

record pw_call =
  pw_msg :: Message
  pw_st :: pw_state

record ValidationRouterImpl =
  vr_qSize :: nat
  vr_q :: "Message list"
  vr_results :: "string \<Rightarrow> nat option option"
  vr_calls :: "nat \<Rightarrow> pw_call option"
  vr_next :: nat
  vr_resolving :: "(nat \<times> psResult) list"
  vr_replies :: "(string \<times> ValidationResult) list"

definition NewValidationRouterServer :: "nat \<Rightarrow> ValidationRouterImpl" where
  "NewValidationRouterServer qSize = \<lparr>vr_qSize = qSize, vr_q = [], vr_results = (\<lambda>_. None),
     vr_calls = (\<lambda>_. None), vr_next = 0, vr_resolving = [], vr_replies = []\<rparr>"

definition convertResult :: "ValidationResult \<Rightarrow> psResult" where
  "convertResult res =
     (if res = VR_ACCEPT then ValidationAccept
      else if res = VR_REJECT then ValidationReject
      else ValidationIgnore)"

section \<open>The table of results\<close>

text \<open>The value of a key is a channel or, after \<open>cancel\<close>, a nil channel.\<close>

definition results_add :: "ValidationRouterImpl \<Rightarrow> string \<Rightarrow> ValidationRouterImpl \<times> nat" where
  "results_add s mid =
     (let c = vr_next s
      in (s\<lparr>vr_next := Suc c, vr_results := (vr_results s)(mid \<mapsto> Some c)\<rparr>, c))"

definition results_cancel :: "ValidationRouterImpl \<Rightarrow> string \<Rightarrow> ValidationRouterImpl" where
  "results_cancel s mid =
     (case vr_results s mid of
        Some _ \<Rightarrow> s\<lparr>vr_results := (vr_results s)(mid \<mapsto> None)\<rparr>
      | None \<Rightarrow> s)"

text \<open>
  \<open>resolve\<close> looks the channel up under the lock and sends after releasing it: the two are separate
  steps.  A nil channel never takes the value.
\<close>

definition results_resolve :: "ValidationRouterImpl \<Rightarrow> string \<Rightarrow> psResult \<Rightarrow> ValidationRouterImpl" where
  "results_resolve s mid res =
     (case vr_results s mid of
        Some (Some c) \<Rightarrow> s\<lparr>vr_resolving := vr_resolving s @ [(c, res)]\<rparr>
      | Some None \<Rightarrow> s
      | None \<Rightarrow> s)"

definition set_state :: "ValidationRouterImpl \<Rightarrow> nat \<Rightarrow> pw_state \<Rightarrow> ValidationRouterImpl" where
  "set_state s c st =
     (case vr_calls s c of None \<Rightarrow> s | Some k \<Rightarrow> s\<lparr>vr_calls := (vr_calls s)(c \<mapsto> k\<lparr>pw_st := st\<rparr>)\<rparr>)"

definition call_in :: "ValidationRouterImpl \<Rightarrow> nat \<Rightarrow> pw_state \<Rightarrow> bool" where
  "call_in s c st = (case vr_calls s c of None \<Rightarrow> False | Some k \<Rightarrow> pw_st k = st)"

text \<open>The send of the \<open>j\<close>-th lookup that is under way: each stream has a receiver of its own, so they
  finish in any order.\<close>

definition resolve_send :: "ValidationRouterImpl \<Rightarrow> nat \<Rightarrow> ValidationRouterImpl option" where
  "resolve_send s j =
     (if j < length (vr_resolving s)
      then (let (c, res) = vr_resolving s ! j;
                s = s\<lparr>vr_resolving := take j (vr_resolving s) @ drop (Suc j) (vr_resolving s)\<rparr>
            in Some (if call_in s c Awaiting then set_state s c (Cancelling res) else s))
      else None)"

lemma resolve_send_cases:
  assumes "resolve_send s j = Some s'"
  obtains c res rest where "(c, res) \<in> set (vr_resolving s)" "set rest \<subseteq> set (vr_resolving s)"
    "s' = (let t = s\<lparr>vr_resolving := rest\<rparr> in if call_in t c Awaiting then set_state t c (Cancelling res) else t)"
proof -
  have j: "j < length (vr_resolving s)" using assms by (auto simp: resolve_send_def split: if_splits)
  obtain c res where c: "vr_resolving s ! j = (c, res)" by fastforce
  show ?thesis
  proof (rule that)
    show "(c, res) \<in> set (vr_resolving s)" using nth_mem [OF j] c by simp
    show "set (take j (vr_resolving s) @ drop (Suc j) (vr_resolving s)) \<subseteq> set (vr_resolving s)"
      by (auto dest: in_set_takeD in_set_dropD)
    show "s' = (let t = s\<lparr>vr_resolving := take j (vr_resolving s) @ drop (Suc j) (vr_resolving s)\<rparr>
        in if call_in t c Awaiting then set_state t c (Cancelling res) else t)"
      using assms j c by (simp add: resolve_send_def Let_def)
  qed
qed

section \<open>Calls of PushWait\<close>

definition pushWait_add :: "ValidationRouterImpl \<Rightarrow> Message \<Rightarrow> ValidationRouterImpl" where
  "pushWait_add s m =
     (let (s, c) = results_add s (msg_MessageId m)
      in s\<lparr>vr_calls := (vr_calls s)(c \<mapsto> \<lparr>pw_msg = m, pw_st = Added\<rparr>)\<rparr>)"

text \<open>The first \<open>select\<close>.  With no buffer it hands the message to a stream that waits at this
  moment (\<open>rx\<close>).\<close>

definition pushWait_queue :: "ValidationRouterImpl \<Rightarrow> nat \<Rightarrow> bool \<Rightarrow> ValidationRouterImpl option" where
  "pushWait_queue s c rx =
     (case vr_calls s c of
        Some k \<Rightarrow>
          if pw_st k = Added then
            Some (if length (vr_q s) < vr_qSize s
                  then set_state (s\<lparr>vr_q := vr_q s @ [pw_msg k]\<rparr>) c Queued
                  else if vr_qSize s = 0 \<and> rx then set_state s c Queued
                  else set_state s c (Cancelling ValidationIgnore))
          else None
      | None \<Rightarrow> None)"

definition pushWait_wait :: "ValidationRouterImpl \<Rightarrow> nat \<Rightarrow> ValidationRouterImpl option" where
  "pushWait_wait s c = (if call_in s c Queued then Some (set_state s c Awaiting) else None)"

definition pushWait_timeout :: "ValidationRouterImpl \<Rightarrow> nat \<Rightarrow> ValidationRouterImpl option" where
  "pushWait_timeout s c =
     (if call_in s c Awaiting then Some (set_state s c (Cancelling ValidationIgnore)) else None)"

definition pushWait_return :: "ValidationRouterImpl \<Rightarrow> nat \<Rightarrow> ValidationRouterImpl option" where
  "pushWait_return s c =
     (case vr_calls s c of
        Some k \<Rightarrow> (case pw_st k of
            Cancelling res \<Rightarrow> Some (set_state (results_cancel s (msg_MessageId (pw_msg k))) c (Returned res))
          | _ \<Rightarrow> None)
      | None \<Rightarrow> None)"

section \<open>Streams\<close>

text \<open>One iteration of the loop of \<open>Handle\<close> on a stream; the message is lost if \<open>Send\<close> fails.\<close>

datatype stream_err = EOF | Canceled | OtherErr string

definition streamErr :: "stream_err \<Rightarrow> err" where
  "streamErr e = (case e of EOF \<Rightarrow> None | Canceled \<Rightarrow> None | OtherErr m \<Rightarrow> Some m)"

definition handle_next :: "ValidationRouterImpl \<Rightarrow> (Message \<Rightarrow> stream_err option)
    \<Rightarrow> (ValidationRouterImpl \<times> err option) option" where
  "handle_next s send =
     (case vr_q s of
        [] \<Rightarrow> None
      | m # q \<Rightarrow> Some (s\<lparr>vr_q := q\<rparr>, case send m of None \<Rightarrow> None | Some e \<Rightarrow> Some (streamErr e)))"

text \<open>One reception: \<open>None\<close> ends the receiver (end of stream); an error or an empty reply is skipped.\<close>

definition receive_reply :: "ValidationRouterImpl \<Rightarrow> stream_err + ValidatedMessage option
    \<Rightarrow> ValidationRouterImpl option" where
  "receive_reply s r =
     (case r of
        Inl EOF \<Rightarrow> None
      | Inl Canceled \<Rightarrow> None
      | Inl (OtherErr _) \<Rightarrow> Some s
      | Inr res \<Rightarrow>
          if res = None \<or> ValidatedMessage_GetMsg res = None then Some s
          else (let mid = Message_GetMessageId (ValidatedMessage_GetMsg res);
                    v = ValidatedMessage_GetResult res
                in Some (results_resolve (s\<lparr>vr_replies := vr_replies s @ [(mid, v)]\<rparr>) mid (convertResult v))))"

inductive vr_step :: "ValidationRouterImpl \<Rightarrow> ValidationRouterImpl \<Rightarrow> bool" where
  push: "vr_step s (pushWait_add s m)"
| queue: "pushWait_queue s c rx = Some s' \<Longrightarrow> vr_step s s'"
| await: "pushWait_wait s c = Some s' \<Longrightarrow> vr_step s s'"
| timeout: "pushWait_timeout s c = Some s' \<Longrightarrow> vr_step s s'"
| return: "pushWait_return s c = Some s' \<Longrightarrow> vr_step s s'"
| stream: "handle_next s send = Some (s', r) \<Longrightarrow> vr_step s s'"
| reply: "receive_reply s r = Some s' \<Longrightarrow> vr_step s s'"
| resolve: "resolve_send s j = Some s' \<Longrightarrow> vr_step s s'"

text \<open>
  The two loops of a stream on their own: \<open>Handle\<close> sends what is queued now, for at most \<open>n\<close> iterations before
  the context is done; \<open>receiver\<close> is given, for each iteration, whether its context is done and what \<open>Recv\<close>
  returns, and says whether it has returned.
\<close>

fun handle_loop :: "nat \<Rightarrow> ValidationRouterImpl \<Rightarrow> (Message \<Rightarrow> stream_err option) \<Rightarrow> ValidationRouterImpl \<times> err option" where
  "handle_loop 0 s send = (s, Some None)"
| "handle_loop (Suc n) s send =
     (case handle_next s send of
        None \<Rightarrow> (s, None)
      | Some (s, Some e) \<Rightarrow> (s, Some e)
      | Some (s, None) \<Rightarrow> handle_loop n s send)"

fun receiver :: "(bool \<times> (stream_err + ValidatedMessage option)) list \<Rightarrow> ValidationRouterImpl \<Rightarrow> ValidationRouterImpl \<times> bool" where
  "receiver [] s = (s, False)"
| "receiver ((ctxDone, r) # rs) s =
     (if ctxDone then (s, True)
      else (case receive_reply s r of None \<Rightarrow> (s, True) | Some s \<Rightarrow> receiver rs s))"

lemma handle_loop_run: "vr_step\<^sup>*\<^sup>* s (fst (handle_loop n s send))"
  by (induction n arbitrary: s)
    (auto split: option.splits prod.splits intro: converse_rtranclp_into_rtranclp [of vr_step, OF vr_step.stream])

lemma receiver_run: "vr_step\<^sup>*\<^sup>* s (fst (receiver rs s))"
proof (induction rs arbitrary: s)
  case (Cons r rs)
  then show ?case
    by (cases r) (auto split: option.splits intro: converse_rtranclp_into_rtranclp [of vr_step, OF vr_step.reply])
qed simp

text \<open>\<open>Handle\<close> takes the messages in the order of the queue; it ends with an error only behind a failed \<open>Send\<close>.\<close>

lemma handle_loop_queue:
  "handle_loop n s send = (s', e) \<Longrightarrow> \<exists>k \<le> n. vr_q s' = drop k (vr_q s) \<and> vr_results s' = vr_results s
     \<and> (\<forall>m. e = Some (Some m) \<longrightarrow> 0 < k \<and> send (vr_q s ! (k - 1)) = Some (OtherErr m))"
proof (induction n arbitrary: s)
  case (Suc n)
  show ?case
  proof (cases "vr_q s")
    case Nil
    with Suc.prems show ?thesis by (auto simp: handle_next_def)
  next
    case (Cons m q)
    show ?thesis
    proof (cases "send m")
      case None
      with Suc.prems Cons have "handle_loop n (s\<lparr>vr_q := q\<rparr>) send = (s', e)" by (simp add: handle_next_def)
      from Suc.IH [OF this] obtain k where "k \<le> n" "vr_q s' = drop k q" "vr_results s' = vr_results s"
        "\<And>m. e = Some (Some m) \<Longrightarrow> 0 < k \<and> send (q ! (k - 1)) = Some (OtherErr m)" by auto
      then show ?thesis using Cons by (intro exI [of _ "Suc k"]) (auto simp: nth_Cons')
    next
      case (Some x)
      with Suc.prems Cons show ?thesis
        by (intro exI [of _ 1]) (auto simp: handle_next_def streamErr_def split: stream_err.splits)
    qed
  qed
qed auto

section \<open>Invariants\<close>

text \<open>A verdict is backed if a validator sent it under this message id.\<close>

definition backed :: "(string \<times> ValidationResult) list \<Rightarrow> string \<Rightarrow> psResult \<Rightarrow> bool" where
  "backed rs mid res \<longleftrightarrow> (\<exists>v. (mid, v) \<in> set rs \<and> convertResult v = res)"

definition verdict_ok :: "(string \<times> ValidationResult) list \<Rightarrow> string \<Rightarrow> pw_state \<Rightarrow> bool" where
  "verdict_ok rs mid st = (case st of
      Cancelling res \<Rightarrow> res = ValidationIgnore \<or> backed rs mid res
    | Returned res \<Rightarrow> res = ValidationIgnore \<or> backed rs mid res
    | _ \<Rightarrow> True)"

abbreviation call_mid :: "pw_call \<Rightarrow> string" where
  "call_mid k \<equiv> msg_MessageId (pw_msg k)"

text \<open>
  Calls have channels already created, backed verdicts and a key in the table; a channel in the table
  belongs to a call with that message id; every key comes from a call; a verdict on its way was sent for
  the id of the call it goes to.
\<close>

definition vr_inv :: "ValidationRouterImpl \<Rightarrow> bool" where
  "vr_inv s \<longleftrightarrow>
     (\<forall>c k. vr_calls s c = Some k \<longrightarrow> c < vr_next s \<and> verdict_ok (vr_replies s) (call_mid k) (pw_st k)
        \<and> vr_results s (call_mid k) \<noteq> None) \<and>
     (\<forall>mid c. vr_results s mid = Some (Some c) \<longrightarrow> map_option call_mid (vr_calls s c) = Some mid) \<and>
     (\<forall>mid. vr_results s mid \<noteq> None \<longrightarrow> (\<exists>c. map_option call_mid (vr_calls s c) = Some mid)) \<and>
     (\<forall>x \<in> set (vr_resolving s). \<exists>mid. map_option call_mid (vr_calls s (fst x)) = Some mid
        \<and> backed (vr_replies s) mid (snd x)) \<and>
     length (vr_q s) \<le> vr_qSize s"

lemma set_state_simps [simp]:
  "vr_q (set_state s c st) = vr_q s" "vr_qSize (set_state s c st) = vr_qSize s"
  "vr_results (set_state s c st) = vr_results s" "vr_next (set_state s c st) = vr_next s"
  "vr_resolving (set_state s c st) = vr_resolving s" "vr_replies (set_state s c st) = vr_replies s"
  "vr_calls (set_state s c st) c' =
     (if c' = c then map_option (\<lambda>k. k\<lparr>pw_st := st\<rparr>) (vr_calls s c) else vr_calls s c')"
  by (simp_all add: set_state_def split: option.splits)

lemma set_state_mids [simp]: "map_option call_mid (vr_calls (set_state s c st) c') = map_option call_mid (vr_calls s c')"
  by (cases "vr_calls s c") auto

text \<open>Moving a call to another state keeps the invariant when the new verdict is backed.\<close>

lemma set_state_inv:
  assumes "vr_inv s" "\<And>k. vr_calls s c = Some k \<Longrightarrow> verdict_ok (vr_replies s) (call_mid k) st"
  shows "vr_inv (set_state s c st)"
proof -
  have "c' < vr_next s \<and> verdict_ok (vr_replies s) (call_mid k) (pw_st k) \<and> vr_results s (call_mid k) \<noteq> None"
    if "vr_calls (set_state s c st) c' = Some k" for c' k
    using that assms by (auto simp: vr_inv_def split: if_splits)
  with assms(1) show ?thesis unfolding vr_inv_def set_state_mids by simp
qed

lemma backed_append: "backed rs mid res \<Longrightarrow> backed (rs @ xs) mid res"
  by (auto simp: backed_def)

lemma verdict_append: "verdict_ok rs mid st \<Longrightarrow> verdict_ok (rs @ xs) mid st"
  by (auto simp: verdict_ok_def intro: backed_append split: pw_state.splits)

lemma verdict_trivial [simp]:
  "verdict_ok rs mid Added" "verdict_ok rs mid Queued" "verdict_ok rs mid Awaiting"
  "verdict_ok rs mid (Cancelling ValidationIgnore)"
  by (simp_all add: verdict_ok_def)

lemma replies_inv:
  assumes "vr_inv s"
  shows "vr_inv (s\<lparr>vr_replies := vr_replies s @ xs\<rparr>)"
proof -
  have "\<exists>mid. map_option call_mid (vr_calls s (fst x)) = Some mid \<and> backed (vr_replies s @ xs) mid (snd x)"
    if "x \<in> set (vr_resolving s)" for x
    using that assms backed_append unfolding vr_inv_def by metis
  then show ?thesis using assms verdict_append unfolding vr_inv_def by simp
qed

lemma add_inv:
  assumes "vr_inv s"
  shows "vr_inv (pushWait_add s m)"
proof -
  have new: "vr_calls s (vr_next s) = None"
    using assms unfolding vr_inv_def by (metis less_irrefl not_Some_eq)
  let ?s = "pushWait_add s m"
  have f: "vr_calls ?s = (vr_calls s)(vr_next s \<mapsto> \<lparr>pw_msg = m, pw_st = Added\<rparr>)" "vr_next ?s = Suc (vr_next s)"
    "vr_results ?s = (vr_results s)(msg_MessageId m \<mapsto> Some (vr_next s))" "vr_replies ?s = vr_replies s"
    "vr_resolving ?s = vr_resolving s" "vr_q ?s = vr_q s" "vr_qSize ?s = vr_qSize s"
    by (simp_all add: pushWait_add_def results_add_def Let_def)
  have old: "map_option call_mid (vr_calls s c) = Some mid \<Longrightarrow> map_option call_mid (vr_calls ?s c) = Some mid"
    for c mid using new f(1) by auto
  have r: "map_option call_mid (vr_calls ?s c) = Some mid" if "vr_results ?s mid = Some (Some c)" for mid c
  proof (cases "mid = msg_MessageId m")
    case False
    with that f(3) assms have "map_option call_mid (vr_calls s c) = Some mid" unfolding vr_inv_def by auto
    then show ?thesis by (rule old)
  qed (use that f(1,3) in auto)
  have e: "vr_results ?s mid \<noteq> None \<Longrightarrow> \<exists>c. map_option call_mid (vr_calls ?s c) = Some mid" for mid
  proof (cases "mid = msg_MessageId m")
    case True
    then show ?thesis using f(1) by (intro exI [of _ "vr_next s"]) simp
  next
    case False
    assume "vr_results ?s mid \<noteq> None"
    with False f(3) have "vr_results s mid \<noteq> None" by simp
    with assms obtain c where "map_option call_mid (vr_calls s c) = Some mid" unfolding vr_inv_def by blast
    with old show ?thesis by blast
  qed
  have p: "\<exists>mid. map_option call_mid (vr_calls ?s (fst x)) = Some mid \<and> backed (vr_replies ?s) mid (snd x)"
    if "x \<in> set (vr_resolving ?s)" for x
    using that assms old f(4,5) unfolding vr_inv_def by metis
  have c: "c < vr_next ?s \<and> verdict_ok (vr_replies ?s) (call_mid k) (pw_st k) \<and> vr_results ?s (call_mid k) \<noteq> None"
    if "vr_calls ?s c = Some k" for c k
  proof (cases "c = vr_next s")
    case False
    with that f(1) have "vr_calls s c = Some k" by simp
    with assms have "c < vr_next s" "verdict_ok (vr_replies s) (call_mid k) (pw_st k)"
      "vr_results s (call_mid k) \<noteq> None" unfolding vr_inv_def by blast+
    with f show ?thesis by simp
  qed (use that f in auto)
  have "length (vr_q ?s) \<le> vr_qSize ?s" using assms f unfolding vr_inv_def by simp
  with r e p c show ?thesis unfolding vr_inv_def by blast
qed

lemma q_inv: "vr_inv s \<Longrightarrow> length q \<le> vr_qSize s \<Longrightarrow> vr_inv (s\<lparr>vr_q := q\<rparr>)"
  unfolding vr_inv_def by simp

lemma cancel_inv:
  assumes "vr_inv s"
  shows "vr_inv (results_cancel s mid)"
  using assms unfolding vr_inv_def results_cancel_def by (auto split: option.splits)

lemma vr_step_inv:
  assumes "vr_step s s'" "vr_inv s"
  shows "vr_inv s'"
  using assms(1)
proof (cases rule: vr_step.cases)
  case (push m)
  with add_inv assms(2) show ?thesis by simp
next
  case (queue c rx)
  then show ?thesis
    using assms(2) q_inv [OF assms(2)]
    by (auto simp: pushWait_queue_def intro!: set_state_inv split: option.splits if_splits)
next
  case (return c)
  then obtain k res where k: "vr_calls s c = Some k" "pw_st k = Cancelling res"
    "s' = set_state (results_cancel s (call_mid k)) c (Returned res)"
    by (auto simp: pushWait_return_def split: option.splits pw_state.splits)
  have "verdict_ok (vr_replies s) (call_mid k) (Cancelling res)" using k(1,2) assms(2) unfolding vr_inv_def by metis
  then have "verdict_ok (vr_replies s) (call_mid k) (Returned res)" by (simp add: verdict_ok_def)
  moreover have "vr_calls (results_cancel s m) = vr_calls s" "vr_replies (results_cancel s m) = vr_replies s" for m
    by (simp_all add: results_cancel_def split: option.splits)
  ultimately show ?thesis using k(1,3) cancel_inv [OF assms(2)] by (auto intro!: set_state_inv)
next
  case (stream send r)
  then obtain q where "s' = s\<lparr>vr_q := q\<rparr>" "length q \<le> length (vr_q s)"
    by (auto simp: handle_next_def split: list.splits)
  then show ?thesis using assms(2) q_inv [OF assms(2)] unfolding vr_inv_def by simp
next
  case (reply r)
  have res: "vr_inv (results_resolve s mid res)" if "vr_inv s" "backed (vr_replies s) mid res" for s mid res
    using that unfolding vr_inv_def results_resolve_def by (auto split: option.splits) blast
  have b: "backed (vr_replies s @ [(mid, v)]) mid (convertResult v)" for mid v by (auto simp: backed_def)
  from reply assms(2) show ?thesis
    by (auto simp: receive_reply_def Let_def b intro!: res replies_inv split: sum.splits stream_err.splits if_splits)
next
  case (resolve j)
  from resolve obtain c res rest where r: "(c, res) \<in> set (vr_resolving s)" "set rest \<subseteq> set (vr_resolving s)"
    "s' = (let t = s\<lparr>vr_resolving := rest\<rparr> in if call_in t c Awaiting then set_state t c (Cancelling res) else t)"
    by (rule resolve_send_cases)
  have t: "vr_inv (s\<lparr>vr_resolving := rest\<rparr>)" using assms(2) r(2) unfolding vr_inv_def by auto
  have "verdict_ok (vr_replies s) (call_mid k) (Cancelling res)" if "vr_calls s c = Some k" for k
    using that assms(2) r(1) unfolding vr_inv_def by (force simp: verdict_ok_def)
  with r(3) t show ?thesis by (auto simp: Let_def intro!: set_state_inv)
qed (use assms(2) in \<open>auto simp: pushWait_wait_def pushWait_timeout_def intro!: set_state_inv split: if_splits\<close>)

lemma vr_reachable_inv:
  assumes "vr_step\<^sup>*\<^sup>* (NewValidationRouterServer n) s"
  shows "vr_inv s"
  using assms
proof (induction rule: rtranclp_induct)
  case base
  then show ?case by (simp add: NewValidationRouterServer_def vr_inv_def)
qed (rule vr_step_inv)

text \<open>A call whose channel is no longer in the table and to which no verdict is on its way.\<close>

definition orphan :: "nat \<Rightarrow> ValidationRouterImpl \<Rightarrow> bool" where
  "orphan c s \<longleftrightarrow> (\<forall>mid. vr_results s mid \<noteq> Some (Some c)) \<and> c \<notin> fst ` set (vr_resolving s) \<and> c < vr_next s
     \<and> (\<exists>k. vr_calls s c = Some k \<and> pw_st k \<in> {Added, Queued, Awaiting, Cancelling ValidationIgnore, Returned ValidationIgnore})"

lemma orphan_set_state:
  assumes "orphan c s" "c' = c \<Longrightarrow> st \<in> {Added, Queued, Awaiting, Cancelling ValidationIgnore, Returned ValidationIgnore}"
  shows "orphan c (set_state s c' st)"
  using assms unfolding orphan_def by auto

lemma step_orphan:
  assumes "vr_step s s'" "orphan c s"
  shows "orphan c s'"
  using assms(1)
proof (cases rule: vr_step.cases)
  case (push m)
  with assms(2) show ?thesis by (auto simp: orphan_def pushWait_add_def results_add_def Let_def)
next
  case (queue c' rx)
  have "orphan c (s\<lparr>vr_q := q\<rparr>)" for q using assms(2) by (simp add: orphan_def)
  with queue assms(2) show ?thesis
    by (auto simp: pushWait_queue_def intro!: orphan_set_state split: option.splits if_splits)
next
  case (return c')
  then obtain k res where k: "vr_calls s c' = Some k" "pw_st k = Cancelling res"
    "s' = set_state (results_cancel s (call_mid k)) c' (Returned res)"
    by (auto simp: pushWait_return_def split: option.splits pw_state.splits)
  have "orphan c (results_cancel s mid)" for mid
    using assms(2) by (auto simp: orphan_def results_cancel_def split: option.splits)
  moreover have "res = ValidationIgnore" if "c' = c" using that k assms(2) by (auto simp: orphan_def)
  ultimately show ?thesis using k(3) by (auto intro!: orphan_set_state)
next
  case (stream send r)
  with assms(2) show ?thesis by (auto simp: handle_next_def orphan_def split: list.splits)
next
  case (reply r)
  have "orphan c (results_resolve s mid res)" if "orphan c s" for s mid res
    using that by (auto simp: orphan_def results_resolve_def split: option.splits)
  moreover have "orphan c (s\<lparr>vr_replies := rs\<rparr>)" for rs using assms(2) by (simp add: orphan_def)
  ultimately show ?thesis using reply assms(2)
    by (auto simp: receive_reply_def Let_def split: sum.splits stream_err.splits if_splits)
next
  case (resolve j)
  from resolve obtain d res rest where r: "(d, res) \<in> set (vr_resolving s)" "set rest \<subseteq> set (vr_resolving s)"
    "s' = (let t = s\<lparr>vr_resolving := rest\<rparr> in if call_in t d Awaiting then set_state t d (Cancelling res) else t)"
    by (rule resolve_send_cases)
  have "orphan c (s\<lparr>vr_resolving := rest\<rparr>)" "d \<noteq> c" using assms(2) r(1,2) by (force simp: orphan_def)+
  with r(3) show ?thesis by (auto simp: Let_def intro!: orphan_set_state)
qed (use assms(2) in \<open>auto simp: pushWait_wait_def pushWait_timeout_def intro!: orphan_set_state split: if_splits\<close>)

section \<open>Properties\<close>

lemmas vr_op_defs = pushWait_add_def results_add_def pushWait_queue_def pushWait_wait_def
  pushWait_timeout_def pushWait_return_def receive_reply_def resolve_send_def
  results_cancel_def results_resolve_def Let_def

text \<open>Running enabled operations one after the other.\<close>

fun vr_run :: "(ValidationRouterImpl \<Rightarrow> ValidationRouterImpl option) list \<Rightarrow> ValidationRouterImpl
    \<Rightarrow> ValidationRouterImpl option" where
  "vr_run [] s = Some s"
| "vr_run (f # fs) s = (case f s of None \<Rightarrow> None | Some s' \<Rightarrow> vr_run fs s')"

lemma vr_run_steps:
  assumes "vr_run fs s = Some s'" "\<forall>f \<in> set fs. \<forall>s s'. f s = Some s' \<longrightarrow> vr_step s s'"
  shows "vr_step\<^sup>*\<^sup>* s s'"
  using assms
proof (induction fs arbitrary: s)
  case (Cons f fs)
  then obtain s1 where "f s = Some s1" "vr_run fs s1 = Some s'" by (auto split: option.splits)
  with Cons show ?case by (meson converse_rtranclp_into_rtranclp list.set_intros)
qed simp

definition demo_msg :: Message where
  "demo_msg = \<lparr>msg_MessageId = ''id'', msg_Topic = ''t'', msg_Data = [1]\<rparr>"

text \<open>no verdict out of nothing.  Whatever the interleaving, a call of \<open>PushWait\<close> that returns accept
  or reject does so because a validator sent exactly this verdict, in a reply that names the id of
  the message of that call; a full queue, a timeout and any other reply give ignore.\<close>

theorem val_verdict_from_validator:
  assumes "vr_step\<^sup>*\<^sup>* (NewValidationRouterServer n) s" and "vr_calls s c = Some k"
    and "pw_st k = Returned res"
  shows "(res = ValidationAccept \<longrightarrow> (msg_MessageId (pw_msg k), VR_ACCEPT) \<in> set (vr_replies s))
    \<and> (res = ValidationReject \<longrightarrow> (msg_MessageId (pw_msg k), VR_REJECT) \<in> set (vr_replies s))"
proof -
  have "verdict_ok (vr_replies s) (call_mid k) (Returned res)"
    using vr_reachable_inv [OF assms(1)] assms(2,3) unfolding vr_inv_def by metis
  moreover have "convertResult v = ValidationAccept \<longleftrightarrow> v = VR_ACCEPT"
    "convertResult v = ValidationReject \<longleftrightarrow> v = VR_REJECT" for v
    by (auto simp: convertResult_def VR_defs)
  ultimately show ?thesis by (auto simp: verdict_ok_def backed_def)
qed

theorem val_verdict_from_validator_witness:
  "\<exists>s k. vr_run [\<lambda>s. Some (pushWait_add s demo_msg), \<lambda>s. pushWait_queue s 0 False, \<lambda>s. pushWait_wait s 0,
       \<lambda>s. receive_reply s (Inr (Some \<lparr>vm_Result = VR_ACCEPT, vm_Msg = Some demo_msg\<rparr>)), \<lambda>s. resolve_send s 0,
       \<lambda>s. pushWait_return s 0] (NewValidationRouterServer 1) = Some s
    \<and> vr_calls s 0 = Some k \<and> pw_st k = Returned ValidationAccept
    \<and> (msg_MessageId (pw_msg k), VR_ACCEPT) \<in> set (vr_replies s)"
proof -
  let ?fs = "[\<lambda>s. Some (pushWait_add s demo_msg), \<lambda>s. pushWait_queue s 0 False, \<lambda>s. pushWait_wait s 0,
       \<lambda>s. receive_reply s (Inr (Some \<lparr>vm_Result = VR_ACCEPT, vm_Msg = Some demo_msg\<rparr>)), \<lambda>s. resolve_send s 0,
       \<lambda>s. pushWait_return s 0]"
  obtain s k where s: "vr_run ?fs (NewValidationRouterServer 1) = Some s" "vr_calls s 0 = Some k"
    "pw_st k = Returned ValidationAccept"
    by (simp add: vr_op_defs NewValidationRouterServer_def demo_msg_def set_state_def call_in_def
        ValidatedMessage_GetMsg_def ValidatedMessage_GetResult_def Message_GetMessageId_def convertResult_def)
  have "vr_step\<^sup>*\<^sup>* (NewValidationRouterServer 1) s"
    by (rule vr_run_steps [OF s(1)]) (auto intro: vr_step.intros)
  from val_verdict_from_validator [OF this s(2,3)] s show ?thesis by blast
qed

text \<open>the table of results only grows.  \<open>cancel\<close> overwrites an entry with nil and never removes it: the
  keys of the table are exactly the ids of all messages ever pushed.\<close>

theorem val_results_never_removed:
  assumes "vr_step\<^sup>*\<^sup>* (NewValidationRouterServer n) s"
  shows "dom (vr_results s) = {msg_MessageId (pw_msg k) |c k. vr_calls s c = Some k}"
proof -
  have "vr_inv s" by (rule vr_reachable_inv [OF assms])
  then have a: "\<And>c k. vr_calls s c = Some k \<Longrightarrow> vr_results s (call_mid k) \<noteq> None"
    and b: "\<And>mid. vr_results s mid \<noteq> None \<Longrightarrow> \<exists>c. map_option call_mid (vr_calls s c) = Some mid"
    unfolding vr_inv_def by blast+
  show ?thesis
  proof (rule set_eqI)
    fix mid
    show "mid \<in> dom (vr_results s) \<longleftrightarrow> mid \<in> {call_mid k |c k. vr_calls s c = Some k}"
      using a b [of mid] by (auto simp: domIff)
  qed
qed

theorem val_results_never_removed_witness:
  "\<exists>s. vr_run [\<lambda>s. Some (pushWait_add s demo_msg), \<lambda>s. pushWait_queue s 0 False,
       \<lambda>s. pushWait_return s 0] (NewValidationRouterServer 0) = Some s
    \<and> dom (vr_results s) = {msg_MessageId (pw_msg k) |c k. vr_calls s c = Some k} \<and> vr_results s ''id'' = Some None"
proof -
  let ?fs = "[\<lambda>s. Some (pushWait_add s demo_msg), \<lambda>s. pushWait_queue s 0 False, \<lambda>s. pushWait_return s 0]"
  obtain s where s: "vr_run ?fs (NewValidationRouterServer 0) = Some s" "vr_results s ''id'' = Some None"
    by (simp add: vr_op_defs NewValidationRouterServer_def demo_msg_def set_state_def)
  have "vr_step\<^sup>*\<^sup>* (NewValidationRouterServer 0) s"
    by (rule vr_run_steps [OF s(1)]) (auto intro: vr_step.intros)
  from val_results_never_removed [OF this] s show ?thesis by blast
qed

text \<open>a second message with the same id takes over the entry of the first.  Once another call has
  replaced its channel, or another call with its id has returned, and no verdict is on its way to
  it, a call can no longer get any verdict: whatever the validators reply, it returns ignore.\<close>

theorem val_replaced_call_ignored:
  assumes "vr_step\<^sup>*\<^sup>* (NewValidationRouterServer n) s" and "vr_calls s c = Some k"
    and "pw_st k \<in> {Added, Queued, Awaiting}" and "vr_results s (msg_MessageId (pw_msg k)) \<noteq> Some (Some c)"
    and "c \<notin> fst ` set (vr_resolving s)" and "vr_step\<^sup>*\<^sup>* s s'" and "vr_calls s' c = Some k'"
    and "pw_st k' = Returned res"
  shows "res = ValidationIgnore"
proof -
  have "vr_inv s" by (rule vr_reachable_inv [OF assms(1)])
  then have "vr_results s mid \<noteq> Some (Some c)" "c < vr_next s" for mid
    using assms(2,4) unfolding vr_inv_def by fastforce+
  with assms(2,3,5) have "orphan c s" by (auto simp: orphan_def)
  with assms(6) have "orphan c s'" by (induction rule: rtranclp_induct) (auto intro: step_orphan)
  with assms(7,8) show ?thesis by (auto simp: orphan_def)
qed

theorem val_replaced_call_ignored_witness:
  "\<exists>s. vr_run [\<lambda>s. Some (pushWait_add s demo_msg), \<lambda>s. Some (pushWait_add s demo_msg)] (NewValidationRouterServer 2) = Some s
    \<and> (\<forall>s' k' res. vr_step\<^sup>*\<^sup>* s s' \<longrightarrow> vr_calls s' 0 = Some k' \<longrightarrow> pw_st k' = Returned res \<longrightarrow> res = ValidationIgnore)"
proof -
  let ?fs = "[\<lambda>s. Some (pushWait_add s demo_msg), \<lambda>s. Some (pushWait_add s demo_msg)]"
  obtain s where s: "vr_run ?fs (NewValidationRouterServer 2) = Some s" by simp
  have r: "vr_step\<^sup>*\<^sup>* (NewValidationRouterServer 2) s"
    by (rule vr_run_steps [OF s]) (auto intro: vr_step.intros)
  have f: "vr_calls s 0 = Some \<lparr>pw_msg = demo_msg, pw_st = Added\<rparr>" "vr_results s ''id'' = Some (Some 1)" "vr_resolving s = []"
    using s by (auto simp: vr_op_defs NewValidationRouterServer_def demo_msg_def)
  have "res = ValidationIgnore" if "vr_step\<^sup>*\<^sup>* s s'" "vr_calls s' 0 = Some k'" "pw_st k' = Returned res" for s' k' res
    using val_replaced_call_ignored [OF r f(1) _ _ _ that] f by (simp add: demo_msg_def)
  with s show ?thesis by blast
qed

end
