(* ===== verification/Pubsub_Trace.thy ===== *)
theory Pubsub_Trace
  imports Go_Strings
begin

text \<open>
  The event tracer of the pubsub layer (\<open>core/pubsub_trace.go\<close>): thirteen counters, the list of
  stored events and the forwarding to a second tracer.  The peer id library, the names of the event
  types and the second tracer are parameters.  Every method is one step: the counters are atomic and
  the list of events is changed under the lock of the tracer only.
\<close>

section \<open>Counters\<close>

record traceFaucets =
  tf_join :: u64
  tf_leave :: u64
  tf_publish :: u64
  tf_deliver :: u64
  tf_reject :: u64
  tf_duplicate :: u64
  tf_addPeer :: u64
  tf_removePeer :: u64
  tf_graft :: u64
  tf_prune :: u64
  tf_sendRPC :: u64
  tf_dropRPC :: u64
  tf_recvRPC :: u64

definition newTraceFaucets :: traceFaucets where
  "newTraceFaucets = \<lparr>tf_join = 0, tf_leave = 0, tf_publish = 0, tf_deliver = 0, tf_reject = 0,
     tf_duplicate = 0, tf_addPeer = 0, tf_removePeer = 0, tf_graft = 0, tf_prune = 0,
     tf_sendRPC = 0, tf_dropRPC = 0, tf_recvRPC = 0\<rparr>"

definition faucets_add :: "traceFaucets \<Rightarrow> traceFaucets \<Rightarrow> traceFaucets" where
  "faucets_add tf other = tf\<lparr>
     tf_join := tf_join tf + tf_join other,
     tf_leave := tf_leave tf + tf_leave other,
     tf_publish := tf_publish tf + tf_publish other,
     tf_deliver := tf_deliver tf + tf_deliver other,
     tf_reject := tf_reject tf + tf_reject other,
     tf_duplicate := tf_duplicate tf + tf_duplicate other,
     tf_addPeer := tf_addPeer tf + tf_addPeer other,
     tf_removePeer := tf_removePeer tf + tf_removePeer other,
     tf_graft := tf_graft tf + tf_graft other,
     tf_prune := tf_prune tf + tf_prune other,
     tf_sendRPC := tf_sendRPC tf + tf_sendRPC other,
     tf_dropRPC := tf_dropRPC tf + tf_dropRPC other,
     tf_recvRPC := tf_recvRPC tf + tf_recvRPC other\<rparr>"

definition faucets_set :: "traceFaucets \<Rightarrow> traceFaucets \<Rightarrow> traceFaucets" where
  "faucets_set tf other = tf\<lparr>
     tf_join := tf_join other,
     tf_leave := tf_leave other,
     tf_publish := tf_publish other,
     tf_deliver := tf_deliver other,
     tf_reject := tf_reject other,
     tf_duplicate := tf_duplicate other,
     tf_addPeer := tf_addPeer other,
     tf_removePeer := tf_removePeer other,
     tf_graft := tf_graft other,
     tf_prune := tf_prune other,
     tf_sendRPC := tf_sendRPC other,
     tf_dropRPC := tf_dropRPC other,
     tf_recvRPC := tf_recvRPC other\<rparr>"

section \<open>Events\<close>

datatype TraceEvent_Type =
    PUBLISH_MESSAGE | REJECT_MESSAGE | DUPLICATE_MESSAGE | DELIVER_MESSAGE | ADD_PEER | REMOVE_PEER
  | RECV_RPC | SEND_RPC | DROP_RPC | JOIN | LEAVE | GRAFT | PRUNE | OtherEvent int

record ControlIHaveMeta =
  ih_Topic :: string
  ih_MessageIDs :: "bytes list"

record ControlIWantMeta =
  iw_MessageIDs :: "bytes list"

record ControlMeta =
  cm_Ihave :: "ControlIHaveMeta list"
  cm_Iwant :: "ControlIWantMeta list"

record RPCMeta =
  rm_Control :: "ControlMeta option"
  rm_Subscription :: "string list"

text \<open>
  An event as its getters return it: \<open>te_MessageID\<close>, \<open>te_Topic\<close>, \<open>te_ReceivedFrom\<close>, \<open>te_Reason\<close>,
  \<open>te_Peer\<close> (\<open>GetPeerID\<close> or \<open>GetSendTo\<close>) and \<open>te_Meta\<close> are those of the submessage that belongs to the
  type of the event, with the zero values for a submessage that is nil.
\<close>

record TraceEvent =
  te_Type :: TraceEvent_Type
  te_PeerID :: bytes
  te_MessageID :: bytes
  te_Topic :: string
  te_ReceivedFrom :: bytes
  te_Reason :: string
  te_Peer :: bytes
  te_Meta :: "RPCMeta option"

type_synonym eventFields = "string \<Rightarrow> string option"

record ('pid, 'tr) trace_lib =
  tl_IDFromBytes :: "bytes \<Rightarrow> 'pid \<times> err"
  tl_PidString :: "'pid \<Rightarrow> string"
  tl_TypeString :: "TraceEvent_Type \<Rightarrow> string"
  tl_SubTrace :: "'tr \<Rightarrow> TraceEvent \<Rightarrow> 'tr"

definition hex_ids :: "bytes list \<Rightarrow> string list" where
  "hex_ids mids = map EncodeToString mids"

fun ihave_loop :: "eventFields \<Rightarrow> ControlIHaveMeta list \<Rightarrow> eventFields" where
  "ihave_loop flds [] = flds"
| "ihave_loop flds (im # ims) =
     ihave_loop (flds(ih_Topic im @ ''-IHAVEmsgIDs'' \<mapsto> Join (hex_ids (ih_MessageIDs im)) '','')) ims"

definition appendIHave :: "eventFields \<Rightarrow> ControlIHaveMeta list \<Rightarrow> eventFields" where
  "appendIHave flds ihave =
     (if length ihave > 0
      then ihave_loop (flds(''ihaveCount'' \<mapsto> show_int (int (length ihave)))) ihave
      else flds)"

fun iwant_loop :: "string list \<Rightarrow> ControlIWantMeta list \<Rightarrow> string list" where
  "iwant_loop mids [] = mids"
| "iwant_loop mids (im # ims) = iwant_loop (mids @ hex_ids (iw_MessageIDs im)) ims"

definition appendIWant :: "eventFields \<Rightarrow> string \<Rightarrow> ControlIWantMeta list \<Rightarrow> eventFields" where
  "appendIWant flds peer iwant =
     (if length iwant > 0
      then flds(''iwantCount'' \<mapsto> show_int (int (length iwant)),
                  peer @ ''-IWANTmsgIDs'' \<mapsto> Join (iwant_loop [] iwant) '','')
      else flds)"

text \<open>The fields every event has.\<close>

definition base_fields :: "('pid, 'tr) trace_lib \<Rightarrow> string \<Rightarrow> TraceEvent \<Rightarrow> eventFields" where
  "base_fields lib now evt =
     (let flds = Map.empty(''type'' \<mapsto> tl_TypeString lib (te_Type evt));
          flds = flds(''time'' \<mapsto> now);
          (pid, e) = tl_IDFromBytes lib (te_PeerID evt);
          flds = (if e \<noteq> None then flds(''peerID'' \<mapsto> ''error'') else flds)
      in flds(''peerID'' \<mapsto> tl_PidString lib pid))"

text \<open>The block \<open>if err == nil { fields[key] = pid.String() }\<close> after \<open>peer.IDFromBytes\<close>.\<close>

definition peer_field :: "('pid, 'tr) trace_lib \<Rightarrow> eventFields \<Rightarrow> string \<Rightarrow> bytes \<Rightarrow> eventFields" where
  "peer_field lib flds key bs =
     (let (pid, e) = tl_IDFromBytes lib bs
      in if e = None then flds(key \<mapsto> tl_PidString lib pid) else flds)"

definition rpc_fields :: "eventFields \<Rightarrow> string \<Rightarrow> RPCMeta option \<Rightarrow> eventFields" where
  "rpc_fields flds peer meta =
     (case meta of
        None \<Rightarrow> flds
      | Some meta \<Rightarrow>
          (let flds = (case rm_Control meta of
                 None \<Rightarrow> flds
               | Some ctrl \<Rightarrow> appendIWant (appendIHave flds (cm_Ihave ctrl)) peer (cm_Iwant ctrl))
           in flds(''subs'' \<mapsto> Join (rm_Subscription meta) '','')))"

definition event_fields :: "('pid, 'tr) trace_lib \<Rightarrow> string \<Rightarrow> TraceEvent \<Rightarrow> eventFields" where
  "event_fields lib now evt =
     (let flds = base_fields lib now evt;
          mid = EncodeToString (te_MessageID evt)
      in case te_Type evt of
           PUBLISH_MESSAGE \<Rightarrow> flds(''msgID'' \<mapsto> mid, ''topic'' \<mapsto> te_Topic evt)
         | REJECT_MESSAGE \<Rightarrow> (peer_field lib flds ''receivedFrom'' (te_ReceivedFrom evt))
             (''msgID'' \<mapsto> mid, ''topic'' \<mapsto> te_Topic evt, ''reason'' \<mapsto> te_Reason evt)
         | DUPLICATE_MESSAGE \<Rightarrow> (peer_field lib flds ''receivedFrom'' (te_ReceivedFrom evt))
             (''msgID'' \<mapsto> mid, ''topic'' \<mapsto> te_Topic evt)
         | DELIVER_MESSAGE \<Rightarrow> (peer_field lib flds ''receivedFrom'' (te_ReceivedFrom evt))
             (''msgID'' \<mapsto> mid, ''topic'' \<mapsto> te_Topic evt)
         | ADD_PEER \<Rightarrow> peer_field lib flds ''targetPeer'' (te_Peer evt)
         | REMOVE_PEER \<Rightarrow> peer_field lib flds ''targetPeer'' (te_Peer evt)
         | JOIN \<Rightarrow> flds(''topic'' \<mapsto> te_Topic evt)
         | LEAVE \<Rightarrow> flds(''topic'' \<mapsto> te_Topic evt)
         | GRAFT \<Rightarrow> (peer_field lib flds ''graftPeer'' (te_Peer evt))(''topic'' \<mapsto> te_Topic evt)
         | PRUNE \<Rightarrow> (peer_field lib flds ''prunePeer'' (te_Peer evt))(''topic'' \<mapsto> te_Topic evt)
         | SEND_RPC \<Rightarrow> rpc_fields (peer_field lib flds ''targetPeer'' (te_Peer evt)) ''self'' (te_Meta evt)
         | DROP_RPC \<Rightarrow> peer_field lib flds ''targetPeer'' (te_Peer evt)
         | RECV_RPC \<Rightarrow> rpc_fields (peer_field lib flds ''receivedFrom'' (te_ReceivedFrom evt))
             (tl_PidString lib (fst (tl_IDFromBytes lib (te_ReceivedFrom evt)))) (te_Meta evt)
         | OtherEvent n \<Rightarrow> flds)"

definition count_event :: "traceFaucets \<Rightarrow> TraceEvent_Type \<Rightarrow> traceFaucets" where
  "count_event tf t = (case t of
      PUBLISH_MESSAGE \<Rightarrow> tf\<lparr>tf_publish := tf_publish tf + 1\<rparr>
    | REJECT_MESSAGE \<Rightarrow> tf\<lparr>tf_reject := tf_reject tf + 1\<rparr>
    | DUPLICATE_MESSAGE \<Rightarrow> tf\<lparr>tf_duplicate := tf_duplicate tf + 1\<rparr>
    | DELIVER_MESSAGE \<Rightarrow> tf\<lparr>tf_deliver := tf_deliver tf + 1\<rparr>
    | ADD_PEER \<Rightarrow> tf\<lparr>tf_addPeer := tf_addPeer tf + 1\<rparr>
    | REMOVE_PEER \<Rightarrow> tf\<lparr>tf_removePeer := tf_removePeer tf + 1\<rparr>
    | JOIN \<Rightarrow> tf\<lparr>tf_join := tf_join tf + 1\<rparr>
    | LEAVE \<Rightarrow> tf\<lparr>tf_leave := tf_leave tf + 1\<rparr>
    | GRAFT \<Rightarrow> tf\<lparr>tf_graft := tf_graft tf + 1\<rparr>
    | PRUNE \<Rightarrow> tf\<lparr>tf_prune := tf_prune tf + 1\<rparr>
    | SEND_RPC \<Rightarrow> tf\<lparr>tf_sendRPC := tf_sendRPC tf + 1\<rparr>
    | DROP_RPC \<Rightarrow> tf\<lparr>tf_dropRPC := tf_dropRPC tf + 1\<rparr>
    | RECV_RPC \<Rightarrow> tf\<lparr>tf_recvRPC := tf_recvRPC tf + 1\<rparr>
    | OtherEvent n \<Rightarrow> tf)"

section \<open>The tracer\<close>

text \<open>\<open>pst_lggr\<close> holds the debug lines, in order.\<close>

record 'tr psTracer =
  pst_lggr :: "eventFields list"
  pst_subTracer :: "'tr option"
  pst_skiplist :: "string list"
  pst_faucets :: traceFaucets
  pst_events :: "eventFields list"
  pst_debug :: bool

definition newPubsubTracer :: "bool \<Rightarrow> string list \<Rightarrow> 'tr option \<Rightarrow> 'tr psTracer" where
  "newPubsubTracer debug skiplist subTracer = \<lparr>pst_lggr = [], pst_subTracer = subTracer,
     pst_skiplist = skiplist, pst_faucets = newTraceFaucets, pst_events = [], pst_debug = debug\<rparr>"

definition Reset :: "'tr psTracer \<Rightarrow> 'tr psTracer" where
  "Reset pst = pst\<lparr>pst_events := [], pst_faucets := faucets_set (pst_faucets pst) newTraceFaucets\<rparr>"

definition debugEvent :: "'tr psTracer \<Rightarrow> eventFields \<Rightarrow> 'tr psTracer" where
  "debugEvent pst flds =
     (if pst_debug pst then pst\<lparr>pst_lggr := pst_lggr pst @ [flds]\<rparr> else pst)"

definition storeEvent :: "'tr psTracer \<Rightarrow> eventFields \<Rightarrow> 'tr psTracer" where
  "storeEvent pst flds = pst\<lparr>pst_events := pst_events pst @ [flds]\<rparr>"

fun skip_loop :: "string \<Rightarrow> string list \<Rightarrow> bool" where
  "skip_loop eventType [] = False"
| "skip_loop eventType (sk # sks) = (if eventType = sk then True else skip_loop eventType sks)"

definition shouldSkip :: "'tr psTracer \<Rightarrow> string \<Rightarrow> bool" where
  "shouldSkip pst eventType = skip_loop eventType (pst_skiplist pst)"

definition Trace :: "('pid, 'tr) trace_lib \<Rightarrow> string \<Rightarrow> 'tr psTracer \<Rightarrow> TraceEvent \<Rightarrow> 'tr psTracer" where
  "Trace lib now pst evt =
     (let pst = pst\<lparr>pst_faucets := count_event (pst_faucets pst) (te_Type evt)\<rparr>;
          flds = event_fields lib now evt
      in if shouldSkip pst (tl_TypeString lib (te_Type evt)) then pst
         else (let pst = storeEvent (debugEvent pst flds) flds
               in case pst_subTracer pst of
                    None \<Rightarrow> pst
                  | Some tr \<Rightarrow> pst\<lparr>pst_subTracer := Some (tl_SubTrace lib tr evt)\<rparr>))"

text \<open>A sequence of events, each with the time at which it is traced.\<close>

definition trace_all :: "('pid, 'tr) trace_lib \<Rightarrow> 'tr psTracer \<Rightarrow> (string \<times> TraceEvent) list \<Rightarrow> 'tr psTracer" where
  "trace_all lib pst evts = foldl (\<lambda>p (now, evt). Trace lib now p evt) pst evts"

section \<open>Reference\<close>

definition occurrences :: "TraceEvent list \<Rightarrow> TraceEvent_Type \<Rightarrow> u64" where
  "occurrences evts t = word_of_nat (length (filter (\<lambda>e. te_Type e = t) evts))"

text \<open>The counters as the number of events of each type, modulo \<open>2\<^sup>6\<^sup>4\<close>.\<close>

definition faucets_of :: "TraceEvent list \<Rightarrow> traceFaucets" where
  "faucets_of evts = \<lparr>tf_join = occurrences evts JOIN, tf_leave = occurrences evts LEAVE,
     tf_publish = occurrences evts PUBLISH_MESSAGE, tf_deliver = occurrences evts DELIVER_MESSAGE,
     tf_reject = occurrences evts REJECT_MESSAGE, tf_duplicate = occurrences evts DUPLICATE_MESSAGE,
     tf_addPeer = occurrences evts ADD_PEER, tf_removePeer = occurrences evts REMOVE_PEER,
     tf_graft = occurrences evts GRAFT, tf_prune = occurrences evts PRUNE,
     tf_sendRPC = occurrences evts SEND_RPC, tf_dropRPC = occurrences evts DROP_RPC,
     tf_recvRPC = occurrences evts RECV_RPC\<rparr>"

section \<open>Lemmas\<close>

lemma occurrences_simps [simp]:
  "occurrences [] t = 0"
  "occurrences (e # es) t = (if te_Type e = t then 1 else 0) + occurrences es t"
  by (simp_all add: occurrences_def)

lemma count_event_add:
  "count_event (faucets_add tf (faucets_of [])) t = count_event tf t"
  by (simp add: faucets_add_def faucets_of_def)

lemma count_events:
  "foldl (\<lambda>tf e. count_event tf (te_Type e)) tf es = faucets_add tf (faucets_of es)"
proof (induction es arbitrary: tf)
  case Nil
  then show ?case by (simp add: faucets_add_def faucets_of_def)
next
  case (Cons e es)
  have "faucets_add (count_event tf (te_Type e)) (faucets_of es) = faucets_add tf (faucets_of (e # es))"
    by (cases "te_Type e") (simp_all add: faucets_add_def faucets_of_def count_event_def)
  with Cons show ?case by simp
qed

lemma faucets_add_zero [simp]: "faucets_add newTraceFaucets tf = tf"
  by (simp add: faucets_add_def newTraceFaucets_def)

lemma faucets_set_eq [simp]: "faucets_set tf other = other"
  by (simp add: faucets_set_def)

lemma skip_loop_mem: "skip_loop t sks \<longleftrightarrow> t \<in> set sks"
  by (induction sks) auto

lemma Trace_fields [simp]:
  "pst_faucets (Trace lib now pst evt) = count_event (pst_faucets pst) (te_Type evt)"
  "pst_skiplist (Trace lib now pst evt) = pst_skiplist pst"
  "pst_debug (Trace lib now pst evt) = pst_debug pst"
  "pst_events (Trace lib now pst evt) = pst_events pst @
     (if tl_TypeString lib (te_Type evt) \<in> set (pst_skiplist pst) then [] else [event_fields lib now evt])"
  "pst_subTracer (Trace lib now pst evt) =
     (if tl_TypeString lib (te_Type evt) \<in> set (pst_skiplist pst) then pst_subTracer pst
      else map_option (\<lambda>tr. tl_SubTrace lib tr evt) (pst_subTracer pst))"
  "pst_lggr (Trace lib now pst evt) = pst_lggr pst @
     (if tl_TypeString lib (te_Type evt) \<in> set (pst_skiplist pst) \<or> \<not> pst_debug pst then []
      else [event_fields lib now evt])"
  by (simp_all add: Trace_def Let_def shouldSkip_def skip_loop_mem debugEvent_def storeEvent_def
      split: option.splits)

lemma trace_all_Cons [simp]:
  "trace_all lib pst ((now, e) # es) = trace_all lib (Trace lib now pst e) es"
  by (simp add: trace_all_def)

lemma trace_all_Nil [simp]: "trace_all lib pst [] = pst"
  by (simp add: trace_all_def)

text \<open>Keys that end in another way than the generated ones keep their value.\<close>

lemma key_neq:
  assumes "last key \<noteq> CHR ''s''"
  shows "key \<noteq> t @ ''-IHAVEmsgIDs''" "key \<noteq> t @ ''-IWANTmsgIDs''"
  using assms by auto

lemma ihave_loop_other: "last key \<noteq> CHR ''s'' \<Longrightarrow> ihave_loop f ims key = f key"
  by (induction ims arbitrary: f) (auto simp: key_neq)

lemma rpc_fields_other:
  assumes "last key \<noteq> CHR ''s''" "last key \<noteq> CHR ''t''"
  shows "rpc_fields f p meta key = f key"
proof -
  have "key \<noteq> ''subs''" "key \<noteq> ''ihaveCount''" "key \<noteq> ''iwantCount''" using assms by auto
  with assms show ?thesis
    by (auto simp: rpc_fields_def appendIHave_def appendIWant_def Let_def ihave_loop_other key_neq
        split: option.splits)
qed

lemma peer_field_other: "key \<noteq> k \<Longrightarrow> peer_field lib f k bs key = f key"
  by (simp add: peer_field_def split: prod.splits)

lemma ihave_loop_topic:
  "ihave_loop f ims (t @ ''-IHAVEmsgIDs'') =
     (case filter (\<lambda>im. ih_Topic im = t) (rev ims) of
        [] \<Rightarrow> f (t @ ''-IHAVEmsgIDs'')
      | im # _ \<Rightarrow> Some (Join (hex_ids (ih_MessageIDs im)) '',''))"
  by (induction ims arbitrary: f) (auto split: list.splits)

lemma event_fields_peerID:
  "event_fields lib now evt ''peerID'' = Some (tl_PidString lib (fst (tl_IDFromBytes lib (te_PeerID evt))))"
proof -
  have "base_fields lib now evt ''peerID'' = Some (tl_PidString lib (fst (tl_IDFromBytes lib (te_PeerID evt))))"
    by (simp add: base_fields_def Let_def split: prod.splits)
  then show ?thesis
    by (simp add: event_fields_def Let_def peer_field_other rpc_fields_other split: TraceEvent_Type.splits)
qed

section \<open>Properties\<close>

text \<open>C35: the tracer agrees with the reference on every sequence of events.  Whatever the skip list, each
  counter has grown by the number of events of its type, modulo \<open>2\<^sup>6\<^sup>4\<close>; the stored events are those
  whose type is not on the skip list, in order; and the second tracer, where there is one, has seen
  exactly these events in the same order.\<close>

theorem tracer_matches_reference:
  "pst_faucets (trace_all lib pst evts) = faucets_add (pst_faucets pst) (faucets_of (map snd evts)) \<and>
   pst_events (trace_all lib pst evts) = pst_events pst @
     map (\<lambda>(now, e). event_fields lib now e)
       (filter (\<lambda>(now, e). tl_TypeString lib (te_Type e) \<notin> set (pst_skiplist pst)) evts) \<and>
   pst_subTracer (trace_all lib pst evts) = map_option (\<lambda>tr. foldl (tl_SubTrace lib) tr
       (filter (\<lambda>e. tl_TypeString lib (te_Type e) \<notin> set (pst_skiplist pst)) (map snd evts))) (pst_subTracer pst)"
proof (induction evts arbitrary: pst)
  case Nil
  then show ?case by (simp add: faucets_add_def faucets_of_def option.map_ident)
next
  case (Cons x evts)
  obtain now e where x: "x = (now, e)" by fastforce
  have "faucets_add (count_event tf (te_Type e)) (faucets_of es) = faucets_add tf (faucets_of (e # es))" for tf es
    using count_events [of tf "e # es"] count_events [of "count_event tf (te_Type e)" es] by simp
  with Cons [of "Trace lib now pst e"] x show ?case by (auto simp: option.map_comp comp_def)
qed

text \<open>the marker for a sender that cannot be parsed never shows.  The assignment after the error branch
  overwrites it, so every stored event carries the text of whatever id the parser returned, and two
  announcements for the same topic in one RPC keep only the last one's message ids.\<close>

theorem tracer_overwrites_fields:
  "event_fields lib now evt ''peerID'' = Some (tl_PidString lib (fst (tl_IDFromBytes lib (te_PeerID evt)))) \<and>
   appendIHave flds (ims @ [im]) (ih_Topic im @ ''-IHAVEmsgIDs'')
     = Some (Join (hex_ids (ih_MessageIDs im)) '','')"
  by (simp add: event_fields_peerID appendIHave_def ihave_loop_topic)

end
