(* ===== verification/Go_Mailbox.thy ===== *)
theory Go_Mailbox
  imports Go_Prelude "HOL-Library.Sublist"
begin

text \<open>
  A buffered channel used as a mailbox: senders try to send in a \<open>select\<close> with a \<open>default\<close> branch and
  receivers take from the front.  The repository does this four times (the message stream and the
  queue of the gRPC consumer, the mDNS notifications, the router queue).  The locale \<open>mailbox\<close> is the
  contract; each owner of such a channel interprets it on its own operations.
\<close>

section \<open>Runs\<close>

datatype 'm mbox_op = MPut 'm | MGet

text \<open>A run returns the final state, the accepted messages and the received ones, in order.\<close>

fun mbox_run :: "('s \<Rightarrow> 'm \<Rightarrow> 's \<times> bool) \<Rightarrow> ('s \<Rightarrow> ('m \<times> 's) option) \<Rightarrow> 'm mbox_op list \<Rightarrow> 's
    \<Rightarrow> 's \<times> 'm list \<times> 'm list" where
  "mbox_run put get [] s = (s, [], [])"
| "mbox_run put get (MPut m # ops) s =
     (let (s1, ok) = put s m; (s2, acc, got) = mbox_run put get ops s1
      in (s2, if ok then m # acc else acc, got))"
| "mbox_run put get (MGet # ops) s =
     (case get s of
        None \<Rightarrow> mbox_run put get ops s
      | Some (m, s1) \<Rightarrow> (let (s2, acc, got) = mbox_run put get ops s1 in (s2, acc, m # got)))"

text \<open>The abstract buffer of capacity \<open>n\<close>.\<close>

definition spec_put :: "nat \<Rightarrow> 'm list \<Rightarrow> 'm \<Rightarrow> 'm list \<times> bool" where
  "spec_put n q m = (if length q < n then (q @ [m], True) else (q, False))"

definition spec_get :: "'m list \<Rightarrow> ('m \<times> 'm list) option" where
  "spec_get q = (case q of [] \<Rightarrow> None | m # q' \<Rightarrow> Some (m, q'))"

lemma spec_get_simps [simp]: "spec_get [] = None" "spec_get (m # q) = Some (m, q)"
  by (simp_all add: spec_get_def)

section \<open>Contract\<close>

locale mailbox =
  fixes put :: "'s \<Rightarrow> 'm \<Rightarrow> 's \<times> bool" and get :: "'s \<Rightarrow> ('m \<times> 's) option"
    and content :: "'s \<Rightarrow> 'm list" and cap :: "'s \<Rightarrow> nat"
  assumes put_room: "length (content s) < cap s \<Longrightarrow> snd (put s m) \<and> content (fst (put s m)) = content s @ [m]"
    and put_full: "cap s \<le> length (content s) \<Longrightarrow> \<not> snd (put s m) \<and> content (fst (put s m)) = content s"
    and put_cap: "cap (fst (put s m)) = cap s"
    and get_empty: "content s = [] \<Longrightarrow> get s = None"
    and get_head: "content s = m # q \<Longrightarrow> \<exists>s'. get s = Some (m, s') \<and> content s' = q \<and> cap s' = cap s"
begin

lemma put_spec: "spec_put (cap s) (content s) m = (content (fst (put s m)), snd (put s m))"
  using put_room [of s m] put_full [of s m] by (simp add: spec_put_def)

text \<open>Every run of the implementation is the run of the abstract buffer.\<close>

lemma run_refines:
  assumes "mbox_run put get ops s = (s', acc, got)"
  shows "mbox_run (spec_put (cap s)) spec_get ops (content s) = (content s', acc, got) \<and> cap s' = cap s"
  using assms
proof (induction ops arbitrary: s s' acc got)
  case (Cons x ops)
  show ?case
  proof (cases x)
    case (MPut m)
    obtain s1 ok where p: "put s m = (s1, ok)" by fastforce
    obtain s2 a g where r: "mbox_run put get ops s1 = (s2, a, g)" by (metis prod_cases3)
    from Cons.IH [OF r] put_spec [of s m] put_cap [of s m] p
    have "mbox_run (spec_put (cap s)) spec_get ops (content s1) = (content s2, a, g)" "cap s2 = cap s"
      "spec_put (cap s) (content s) m = (content s1, ok)" by simp_all
    with Cons.prems MPut p r show ?thesis by auto
  next
    case MGet
    show ?thesis
    proof (cases "content s")
      case Nil
      with Cons.prems MGet Cons.IH [of s] get_empty show ?thesis by simp
    next
      case (Cons m q)
      from get_head [OF this] obtain s1 where g: "get s = Some (m, s1)" "content s1 = q" "cap s1 = cap s"
        by blast
      obtain s2 a g' where r: "mbox_run put get ops s1 = (s2, a, g')" by (metis prod_cases3)
      from Cons.IH [OF r] g have "mbox_run (spec_put (cap s)) spec_get ops q = (content s2, a, g') \<and> cap s2 = cap s"
        by simp
      with Cons.prems MGet g r Cons show ?thesis by auto
    qed
  qed
qed simp

text \<open>FIFO: what was in the mailbox and what it accepted is what was received, in order, and what is left.\<close>

lemma run_fifo:
  assumes "mbox_run put get ops s = (s', acc, got)"
  shows "content s @ acc = got @ content s'"
  using assms
proof (induction ops arbitrary: s s' acc got)
  case (Cons x ops)
  show ?case
  proof (cases x)
    case (MPut m)
    obtain s1 ok where p: "put s m = (s1, ok)" by fastforce
    obtain s2 a g where r: "mbox_run put get ops s1 = (s2, a, g)" by (metis prod_cases3)
    have "content s1 = (if ok then content s @ [m] else content s)"
      using put_spec [of s m] p by (auto simp: spec_put_def split: if_splits)
    with Cons.IH [OF r] Cons.prems MPut p r show ?thesis by auto
  next
    case MGet
    show ?thesis
    proof (cases "content s")
      case Nil
      with Cons.prems MGet Cons.IH [of s] get_empty show ?thesis by simp
    next
      case (Cons m q)
      from get_head [OF this] obtain s1 where g: "get s = Some (m, s1)" "content s1 = q" by blast
      obtain s2 a g' where r: "mbox_run put get ops s1 = (s2, a, g')" by (metis prod_cases3)
      from Cons.IH [OF r] Cons.prems MGet g r Cons show ?thesis by auto
    qed
  qed
qed simp

lemma step_bound: "length (content s) \<le> cap s \<Longrightarrow> length (content (fst (put s m))) \<le> cap s"
  using put_room [of s m] put_full [of s m] by (cases "length (content s) < cap s") simp_all

lemma run_bound:
  assumes "mbox_run put get ops s = (s', acc, got)" "length (content s) \<le> cap s"
  shows "length (content s') \<le> cap s"
  using assms
proof (induction ops arbitrary: s s' acc got)
  case (Cons x ops)
  show ?case
  proof (cases x)
    case (MPut m)
    obtain s1 ok where p: "put s m = (s1, ok)" by fastforce
    obtain s2 a g where r: "mbox_run put get ops s1 = (s2, a, g)" by (metis prod_cases3)
    with Cons.IH [OF r] Cons.prems MPut p step_bound [of s m] put_cap [of s m] show ?thesis by simp
  next
    case MGet
    show ?thesis
    proof (cases "content s")
      case Nil
      with Cons.prems MGet Cons.IH [of s] get_empty show ?thesis by simp
    next
      case (Cons m q)
      from get_head [OF this] obtain s1 where g: "get s = Some (m, s1)" "content s1 = q" "cap s1 = cap s"
        by blast
      obtain s2 a g' where r: "mbox_run put get ops s1 = (s2, a, g')" by (metis prod_cases3)
      from Cons.IH [OF r] Cons.prems MGet g r Cons show ?thesis by simp
    qed
  qed
qed simp

text \<open>From an empty mailbox: what is received is a prefix of what was accepted, at most \<open>cap\<close> behind.\<close>

lemma run_prefix:
  assumes "mbox_run put get ops s = (s', acc, got)" "content s = []"
  shows "prefix got acc \<and> length acc \<le> length got + cap s"
  using run_fifo [OF assms(1)] run_bound [OF assms(1)] assms(2) by (auto simp: prefix_def)

end

text \<open>The abstract buffer satisfies the contract it is the specification of.\<close>

interpretation spec_mailbox: mailbox "\<lambda>(n, q) m. ((n, fst (spec_put n q m)), snd (spec_put n q m))"
  "\<lambda>(n, q). map_option (\<lambda>(m, q'). (m, (n, q'))) (spec_get q)" snd fst
  by unfold_locales (auto simp: spec_put_def split: list.splits if_splits)

end
