(* ===== verification/Grpc_Services.thy ===== *)
theory Grpc_Services
  imports Pubsub_Ctrl Val_Router Go_Mailbox
begin

text \<open>
  The other gRPC services: the control service over the controller (\<open>api/grpc/control.go\<close>), the message
  stream (\<open>api/grpc/msg_router.go\<close>) and their construction (\<open>api/grpc/server.go\<close>).  The request of
  \<open>Listen\<close> has a list of topics and a rate, which the handler does not read.
\<close>

section \<open>Control service\<close>

datatype grpc_status = Internal string

record SubscribeResponse =
  srs_unit :: unit

text \<open>The service holds the controller; its methods are methods on the controller's state.\<close>

definition control_Publish :: "('ps, 'top, 'sub, 'fn) pubsub_api \<Rightarrow> ('ps, 'top, 'sub, 'fn) ctrl
    \<Rightarrow> PublishRequest option \<Rightarrow> (('ps, 'top, 'sub, 'fn) ctrl \<times> (grpc_status + PublishResponse)) go" where
  "control_Publish api c req =
     go_bind (Publish api c (PublishRequest_GetTopic req) (PublishRequest_GetData req)) (\<lambda>(c, e).
       case e of
         Some m \<Rightarrow> Ret (c, Inl (Internal m))
       | None \<Rightarrow> Ret (c, Inr \<lparr>prs_MessageId = []\<rparr>))"

definition control_Subscribe :: "('ps, 'top, 'sub, 'fn) pubsub_api \<Rightarrow> ('ps, 'top, 'sub, 'fn) ctrl
    \<Rightarrow> SubscribeRequest option \<Rightarrow> (('ps, 'top, 'sub, 'fn) ctrl \<times> (grpc_status + SubscribeResponse)) go" where
  "control_Subscribe api c req =
     go_bind (Subscribe api c (SubscribeRequest_GetTopic req)) (\<lambda>(c, e).
       case e of
         Some m \<Rightarrow> Ret (c, Inl (Internal m))
       | None \<Rightarrow> Ret (c, Inr \<lparr>srs_unit = ()\<rparr>))"

definition control_Unsubscribe :: "('ps, 'top, 'sub, 'fn) pubsub_api \<Rightarrow> ('ps, 'top, 'sub, 'fn) ctrl
    \<Rightarrow> SubscribeRequest option \<Rightarrow> (('ps, 'top, 'sub, 'fn) ctrl \<times> (grpc_status + SubscribeResponse)) go" where
  "control_Unsubscribe api c req =
     go_bind (Unsubscribe api c (SubscribeRequest_GetTopic req)) (\<lambda>(c, e).
       case e of
         Some m \<Rightarrow> Ret (c, Inl (Internal m))
       | None \<Rightarrow> Ret (c, Inr \<lparr>srs_unit = ()\<rparr>))"

section \<open>Message stream\<close>

record MsgRouterImpl =
  mr_qSize :: nat
  mr_q :: "Message list"

definition NewMsgRouterServer :: "int \<Rightarrow> MsgRouterImpl go" where
  "NewMsgRouterServer qSize =
     (if qSize < 0 then Panic (Explicit ''makechan: size out of range'')
      else Ret \<lparr>mr_qSize = nat qSize, mr_q = []\<rparr>)"

text \<open>
  \<open>Push\<close>.  The flag says that some \<open>Listen\<close> is parked in its \<open>select\<close>, which matters only without a
  buffer: then the message is handed over and is the third result.
\<close>

definition Push :: "MsgRouterImpl \<Rightarrow> bool \<Rightarrow> Message \<Rightarrow> MsgRouterImpl \<times> err \<times> Message option" where
  "Push r rx m =
     (if length (mr_q r) < mr_qSize r then (r\<lparr>mr_q := mr_q r @ [m]\<rparr>, None, None)
      else if mr_qSize r = 0 \<and> rx then (r, None, Some m)
      else (r, Some ''queue is full'', None))"

text \<open>
  One iteration of the loop of \<open>Listen\<close>: \<open>None\<close> while the queue is empty; the message and the outcome of
  \<open>Send\<close>, where \<open>Some\<close> ends the call with that error.
\<close>

definition listen_next :: "MsgRouterImpl \<Rightarrow> (Message \<Rightarrow> stream_err option)
    \<Rightarrow> (MsgRouterImpl \<times> Message \<times> err option) option" where
  "listen_next r send =
     (case mr_q r of
        [] \<Rightarrow> None
      | m # q \<Rightarrow> Some (r\<lparr>mr_q := q\<rparr>, m, case send m of None \<Rightarrow> None | Some e \<Rightarrow> Some (streamErr e)))"

text \<open>
  \<open>Listen\<close> on the messages present now: the messages that \<open>Send\<close> took without an error, and the result
  of the call, if it ended.  \<open>n\<close> is the number of iterations before the context is done.
\<close>

fun Listen :: "nat \<Rightarrow> MsgRouterImpl \<Rightarrow> (Message \<Rightarrow> stream_err option) \<Rightarrow> MsgRouterImpl \<times> Message list \<times> err option" where
  "Listen 0 r send = (r, [], Some None)"
| "Listen (Suc n) r send =
     (case listen_next r send of
        None \<Rightarrow> (r, [], None)
      | Some (r, m, Some e) \<Rightarrow> (r, [], Some e)
      | Some (r, m, None) \<Rightarrow> (let (r, ms, e) = Listen n r send in (r, m # ms, e)))"

section \<open>Construction\<close>

definition NewServices :: "('ps, 'top, 'sub, 'fn) ctrl \<Rightarrow> int
    \<Rightarrow> (('ps, 'top, 'sub, 'fn) ctrl \<times> MsgRouterImpl \<times> ValidationRouterImpl) go" where
  "NewServices ps qSize =
     go_bind (NewMsgRouterServer qSize) (\<lambda>msgRouterServer.
       Ret (ps, msgRouterServer, NewValidationRouterServer (nat qSize)))"

section \<open>The stream as a mailbox\<close>

definition mr_put :: "MsgRouterImpl \<Rightarrow> Message \<Rightarrow> MsgRouterImpl \<times> bool" where
  "mr_put r m = (let (r', e, h) = Push r False m in (r', e = None))"

definition mr_get :: "MsgRouterImpl \<Rightarrow> (Message \<times> MsgRouterImpl) option" where
  "mr_get r = map_option (\<lambda>(r', m, e). (m, r')) (listen_next r (\<lambda>_. None))"

interpretation mr: mailbox mr_put mr_get mr_q mr_qSize
  by unfold_locales (auto simp: mr_put_def mr_get_def Push_def listen_next_def split: list.splits if_splits)

lemma listen_next_get: "map_option (\<lambda>(r', m, e). (m, r')) (listen_next r send) = mr_get r"
  by (simp add: mr_get_def listen_next_def split: list.splits)

lemma Listen_prefix:
  assumes "Listen n r send = (r', ms, e)"
  shows "\<exists>rest. mr_q r = ms @ rest @ mr_q r' \<and> length rest \<le> 1 \<and>
    (rest \<noteq> [] \<longleftrightarrow> e \<noteq> None \<and> length ms < n)"
  using assms
proof (induction n arbitrary: r ms)
  case 0
  then show ?case by simp
next
  case (Suc n)
  show ?case
  proof (cases "mr_q r")
    case Nil
    with Suc.prems show ?thesis by (auto simp: listen_next_def)
  next
    case (Cons m q)
    show ?thesis
    proof (cases "send m")
      case None
      obtain ms' where "Listen n (r\<lparr>mr_q := q\<rparr>) send = (r', ms', e)" "ms = m # ms'"
        using Suc.prems Cons None by (auto simp: listen_next_def split: prod.splits)
      with Suc.IH [of "r\<lparr>mr_q := q\<rparr>" ms'] Cons show ?thesis by auto
    next
      case (Some x)
      with Suc.prems Cons show ?thesis by (auto simp: listen_next_def)
    qed
  qed
qed

section \<open>Properties\<close>


definition demo_message :: Message where
  "demo_message = \<lparr>msg_MessageId = ''id'', msg_Topic = ''t'', msg_Data = [1]\<rparr>"


text \<open>one call of \<open>Listen\<close> sends a prefix of the queue.  It loses exactly one message when \<open>Send\<close> fails,
  the one it had already taken from the queue, and none when it waits or its context is done.\<close>

theorem grpc_listen_loses_at_most_one:
  assumes "Listen n r send = (r', ms, e)"
  shows "\<exists>lost. mr_q r = ms @ lost @ mr_q r' \<and> length lost \<le> 1
    \<and> (lost \<noteq> [] \<longleftrightarrow> e \<noteq> None \<and> length ms < n)"
  by (rule Listen_prefix [OF assms])

theorem grpc_listen_loses_at_most_one_witness:
  "\<exists>r'. Listen 5 \<lparr>mr_qSize = 2, mr_q = [demo_message, demo_message]\<rparr> (\<lambda>m. Some Canceled) = (r', [], Some None)
    \<and> mr_q r' = [demo_message]
    \<and> (\<exists>lost. [demo_message, demo_message] = [] @ lost @ mr_q r' \<and> length lost \<le> 1 \<and> lost \<noteq> [])"
proof -
  let ?r = "\<lparr>mr_qSize = 2, mr_q = [demo_message, demo_message]\<rparr>"
  obtain r' where r: "Listen 5 ?r (\<lambda>m. Some Canceled) = (r', [], Some None)" "mr_q r' = [demo_message]"
    by (simp add: listen_next_def streamErr_def eval_nat_numeral)
  from grpc_listen_loses_at_most_one [OF r(1)] r show ?thesis by fastforce
qed

end
