(* ===== verification/Grpc_Clients.thy ===== *)
theory Grpc_Clients
  imports Val_Router Go_Mailbox
begin

text \<open>
  The gRPC clients that the example networks use: the consumer of the message stream
  (\<open>api/grpc/client/consumer.go\<close>) and the verifier behind the validation router
  (\<open>api/grpc/client/verifier.go\<close>).  Both have a receiver goroutine that fills a channel and a loop in
  \<open>Start\<close> that empties it.  Dialling and the streams are parameters: what \<open>Recv\<close> returned.
\<close>

section \<open>Consumer\<close>

text \<open>A started consumer; \<open>'e\<close> is the state of the handler.  \<open>mc_received\<close> and \<open>mc_handled\<close> record the run.\<close>

record 'e msgConsumer =
  mc_env :: 'e
  mc_msgQ :: "Message list"
  mc_recv_done :: bool
  mc_done :: bool
  mc_received :: "(Message \<times> bool) list"
  mc_handled :: "Message list"

fun subscribe_loop :: "('e \<Rightarrow> string \<Rightarrow> 'e \<times> err) \<Rightarrow> 'e \<Rightarrow> string list \<Rightarrow> 'e \<times> err" where
  "subscribe_loop rpc e [] = (e, None)"
| "subscribe_loop rpc e (topic # topics) =
     (case rpc e topic of
        (e, Some m) \<Rightarrow> (e, Some m)
      | (e, None) \<Rightarrow> subscribe_loop rpc e topics)"

definition consumer_Subscribe :: "err \<Rightarrow> ('e \<Rightarrow> string \<Rightarrow> 'e \<times> err) \<Rightarrow> 'e \<Rightarrow> string list \<Rightarrow> 'e \<times> err" where
  "consumer_Subscribe connect rpc e topics =
     (case connect of Some m \<Rightarrow> (e, Some m) | None \<Rightarrow> subscribe_loop rpc e topics)"

text \<open>\<open>Start\<close> up to its loop: the errors of dialling and of \<open>Listen\<close> are returned.\<close>

definition consumer_Start :: "err \<Rightarrow> err \<Rightarrow> 'e \<Rightarrow> string + 'e msgConsumer" where
  "consumer_Start connect listen e =
     (case connect of
        Some m \<Rightarrow> Inl m
      | None \<Rightarrow> (case listen of
            Some m \<Rightarrow> Inl m
          | None \<Rightarrow> Inr \<lparr>mc_env = e, mc_msgQ = [], mc_recv_done = False, mc_done = False,
                          mc_received = [], mc_handled = []\<rparr>))"

definition consumer_enqueue :: "'e msgConsumer \<Rightarrow> Message \<Rightarrow> 'e msgConsumer \<times> bool" where
  "consumer_enqueue c msg =
     (if length (mc_msgQ c) < 128 then (c\<lparr>mc_msgQ := mc_msgQ c @ [msg]\<rparr>, True) else (c, False))"

text \<open>One iteration of the receiver: \<open>ctxDone\<close> is its context's state when \<open>Recv\<close> has returned.\<close>

definition consumer_recv :: "'e msgConsumer \<Rightarrow> bool \<Rightarrow> Message option \<Rightarrow> stream_err option
    \<Rightarrow> 'e msgConsumer option" where
  "consumer_recv c ctxDone msg e =
     (if mc_recv_done c then None
      else if e = Some EOF \<or> e = Some Canceled \<or> ctxDone then Some (c\<lparr>mc_recv_done := True\<rparr>)
      else (case msg of
              None \<Rightarrow> Some (c\<lparr>mc_recv_done := True\<rparr>)
            | Some m \<Rightarrow> (let (c, kept) = consumer_enqueue c m
                         in Some (c\<lparr>mc_received := mc_received c @ [(m, kept)]\<rparr>))))"

definition consumer_dequeue :: "'e msgConsumer \<Rightarrow> (Message \<times> 'e msgConsumer) option" where
  "consumer_dequeue c = (case mc_msgQ c of [] \<Rightarrow> None | m # q \<Rightarrow> Some (m, c\<lparr>mc_msgQ := q\<rparr>))"

text \<open>One iteration of the loop of \<open>Start\<close>; an error of the handler is ignored, and a closed and empty
  channel ends the call.\<close>

definition consumer_next :: "('e \<Rightarrow> Message \<Rightarrow> 'e \<times> err) \<Rightarrow> 'e msgConsumer \<Rightarrow> 'e msgConsumer option" where
  "consumer_next handler c =
     (if mc_done c then None
      else (case consumer_dequeue c of
              Some (m, c) \<Rightarrow> Some (c\<lparr>mc_env := fst (handler (mc_env c) m), mc_handled := mc_handled c @ [m]\<rparr>)
            | None \<Rightarrow> if mc_recv_done c then Some (c\<lparr>mc_done := True\<rparr>) else None))"

definition consumer_ctxDone :: "'e msgConsumer \<Rightarrow> 'e msgConsumer option" where
  "consumer_ctxDone c = (if mc_done c then None else Some (c\<lparr>mc_done := True\<rparr>))"

inductive mc_step :: "('e \<Rightarrow> Message \<Rightarrow> 'e \<times> err) \<Rightarrow> 'e msgConsumer \<Rightarrow> 'e msgConsumer \<Rightarrow> bool" for handler where
  recv: "consumer_recv c d m e = Some c' \<Longrightarrow> mc_step handler c c'"
| handle: "consumer_next handler c = Some c' \<Longrightarrow> mc_step handler c c'"
| ctx_done: "consumer_ctxDone c = Some c' \<Longrightarrow> mc_step handler c c'"

text \<open>The loop of \<open>Start\<close> alone, \<open>n\<close> iterations.\<close>

fun consumer_loop :: "nat \<Rightarrow> ('e \<Rightarrow> Message \<Rightarrow> 'e \<times> err) \<Rightarrow> 'e msgConsumer \<Rightarrow> 'e msgConsumer option" where
  "consumer_loop 0 handler c = Some c"
| "consumer_loop (Suc n) handler c =
     (case consumer_next handler c of None \<Rightarrow> None | Some c \<Rightarrow> consumer_loop n handler c)"

interpretation mc: mailbox consumer_enqueue consumer_dequeue mc_msgQ "\<lambda>_. 128"
  by unfold_locales (auto simp: consumer_enqueue_def consumer_dequeue_def)

section \<open>Verifier\<close>

text \<open>
  A started verifier.  \<open>vf_hand\<close> is the message the receiver holds while it waits to send it into the
  channel of capacity one; \<open>vf_received\<close> records what \<open>Recv\<close> returned; \<open>vf_sent\<close> the replies given to
  \<open>Send\<close>, whose error is ignored.
\<close>

record verifier =
  vf_hand :: "Message option"
  vf_valQ :: "Message list"
  vf_recv_done :: bool
  vf_done :: bool
  vf_received :: "Message list"
  vf_sent :: "ValidatedMessage list"

definition verifier_Start :: "err \<Rightarrow> err \<Rightarrow> string + verifier" where
  "verifier_Start connect handle =
     (case connect of
        Some m \<Rightarrow> Inl m
      | None \<Rightarrow> (case handle of
            Some m \<Rightarrow> Inl m
          | None \<Rightarrow> Inr \<lparr>vf_hand = None, vf_valQ = [], vf_recv_done = False, vf_done = False,
                          vf_received = [], vf_sent = []\<rparr>))"

definition verifier_recv :: "verifier \<Rightarrow> bool \<Rightarrow> Message option \<Rightarrow> stream_err option \<Rightarrow> verifier option" where
  "verifier_recv v ctxDone msg e =
     (if vf_recv_done v \<or> vf_hand v \<noteq> None then None
      else if e = Some EOF \<or> e = Some Canceled \<or> ctxDone then Some (v\<lparr>vf_recv_done := True\<rparr>)
      else (case msg of
              None \<Rightarrow> Some (v\<lparr>vf_recv_done := True\<rparr>)
            | Some m \<Rightarrow> Some (v\<lparr>vf_hand := Some m, vf_received := vf_received v @ [m]\<rparr>)))"

definition verifier_put :: "verifier \<Rightarrow> verifier option" where
  "verifier_put v =
     (case vf_hand v of
        Some m \<Rightarrow> if length (vf_valQ v) < 1
                  then Some (v\<lparr>vf_hand := None, vf_valQ := vf_valQ v @ [m]\<rparr>) else None
      | None \<Rightarrow> None)"

text \<open>The other branch of the receiver's \<open>select\<close>: its context is done.\<close>

definition verifier_stop :: "verifier \<Rightarrow> verifier option" where
  "verifier_stop v =
     (if vf_hand v \<noteq> None then Some (v\<lparr>vf_hand := None, vf_recv_done := True\<rparr>) else None)"

text \<open>One iteration of the loop of \<open>Start\<close>; \<open>res\<close> is the verdict of the validator on the message.\<close>

definition verifier_next :: "verifier \<Rightarrow> (Message \<Rightarrow> ValidationResult) \<Rightarrow> verifier option" where
  "verifier_next v validate =
     (if vf_done v then None
      else (case vf_valQ v of
              m # q \<Rightarrow> Some (v\<lparr>vf_valQ := q,
                  vf_sent := vf_sent v @ [\<lparr>vm_Result = validate m, vm_Msg = Some m\<rparr>]\<rparr>)
            | [] \<Rightarrow> if vf_recv_done v then Some (v\<lparr>vf_done := True\<rparr>) else None))"

definition verifier_ctxDone :: "verifier \<Rightarrow> verifier option" where
  "verifier_ctxDone v = (if vf_done v then None else Some (v\<lparr>vf_done := True\<rparr>))"

text \<open>The validator may keep state: \<open>R\<close> relates a message to the verdicts it can give.\<close>

inductive vf_step :: "(Message \<Rightarrow> ValidationResult \<Rightarrow> bool) \<Rightarrow> verifier \<Rightarrow> verifier \<Rightarrow> bool" for R where
  recv: "verifier_recv v d m e = Some v' \<Longrightarrow> vf_step R v v'"
| put: "verifier_put v = Some v' \<Longrightarrow> vf_step R v v'"
| stop: "verifier_stop v = Some v' \<Longrightarrow> vf_step R v v'"
| reply: "verifier_next v validate = Some v' \<Longrightarrow> (\<And>m. R m (validate m)) \<Longrightarrow> vf_step R v v'"
| ctx_done: "verifier_ctxDone v = Some v' \<Longrightarrow> vf_step R v v'"

section \<open>Invariants\<close>

definition mc_inv :: "('e \<Rightarrow> Message \<Rightarrow> 'e \<times> err) \<Rightarrow> 'e \<Rightarrow> 'e msgConsumer \<Rightarrow> bool" where
  "mc_inv handler e0 c \<longleftrightarrow> mc_handled c @ mc_msgQ c = map fst (filter snd (mc_received c))
     \<and> length (mc_msgQ c) \<le> 128 \<and> mc_env c = foldl (\<lambda>e m. fst (handler e m)) e0 (mc_handled c)"

lemma mc_step_inv:
  assumes "mc_step handler c c'" "mc_inv handler e0 c"
  shows "mc_inv handler e0 c'"
  using assms(1)
proof (cases rule: mc_step.cases)
  case (recv d m e)
  with assms(2) show ?thesis
    by (auto simp: consumer_recv_def consumer_enqueue_def mc_inv_def split: if_splits option.splits)
next
  case handle
  with assms(2) show ?thesis
    by (auto simp: consumer_next_def consumer_dequeue_def mc_inv_def split: if_splits list.splits)
next
  case ctx_done
  with assms(2) show ?thesis by (auto simp: consumer_ctxDone_def mc_inv_def split: if_splits)
qed

lemma mc_reachable:
  assumes "consumer_Start cn ls e0 = Inr c0" "(mc_step handler)\<^sup>*\<^sup>* c0 c"
  shows "mc_inv handler e0 c"
  using assms(2)
proof (induction rule: rtranclp_induct)
  case base
  from assms(1) show ?case by (auto simp: consumer_Start_def mc_inv_def split: option.splits)
qed (rule mc_step_inv)

lemma consumer_drain:
  assumes "mc_recv_done c" "\<not> mc_done c"
  shows "\<exists>c'. consumer_loop (Suc (length (mc_msgQ c))) handler c = Some c' \<and> mc_done c'
    \<and> mc_handled c' = mc_handled c @ mc_msgQ c
    \<and> mc_env c' = foldl (\<lambda>e m. fst (handler e m)) (mc_env c) (mc_msgQ c)"
  using assms
proof (induction "mc_msgQ c" arbitrary: c)
  case Nil
  then show ?case by (simp add: consumer_next_def consumer_dequeue_def split: list.splits)
next
  case (Cons m q)
  let ?c1 = "c\<lparr>mc_msgQ := q, mc_env := fst (handler (mc_env c) m), mc_handled := mc_handled c @ [m]\<rparr>"
  have n: "consumer_next handler c = Some ?c1"
    using Cons(2-4) by (simp add: consumer_next_def consumer_dequeue_def flip: Cons(2))
  have "mc_recv_done ?c1" "\<not> mc_done ?c1" "q = mc_msgQ ?c1" using Cons.prems by simp_all
  from Cons(1) [OF this(3) this(1,2)] n Cons(2) [symmetric] show ?case by simp
qed

definition vf_inv :: "(Message \<Rightarrow> ValidationResult \<Rightarrow> bool) \<Rightarrow> verifier \<Rightarrow> bool" where
  "vf_inv R v \<longleftrightarrow> prefix (map vm_Msg (vf_sent v) @ map Some (vf_valQ v) @ map Some (case vf_hand v of None \<Rightarrow> [] | Some m \<Rightarrow> [m]))
        (map Some (vf_received v))
     \<and> (\<not> vf_recv_done v \<longrightarrow> map vm_Msg (vf_sent v) @ map Some (vf_valQ v) @ map Some (case vf_hand v of None \<Rightarrow> [] | Some m \<Rightarrow> [m])
          = map Some (vf_received v))
     \<and> length (vf_valQ v) \<le> 1 \<and> list_all (\<lambda>r. \<exists>m. vm_Msg r = Some m \<and> R m (vm_Result r)) (vf_sent v)
     \<and> length (vf_received v) \<le> length (vf_sent v) + 2 \<and> (vf_recv_done v \<longrightarrow> vf_hand v = None)"

lemma vf_step_inv:
  assumes "vf_step R v v'" "vf_inv R v"
  shows "vf_inv R v'"
  using assms(1)
proof (cases rule: vf_step.cases)
  case (recv d m e)
  have len: "length (map Some (vf_received v)) \<le> length (vf_sent v) + 1" if "\<not> vf_recv_done v" "vf_hand v = None"
  proof -
    from assms(2) that have "map vm_Msg (vf_sent v) @ map Some (vf_valQ v) = map Some (vf_received v)" "length (vf_valQ v) \<le> 1"
      by (auto simp: vf_inv_def)
    then show ?thesis by (metis add_left_mono length_append length_map)
  qed
  with recv assms(2) show ?thesis
    by (auto simp: verifier_recv_def vf_inv_def split: if_splits option.splits)
next
  case put
  with assms(2) show ?thesis by (auto simp: verifier_put_def vf_inv_def split: if_splits option.splits)
next
  case stop
  have p: "xs @ ys @ [z] = zs \<Longrightarrow> prefix (xs @ ys) zs" for xs ys zs and z :: "Message option" by auto
  from stop assms(2) show ?thesis
    by (auto simp: verifier_stop_def vf_inv_def p split: if_splits)
next
  case (reply validate)
  with assms(2) show ?thesis by (auto simp: verifier_next_def vf_inv_def split: if_splits list.splits)
next
  case ctx_done
  with assms(2) show ?thesis by (auto simp: verifier_ctxDone_def vf_inv_def split: if_splits)
qed

lemma vf_reachable:
  assumes "verifier_Start cn hs = Inr v0" "(vf_step R)\<^sup>*\<^sup>* v0 v"
  shows "vf_inv R v"
  using assms(2)
proof (induction rule: rtranclp_induct)
  case base
  from assms(1) show ?case by (auto simp: verifier_Start_def vf_inv_def split: option.splits)
qed (rule vf_step_inv)

section \<open>Properties\<close>

text \<open>the consumer hands messages to its handler in the order in which it received them, each once; it
  skips exactly the ones that arrived while 128 others were waiting, and keeps at most 128.  The state
  of the handler is the one after the handled messages, whatever errors it returned.\<close>

theorem consumer_in_order:
  assumes "consumer_Start cn ls e0 = Inr c0" and "(mc_step handler)\<^sup>*\<^sup>* c0 c"
  shows "mc_handled c @ mc_msgQ c = map fst (filter snd (mc_received c)) \<and> length (mc_msgQ c) \<le> 128
    \<and> mc_env c = foldl (\<lambda>e m. fst (handler e m)) e0 (mc_handled c)
    \<and> snd (consumer_enqueue c m) = (length (mc_msgQ c) < 128)"
  using mc_reachable [OF assms] by (simp add: mc_inv_def consumer_enqueue_def)

definition client_msg :: Message where
  "client_msg = \<lparr>msg_MessageId = ''id'', msg_Topic = ''t'', msg_Data = [1]\<rparr>"

theorem consumer_in_order_witness:
  "\<exists>c0 c1 c2. consumer_Start None None (0::nat) = Inr c0 \<and> consumer_recv c0 False (Some client_msg) None = Some c1
    \<and> consumer_next (\<lambda>e m. (Suc e, Some ''failed'')) c1 = Some c2 \<and> mc_env c2 = 1
    \<and> mc_handled c2 @ mc_msgQ c2 = map fst (filter snd (mc_received c2)) \<and> mc_handled c2 = [client_msg]"
proof -
  let ?h = "\<lambda>e m. (Suc e, Some ''failed'')"
  obtain c0 where c0: "consumer_Start None None (0::nat) = Inr c0" by (simp add: consumer_Start_def)
  obtain c1 where c1: "consumer_recv c0 False (Some client_msg) None = Some c1" "mc_msgQ c1 = [client_msg]"
    "mc_env c1 = 0" "\<not> mc_done c1" "mc_handled c1 = []"
    using c0 by (auto simp: consumer_Start_def consumer_recv_def consumer_enqueue_def)
  obtain c2 where c2: "consumer_next ?h c1 = Some c2" "mc_env c2 = 1" "mc_handled c2 = [client_msg]"
    using c1 by (auto simp: consumer_next_def consumer_dequeue_def)
  have "(mc_step ?h)\<^sup>*\<^sup>* c0 c2"
    using mc_step.recv [OF c1(1)] mc_step.handle [OF c2(1)] by (rule rtranclp_two)
  from consumer_in_order [OF c0 this, THEN conjunct1] c0 c1(1) c2 show ?thesis
    by (intro exI [of _ c0] exI [of _ c1] exI [of _ c2] conjI)
qed

text \<open>the consumer drains and returns.  Once its receiver has closed the channel, the loop of \<open>Start\<close> needs
  one iteration for each waiting message and one more: then every accepted message was handled and
  the call has returned.\<close>

theorem consumer_drains_and_returns:
  assumes "mc_recv_done c" and "\<not> mc_done c"
  shows "\<exists>c'. consumer_loop (Suc (length (mc_msgQ c))) handler c = Some c' \<and> mc_done c'
    \<and> mc_handled c' = mc_handled c @ mc_msgQ c
    \<and> mc_env c' = foldl (\<lambda>e m. fst (handler e m)) (mc_env c) (mc_msgQ c)"
  by (rule consumer_drain [OF assms])

theorem consumer_drains_and_returns_witness:
  "\<exists>c'. consumer_loop 2 (\<lambda>e m. (Suc e, None)) \<lparr>mc_env = 0, mc_msgQ = [client_msg], mc_recv_done = True,
      mc_done = False, mc_received = [(client_msg, True)], mc_handled = []\<rparr> = Some c' \<and> mc_done c' \<and> mc_env c' = 1"
  using consumer_drains_and_returns [of "\<lparr>mc_env = 0, mc_msgQ = [client_msg], mc_recv_done = True,
      mc_done = False, mc_received = [(client_msg, True)], mc_handled = []\<rparr>" "\<lambda>e m. (Suc e, None)"]
  by (auto simp: numeral_2_eq_2)

text \<open>one reply for each message, in order.  The replies of the verifier carry the messages it received,
  unchanged, first to last without a gap, each with a verdict of the validator on that message, and
  the verifier is never more than two messages behind.\<close>

theorem verifier_replies_in_order:
  assumes "verifier_Start cn hs = Inr v0" and "(vf_step R)\<^sup>*\<^sup>* v0 v"
  shows "map vm_Msg (vf_sent v) = map Some (take (length (vf_sent v)) (vf_received v))
    \<and> list_all (\<lambda>r. \<exists>m. vm_Msg r = Some m \<and> R m (vm_Result r)) (vf_sent v)
    \<and> length (vf_received v) \<le> length (vf_sent v) + 2"
proof -
  have inv: "vf_inv R v" by (rule vf_reachable [OF assms])
  then have "prefix (map vm_Msg (vf_sent v)) (map Some (vf_received v))"
    unfolding vf_inv_def by (metis append_prefixD)
  then have "map vm_Msg (vf_sent v) = take (length (vf_sent v)) (map Some (vf_received v))"
    by (auto simp: prefix_def)
  with inv show ?thesis by (simp add: vf_inv_def take_map)
qed

theorem verifier_replies_in_order_witness:
  "\<exists>v0 v1 v2 v3. verifier_Start None None = Inr v0 \<and> verifier_recv v0 False (Some client_msg) None = Some v1
    \<and> verifier_put v1 = Some v2 \<and> verifier_next v2 (\<lambda>m. VR_REJECT) = Some v3
    \<and> map vm_Msg (vf_sent v3) = [Some client_msg] \<and> list_all (\<lambda>r. vm_Result r = VR_REJECT) (vf_sent v3)"
proof -
  obtain v0 where v0: "verifier_Start None None = Inr v0" by (simp add: verifier_Start_def)
  obtain v1 v2 v3 where v: "verifier_recv v0 False (Some client_msg) None = Some v1" "verifier_put v1 = Some v2"
    "verifier_next v2 (\<lambda>m. VR_REJECT) = Some v3" "length (vf_sent v3) = 1" "vf_received v3 = [client_msg]"
    using v0 by (auto simp: verifier_Start_def verifier_recv_def verifier_put_def verifier_next_def)
  have "vf_step (\<lambda>m r. r = VR_REJECT) v2 v3" by (rule vf_step.reply [OF v(3)]) simp
  with vf_step.recv [OF v(1)] vf_step.put [OF v(2)]
  have "(vf_step (\<lambda>m r. r = VR_REJECT))\<^sup>*\<^sup>* v0 v3" by (rule rtranclp_three)
  note r = verifier_replies_in_order [OF v0 this]
  have "map vm_Msg (vf_sent v3) = [Some client_msg]" using r v(4,5) by simp
  moreover have "list_all (\<lambda>r. vm_Result r = VR_REJECT) (vf_sent v3)" using r by (auto simp: list_all_iff)
  ultimately show ?thesis using v0 v(1,2,3)
    by (intro exI [of _ v0] exI [of _ v1] exI [of _ v2] exI [of _ v3] conjI)
qed

end
