(* ===== verification/Thread_Control.thy ===== *)
theory Thread_Control
  imports Go_Prelude
begin

text \<open>
  The life-cycle helpers (\<open>commons/utils\<close>): \<open>threadControl\<close>, a group of goroutines that \<open>Close\<close> cancels
  and waits for, its stop channel, and \<open>StartStopOnce\<close>.  A goroutine of the group is represented by
  the state of its context; what it does is up to the component that starts it.
\<close>

section \<open>Goroutine groups\<close>

text \<open>A goroutine that runs, with its context cancelled or not, or one that has returned.\<close>

datatype thread = Live bool | Finished

text \<open>\<open>Close\<close> has not been called, waits in \<open>threadsWG.Wait\<close>, or has returned.\<close>

datatype closing = Open | Waiting | Closed

record threadControl =
  tc_threadsWG :: nat
  tc_stop :: bool
  tc_threads :: "thread list"
  tc_closing :: closing

definition NewThreadControl :: threadControl where
  "NewThreadControl = \<lparr>tc_threadsWG = 0, tc_stop = False, tc_threads = [], tc_closing = Open\<rparr>"

text \<open>\<open>Go\<close>: the counter first, then the goroutine, whose context \<open>NewCtx\<close> creates live.\<close>

definition Go :: "threadControl \<Rightarrow> threadControl" where
  "Go tc = tc\<lparr>tc_threadsWG := Suc (tc_threadsWG tc), tc_threads := tc_threads tc @ [Live False]\<rparr>"

text \<open>The goroutine of \<open>CtxCancel\<close>: once the stop channel is closed it cancels the context.\<close>

definition CtxCancel :: "threadControl \<Rightarrow> nat \<Rightarrow> threadControl option" where
  "CtxCancel tc i =
     (if i < length (tc_threads tc) \<and> tc_threads tc ! i = Live False \<and> tc_stop tc
      then Some (tc\<lparr>tc_threads := (tc_threads tc)[i := Live True]\<rparr>) else None)"

text \<open>The function of a goroutine returns: the deferred \<open>cancel\<close> and \<open>Done\<close> run.\<close>

definition thread_return :: "threadControl \<Rightarrow> nat \<Rightarrow> threadControl option" where
  "thread_return tc i =
     (if i < length (tc_threads tc) \<and> tc_threads tc ! i \<noteq> Finished
      then Some (tc\<lparr>tc_threads := (tc_threads tc)[i := Finished], tc_threadsWG := tc_threadsWG tc - 1\<rparr>)
      else None)"

definition Close :: "threadControl \<Rightarrow> threadControl go" where
  "Close tc =
     (if tc_stop tc then Panic CloseOfClosedChannel
      else Ret (tc\<lparr>tc_stop := True, tc_closing := Waiting\<rparr>))"

definition close_wait :: "threadControl \<Rightarrow> threadControl option" where
  "close_wait tc =
     (if tc_closing tc = Waiting \<and> tc_threadsWG tc = 0 then Some (tc\<lparr>tc_closing := Closed\<rparr>) else None)"

inductive tc_step :: "threadControl \<Rightarrow> threadControl \<Rightarrow> bool" where
  start: "tc_step tc (Go tc)"
| cancel: "CtxCancel tc i = Some tc' \<Longrightarrow> tc_step tc tc'"
| ret: "thread_return tc i = Some tc' \<Longrightarrow> tc_step tc tc'"
| close: "Close tc = Ret tc' \<Longrightarrow> tc_step tc tc'"
| wait: "close_wait tc = Some tc' \<Longrightarrow> tc_step tc tc'"

text \<open>The steps of a group that starts nothing new and whose goroutines return when they are cancelled.\<close>

inductive tc_quiet :: "threadControl \<Rightarrow> threadControl \<Rightarrow> bool" where
  cancel: "CtxCancel tc i = Some tc' \<Longrightarrow> tc_quiet tc tc'"
| ret: "tc_threads tc ! i = Live True \<Longrightarrow> thread_return tc i = Some tc' \<Longrightarrow> tc_quiet tc tc'"
| wait: "close_wait tc = Some tc' \<Longrightarrow> tc_quiet tc tc'"

section \<open>Start and stop once\<close>

record StartStopOnce =
  so_start :: bool
  so_stop :: bool

definition StartOnce :: "StartStopOnce \<Rightarrow> ('s \<Rightarrow> 's) \<Rightarrow> 's \<Rightarrow> StartStopOnce \<times> 's" where
  "StartOnce o1 fn s = (if so_start o1 then (o1, s) else (o1\<lparr>so_start := True\<rparr>, fn s))"

definition StopOnce :: "StartStopOnce \<Rightarrow> ('s \<Rightarrow> 's) \<Rightarrow> 's \<Rightarrow> StartStopOnce \<times> 's" where
  "StopOnce o1 fn s = (if so_stop o1 then (o1, s) else (o1\<lparr>so_stop := True\<rparr>, fn s))"

lemma StartOnce_again: "StartOnce o1 f s = (o2, s2) \<Longrightarrow> StartOnce o2 g t = (o2, t)"
  by (auto simp: StartOnce_def split: if_splits)

lemma StopOnce_again: "StopOnce o1 f s = (o2, s2) \<Longrightarrow> StopOnce o2 g t = (o2, t)"
  by (auto simp: StopOnce_def split: if_splits)

text \<open>Starting does not look at the stop flag: a start after the stop still runs.\<close>

lemma StartOnce_after_stop: "StopOnce o1 g s = (o2, s2) \<Longrightarrow> snd (StartOnce o2 f t) = (if so_start o1 then t else f t)"
  by (auto simp: StopOnce_def StartOnce_def split: if_splits)

section \<open>Lemmas\<close>

definition running :: "threadControl \<Rightarrow> nat" where
  "running tc = length (filter (\<lambda>t. t \<noteq> Finished) (tc_threads tc))"

text \<open>The counter is the number of running goroutines; a context is cancelled only after \<open>Close\<close>; \<open>Close\<close>
  waits or has returned exactly when the stop channel is closed.\<close>

definition tc_inv :: "threadControl \<Rightarrow> bool" where
  "tc_inv tc \<longleftrightarrow> tc_threadsWG tc = running tc \<and> (Live True \<in> set (tc_threads tc) \<longrightarrow> tc_stop tc)
     \<and> (tc_stop tc \<longleftrightarrow> tc_closing tc \<noteq> Open)"

lemma filter_update_length:
  assumes "i < length xs"
  shows "length (filter P (xs[i := x])) + (if P (xs ! i) then 1 else 0) = length (filter P xs) + (if P x then 1 else 0)"
proof -
  have "xs[i := x] = take i xs @ x # drop (Suc i) xs" using assms by (rule upd_conv_take_nth_drop)
  moreover have "length (filter P xs) = length (filter P (take i xs @ xs ! i # drop (Suc i) xs))"
    using id_take_nth_drop [OF assms] by simp
  ultimately show ?thesis by simp
qed

lemma set_list_update: "x \<in> set (xs[i := y]) \<Longrightarrow> x = y \<or> x \<in> set xs"
  using set_update_subset_insert by fastforce

lemma thread_return_SomeE:
  assumes "thread_return tc i = Some tc'"
  obtains "i < length (tc_threads tc)" "tc_threads tc ! i \<noteq> Finished" "tc_stop tc' = tc_stop tc"
    "tc_closing tc' = tc_closing tc" "tc_threadsWG tc' = tc_threadsWG tc - 1"
    "tc_threads tc' = (tc_threads tc)[i := Finished]"
  using assms by (auto simp: thread_return_def split: if_splits)

lemma CtxCancel_SomeE:
  assumes "CtxCancel tc i = Some tc'"
  obtains "i < length (tc_threads tc)" "tc_threads tc ! i = Live False" "tc_stop tc" "tc_stop tc' = tc_stop tc"
    "tc_closing tc' = tc_closing tc" "tc_threadsWG tc' = tc_threadsWG tc"
    "tc_threads tc' = (tc_threads tc)[i := Live True]"
  using assms by (auto simp: CtxCancel_def split: if_splits)

lemma running_return:
  assumes "thread_return tc i = Some tc'"
  shows "running tc = Suc (running tc')"
  using assms filter_update_length [of i "tc_threads tc" "\<lambda>t. t \<noteq> Finished" Finished]
  by (auto simp: thread_return_def running_def split: if_splits)

lemma running_cancel:
  assumes "CtxCancel tc i = Some tc'"
  shows "running tc' = running tc"
  using assms filter_update_length [of i "tc_threads tc" "\<lambda>t. t \<noteq> Finished" "Live True"]
  by (auto simp: CtxCancel_def running_def split: if_splits)

lemma tc_step_inv:
  assumes "tc_step tc tc'" "tc_inv tc"
  shows "tc_inv tc'"
  using assms(1)
proof (cases rule: tc_step.cases)
  case start
  with assms(2) show ?thesis by (auto simp: tc_inv_def running_def Go_def)
next
  case (cancel i)
  with assms(2) running_cancel [OF cancel] show ?thesis
    by (elim CtxCancel_SomeE) (simp add: tc_inv_def)
next
  case (ret i)
  from running_return [OF ret] assms(2) have r: "tc_threadsWG tc - 1 = running tc'" by (simp add: tc_inv_def)
  have "Live True \<in> set (tc_threads tc)" if "Live True \<in> set ((tc_threads tc)[i := Finished])"
    using set_list_update [OF that] by simp
  with ret assms(2) r show ?thesis by (elim thread_return_SomeE) (auto simp: tc_inv_def)
next
  case close
  with assms(2) show ?thesis by (auto simp: tc_inv_def running_def Close_def split: if_splits)
next
  case wait
  with assms(2) show ?thesis by (auto simp: tc_inv_def running_def close_wait_def split: if_splits)
qed

lemma tc_reachable_inv: "tc_step\<^sup>*\<^sup>* NewThreadControl tc \<Longrightarrow> tc_inv tc"
proof (induction rule: rtranclp_induct)
  case base
  then show ?case by (simp add: NewThreadControl_def tc_inv_def running_def)
qed (rule tc_step_inv)

lemma quiet_step: "tc_quiet tc tc' \<Longrightarrow> tc_step tc tc'"
  by (cases rule: tc_quiet.cases) (auto intro: tc_step.intros)

text \<open>What a closing group still has to do: two steps for a live goroutine, one for a cancelled one, and
  the return of \<open>Close\<close>.\<close>

definition tc_work :: "threadControl \<Rightarrow> nat" where
  "tc_work tc = running tc + length (filter (\<lambda>t. t = Live False) (tc_threads tc))
     + (if tc_closing tc = Waiting then 1 else 0)"

lemma quiet_work:
  assumes "tc_quiet tc tc'"
  shows "tc_work tc = Suc (tc_work tc')"
  using assms
proof (cases rule: tc_quiet.cases)
  case (cancel i)
  then show ?thesis using running_cancel [OF cancel]
      filter_update_length [of i "tc_threads tc" "\<lambda>t. t = Live False" "Live True"]
    by (auto simp: CtxCancel_def tc_work_def split: if_splits)
next
  case (ret i)
  then show ?thesis using running_return [OF ret(2)]
      filter_update_length [of i "tc_threads tc" "\<lambda>t. t = Live False" Finished]
    by (auto simp: thread_return_def tc_work_def split: if_splits)
next
  case wait
  then show ?thesis by (auto simp: close_wait_def tc_work_def running_def split: if_splits)
qed

lemma quiet_run_work: "(tc_quiet ^^ n) tc tc' \<Longrightarrow> tc_work tc = n + tc_work tc'"
proof (induction n arbitrary: tc')
  case (Suc n)
  then obtain t where "(tc_quiet ^^ n) tc t" "tc_quiet t tc'" by auto
  with Suc.IH quiet_work show ?case by fastforce
qed simp

lemma quiet_progress:
  assumes "tc_inv tc" "tc_stop tc" "\<And>tc'. \<not> tc_quiet tc tc'"
  shows "tc_closing tc = Closed \<and> set (tc_threads tc) \<subseteq> {Finished}"
proof -
  have "tc_threads tc ! i = Finished" if i: "i < length (tc_threads tc)" for i
  proof (cases "tc_threads tc ! i")
    case (Live b)
    have "CtxCancel tc i \<noteq> None" if "\<not> b" using that i Live assms(2) by (simp add: CtxCancel_def)
    moreover have "thread_return tc i \<noteq> None" using i Live by (simp add: thread_return_def)
    ultimately show ?thesis using assms(3) Live by (cases b) (auto intro: tc_quiet.intros)
  qed
  then have f: "set (tc_threads tc) \<subseteq> {Finished}" by (auto simp: in_set_conv_nth)
  then have "running tc = 0" by (auto simp: running_def filter_empty_conv)
  with assms(1) have "tc_threadsWG tc = 0" by (simp add: tc_inv_def)
  then have "tc_closing tc \<noteq> Waiting"
    using assms(3) [of "tc\<lparr>tc_closing := Closed\<rparr>"] tc_quiet.wait [of tc] by (auto simp: close_wait_def)
  with assms(1,2) f show ?thesis by (cases "tc_closing tc") (auto simp: tc_inv_def)
qed

lemma quiet_stop: "tc_quiet\<^sup>*\<^sup>* tc tc' \<Longrightarrow> tc_stop tc \<Longrightarrow> tc_stop tc'"
  by (induction rule: rtranclp_induct)
    (auto elim!: tc_quiet.cases simp: CtxCancel_def thread_return_def close_wait_def split: if_splits)

section \<open>Properties\<close>

text \<open>closing a group is safe.  In every run the counter is the number of goroutines still running, a
  context is cancelled only when the group is being closed, and the return of \<open>Close\<close> is possible only
  when every goroutine has returned; a second \<open>Close\<close> panics.\<close>

theorem thread_close_safe:
  assumes "tc_step\<^sup>*\<^sup>* NewThreadControl tc"
  shows "tc_threadsWG tc = length (filter (\<lambda>t. t \<noteq> Finished) (tc_threads tc))
    \<and> (Live True \<in> set (tc_threads tc) \<longrightarrow> tc_stop tc)
    \<and> (close_wait tc \<noteq> None \<longrightarrow> set (tc_threads tc) \<subseteq> {Finished})
    \<and> (tc_closing tc \<noteq> Open \<longrightarrow> Close tc = Panic CloseOfClosedChannel)"
proof -
  have inv: "tc_inv tc" by (rule tc_reachable_inv [OF assms])
  moreover have "set (tc_threads tc) \<subseteq> {Finished}" if "close_wait tc \<noteq> None"
  proof -
    from that inv have "running tc = 0" by (auto simp: close_wait_def tc_inv_def split: if_splits)
    then show ?thesis by (auto simp: running_def filter_empty_conv)
  qed
  ultimately show ?thesis by (auto simp: tc_inv_def running_def Close_def)
qed

theorem thread_close_safe_witness:
  "\<exists>tc. Close (Go NewThreadControl) = Ret tc \<and> tc_threadsWG tc = 1 \<and> close_wait tc = None
    \<and> Close tc = Panic CloseOfClosedChannel"
proof -
  obtain tc where c: "Close (Go NewThreadControl) = Ret tc" "tc_threadsWG tc = 1" "tc_closing tc = Waiting"
    by (simp add: Close_def Go_def NewThreadControl_def)
  from tc_step.start tc_step.close [OF c(1)] have "tc_step\<^sup>*\<^sup>* NewThreadControl tc" by (rule rtranclp_two)
  from thread_close_safe [OF this] c show ?thesis by (auto simp: close_wait_def)
qed

text \<open>C37: closing a group terminates.  If its goroutines return once their context is cancelled and nothing
  new is started, every run after \<open>Close\<close> has at most two steps for each goroutine and one more, and a
  run that cannot go on has ended with every goroutine and \<open>Close\<close> itself returned.\<close>

theorem thread_close_terminates:
  assumes "tc_step\<^sup>*\<^sup>* NewThreadControl tc" and "Close tc = Ret tc1"
  shows "(\<forall>n tc2. (tc_quiet ^^ n) tc1 tc2 \<longrightarrow> n \<le> 2 * length (tc_threads tc) + 1) \<and>
    (\<forall>tc2. tc_quiet\<^sup>*\<^sup>* tc1 tc2 \<longrightarrow> (\<forall>tc3. \<not> tc_quiet tc2 tc3) \<longrightarrow>
      tc_closing tc2 = Closed \<and> set (tc_threads tc2) \<subseteq> {Finished})"
proof -
  from assms(2) have t: "tc_threads tc1 = tc_threads tc" "tc_stop tc1" by (auto simp: Close_def split: if_splits)
  have "(if tc_closing tc1 = Waiting then 1 else 0) \<le> (1::nat)" by simp
  then have "tc_work tc1 \<le> 2 * length (tc_threads tc) + 1"
    using length_filter_le [of "\<lambda>t. t \<noteq> Finished" "tc_threads tc"]
      length_filter_le [of "\<lambda>t. t = Live False" "tc_threads tc"]
    unfolding tc_work_def running_def t(1) by linarith
  then have b: "n \<le> 2 * length (tc_threads tc) + 1" if "(tc_quiet ^^ n) tc1 tc2" for n tc2
    using quiet_run_work [OF that] by simp
  have i1: "tc_inv tc1" using tc_reachable_inv [OF assms(1)] tc_step_inv tc_step.close [OF assms(2)] by blast
  have "tc_inv tc2" if "tc_quiet\<^sup>*\<^sup>* tc1 tc2" for tc2
    using that i1 by (induction rule: rtranclp_induct) (auto intro: tc_step_inv quiet_step)
  with b quiet_progress quiet_stop t(2) show ?thesis by blast
qed

theorem thread_close_terminates_witness:
  "\<exists>tc1. Close (Go NewThreadControl) = Ret tc1 \<and> (\<forall>n tc2. (tc_quiet ^^ n) tc1 tc2 \<longrightarrow> n \<le> 3)"
proof -
  have r: "tc_step\<^sup>*\<^sup>* NewThreadControl (Go NewThreadControl)" by (rule r_into_rtranclp [of tc_step, OF tc_step.start])
  obtain tc1 where c: "Close (Go NewThreadControl) = Ret tc1" by (simp add: Close_def Go_def NewThreadControl_def)
  from thread_close_terminates [OF r c] c show ?thesis by (auto simp: Go_def NewThreadControl_def)
qed

end
