(* ===== verification/Validation_Path.thy ===== *)
theory Validation_Path
  imports Msg_Router Val_Router
begin

text \<open>
  The two ends of the routers in the controller (\<open>core/pubsub.go\<close>): \<open>listenSubscription\<close> feeds the message
  router from a subscription, \<open>validateMsg\<close> is the topic validator, which asks the validation router
  and through it, once \<open>RefreshRouters\<close> (\<open>core/ctrl.go\<close>) has installed the handler of
  \<open>cmd/pmq/main.go\<close>, the validators that are connected over gRPC.
\<close>

section \<open>Subscriptions\<close>

text \<open>What \<open>sub.Next\<close> returns: a message or nil, or an error that is \<open>ErrSubscriptionCancelled\<close> or another.\<close>

datatype 'm sub_next = NextMsg "'m option" | NextErr bool

text \<open>
  \<open>listenSubscription\<close> on the results of \<open>Next\<close>, each with the state of the context before the call and
  after it; \<open>handle\<close> is \<open>msgRouter.Handle\<close>.  The flag says that the function has returned.
\<close>

fun listenSubscription :: "('s \<Rightarrow> 'm \<Rightarrow> 's \<times> err) \<Rightarrow> 's \<Rightarrow> (bool \<times> 'm sub_next \<times> bool) list \<Rightarrow> 's \<times> bool" where
  "listenSubscription handle s [] = (s, False)"
| "listenSubscription handle s ((before, nx, after) # rest) =
     (if before then (s, True)
      else (case nx of
              NextErr cancelled \<Rightarrow>
                if cancelled \<or> after then (s, True) else listenSubscription handle s rest
            | NextMsg None \<Rightarrow> listenSubscription handle s rest
            | NextMsg (Some msg) \<Rightarrow>
                (case handle s msg of
                   (s, Some e) \<Rightarrow> if after then (s, True) else listenSubscription handle s rest
                 | (s, None) \<Rightarrow> listenSubscription handle s rest)))"

text \<open>The messages a subscription gives to the router.\<close>

fun sub_msgs :: "(bool \<times> 'm sub_next \<times> bool) list \<Rightarrow> 'm list" where
  "sub_msgs [] = []"
| "sub_msgs ((b, NextMsg (Some m), a) # rest) = m # sub_msgs rest"
| "sub_msgs (x # rest) = sub_msgs rest"

section \<open>Validation\<close>

text \<open>A pubsub message as far as the engine reads it: the id, the topic and the data.\<close>

record ps_message =
  pm_ID :: string
  pm_Topic :: string
  pm_Data :: bytes

text \<open>\<open>HandleWait\<close> as its caller sees it: the result of the second \<open>select\<close>, if it has ended.\<close>

definition wait_result :: "'r waiter \<Rightarrow> (string + 'r) option" where
  "wait_result w = (case w of
      Got r \<Rightarrow> Some (Inr r) | TimedOut \<Rightarrow> Some (Inl ''timeout waiting for msg'') | _ \<Rightarrow> None)"

definition validateMsg :: "string \<Rightarrow> string \<Rightarrow> (string + psResult) \<Rightarrow> psResult" where
  "validateMsg host p handled =
     (if p = host then ValidationAccept
      else (case handled of Inl e \<Rightarrow> ValidationIgnore | Inr res \<Rightarrow> res))"

text \<open>The message \<open>PushWait\<close> makes of a wrapper.\<close>

definition push_msg :: "ps_message \<Rightarrow> Message" where
  "push_msg m = \<lparr>msg_MessageId = pm_ID m, msg_Topic = pm_Topic m, msg_Data = pm_Data m\<rparr>"

text \<open>
  The handler that the command installs sets \<open>Result\<close> to what \<open>PushWait\<close> returned; \<open>V\<close> is the state of
  the validation router.
\<close>

definition val_handler :: "ValidationRouterImpl \<Rightarrow> (ps_message, psResult) handler" where
  "val_handler V m r r' \<longleftrightarrow>
     (\<exists>c k. vr_calls V c = Some k \<and> pw_msg k = push_msg m \<and> pw_st k = Returned r')"

text \<open>\<open>RefreshRouters\<close> on one router: the old handler is replaced and a loop is started.\<close>

definition refresh_router :: "('m, 'r) msgRouter \<Rightarrow> ('m, 'r) handler \<Rightarrow> ('m, 'r) msgRouter option" where
  "refresh_router s h =
     (case RefreshHandler s h of
        None \<Rightarrow> None
      | Some s \<Rightarrow> (case refresh_send s None of
          None \<Rightarrow> None
        | Some s \<Rightarrow> map_option Start (refresh_finish s)))"

section \<open>Lemmas\<close>

text \<open>Forgetting the first handler of the record changes nothing in a run.\<close>

definition trim :: "('m, 'r) msgRouter \<Rightarrow> ('m, 'r) msgRouter" where
  "trim s = s\<lparr>rt_installed := tl (rt_installed s)\<rparr>"

lemma trim_simps [simp]:
  "rt_q (trim s) = rt_q s" "rt_loops (trim s) = rt_loops s" "rt_tasks (trim s) = rt_tasks s"
  "rt_handler (trim s) = rt_handler s" "rt_waiters (trim s) = rt_waiters s" "rt_refresh (trim s) = rt_refresh s"
  "rt_handled (trim s) = rt_handled s" "rt_installed (trim s) = tl (rt_installed s)"
  "rt_qSize (trim s) = rt_qSize s" "rt_next (trim s) = rt_next s" "rt_workers (trim s) = rt_workers s"
  "rt_workersCap (trim s) = rt_workersCap s" "rt_accepted (trim s) = rt_accepted s"
  "rt_dispatched (trim s) = rt_dispatched s"
  by (simp_all add: trim_def)

lemma trim_upd:
  "(trim s)\<lparr>rt_next := n\<rparr> = trim (s\<lparr>rt_next := n\<rparr>)"
  "(trim s)\<lparr>rt_refresh := h\<rparr> = trim (s\<lparr>rt_refresh := h\<rparr>)"
  by (cases s, simp add: trim_def)+

lemma trim_send_q: "send_q (trim s) rx x = map_option trim (send_q s rx x)"
  by (simp add: send_q_def trim_def split: option.splits)

lemma trim_ops:
  "fst (Handle (trim s) zr rx p m) = trim (fst (Handle s zr rx p m))"
  "fst (HandleWait (trim s) zr rx p m) = trim (fst (HandleWait s zr rx p m))"
  "wait_begin (trim s) k = map_option trim (wait_begin s k)"
  "wait_timeout (trim s) k = map_option trim (wait_timeout s k)"
  "Start (trim s) = trim (Start s)"
  "loop_receive (trim s) i = map_option trim (loop_receive s i)"
  "loop_done (trim s) i = map_option trim (loop_done s i)"
  "dispatchMsg (trim s) i = map_option trim (dispatchMsg s i)"
  "run_handler (trim s) i r = map_option trim (run_handler s i r)"
  "run_callback (trim s) i = map_option trim (run_callback s i)"
  "run_release (trim s) i = map_option trim (run_release s i)"
  "RefreshHandler (trim s) h = map_option trim (RefreshHandler s h)"
proof -
  show "fst (Handle (trim s) zr rx p m) = trim (fst (Handle s zr rx p m))"
    by (simp add: Handle_def Let_def trim_send_q trim_upd split: option.splits)
  show "fst (HandleWait (trim s) zr rx p m) = trim (fst (HandleWait s zr rx p m))"
    by (simp add: HandleWait_def Let_def trim_send_q trim_upd split: option.splits)
qed (simp_all add: wait_begin_def wait_timeout_def Start_def loop_receive_def loop_done_def dispatchMsg_def
    run_handler_def run_callback_def run_release_def RefreshHandler_def trim_def
    split: list.splits start_loop.splits prod.splits stage.splits refresh.splits)

lemma trim_refresh:
  "refresh_send (trim s) rx = map_option trim (refresh_send s rx)"
  "rt_installed s \<noteq> [] \<Longrightarrow> refresh_finish (trim s) = map_option trim (refresh_finish s)"
proof -
  show "refresh_send (trim s) rx = map_option trim (refresh_send s rx)"
    by (simp add: refresh_send_def trim_send_q option.map_comp comp_def trim_upd split: refresh.splits)
  show "rt_installed s \<noteq> [] \<Longrightarrow> refresh_finish (trim s) = map_option trim (refresh_finish s)"
    by (simp add: refresh_finish_def trim_def split: refresh.splits)
qed


lemma trim_step:
  assumes "rt_step zr s s'" "rt_installed s \<noteq> []"
  shows "rt_step zr (trim s) (trim s') \<and> rt_installed s' \<noteq> []"
  using assms(1)
proof (cases rule: rt_step.cases)
  case (handle rx p m)
  have "rt_installed (fst (Handle s zr rx p m)) = rt_installed s"
    by (auto simp: Handle_def Let_def send_q_def split: option.splits if_splits)
  with handle assms(2) rt_step.handle [of zr "trim s" rx p m] show ?thesis by (simp add: trim_ops)
next
  case (handle_wait rx p m)
  have "rt_installed (fst (HandleWait s zr rx p m)) = rt_installed s"
    by (auto simp: HandleWait_def Let_def send_q_def split: option.splits if_splits)
  with handle_wait assms(2) rt_step.handle_wait [of zr "trim s" rx p m] show ?thesis by (simp add: trim_ops)
next
  case (start)
  with assms(2) rt_step.start [of zr "trim s"] show ?thesis by (simp add: trim_ops) (simp add: Start_def)
next
  case (refresh_nil rx)
  then have "rt_installed s' = rt_installed s"
    by (auto simp: refresh_send_def send_q_def split: refresh.splits option.splits if_splits)
  with refresh_nil assms(2) rt_step.refresh_nil [of "trim s" rx "trim s'" zr] show ?thesis by (simp add: trim_refresh)
next
  case refresh_end
  then have "rt_installed s' \<noteq> []" by (auto simp: refresh_finish_def split: refresh.splits if_splits)
  with refresh_end assms(2) rt_step.refresh_end [of "trim s" "trim s'" zr] show ?thesis by (simp add: trim_refresh)
next
  case (await k)
  then have "rt_installed s' = rt_installed s" by (auto simp: wait_begin_def split: if_splits)
  with await assms(2) rt_step.await [of "trim s" k "trim s'" zr] show ?thesis by (simp add: trim_ops)
next
  case (timeout k)
  then have "rt_installed s' = rt_installed s" by (auto simp: wait_timeout_def split: if_splits)
  with timeout assms(2) rt_step.timeout [of "trim s" k "trim s'" zr] show ?thesis by (simp add: trim_ops)
next
  case (receive i)
  then have "rt_installed s' = rt_installed s" by (elim loop_receive_SomeE) simp
  with receive assms(2) rt_step.receive [of "trim s" i "trim s'" zr] show ?thesis by (simp add: trim_ops)
next
  case (ctx_done i)
  then have "rt_installed s' = rt_installed s" by (auto simp: loop_done_def split: if_splits)
  with ctx_done assms(2) rt_step.ctx_done [of "trim s" i "trim s'" zr] show ?thesis by (simp add: trim_ops)
next
  case (dispatch i)
  then have "rt_installed s' = rt_installed s" by (elim dispatchMsg_SomeE) simp
  with dispatch assms(2) rt_step.dispatch [of "trim s" i "trim s'" zr] show ?thesis by (simp add: trim_ops)
next
  case (handler j res)
  then have "rt_installed s' = rt_installed s" by (elim run_handler_SomeE) simp
  with handler assms(2) rt_step.handler [of "trim s" j res "trim s'" zr] show ?thesis by (simp add: trim_ops)
next
  case (call_back j)
  then have "rt_installed s' = rt_installed s" by (elim run_callback_SomeE) simp
  with call_back assms(2) rt_step.call_back [of "trim s" j "trim s'" zr] show ?thesis by (simp add: trim_ops)
next
  case (release j)
  then have "rt_installed s' = rt_installed s" by (elim run_release_SomeE) simp
  with release assms(2) rt_step.release [of "trim s" j "trim s'" zr] show ?thesis by (simp add: trim_ops)
next
  case (refresh h)
  then have "rt_installed s' = rt_installed s" by (auto simp: RefreshHandler_def split: refresh.splits)
  with refresh assms(2) rt_step.refresh [of "trim s" h "trim s'" zr] show ?thesis by (simp add: trim_ops)
qed

lemma trim_run:
  assumes "(rt_step zr)\<^sup>*\<^sup>* s s'" "rt_installed s \<noteq> []"
  shows "(rt_step zr)\<^sup>*\<^sup>* (trim s) (trim s') \<and> rt_installed s' \<noteq> []"
  using assms
proof (induction rule: rtranclp_induct)
  case (step a b)
  with trim_step [of zr a b] show ?case by (meson rtranclp.rtrancl_into_rtrancl)
qed simp

text \<open>After \<open>refresh_router\<close> of a fresh router only the new handler can give results.\<close>

lemma refresh_router_fresh:
  assumes "NewMsgRouter qSize workers h0 = Ret s0" "refresh_router s0 h = Some s1"
  shows "(rt_step zr)\<^sup>*\<^sup>* s0 s1" "rt_results zr (trim s1)" "rt_installed s1 = [h0, h]"
proof -
  obtain a b c where s: "RefreshHandler s0 h = Some a" "refresh_send a None = Some b" "refresh_finish b = Some c"
    "s1 = Start c"
    using assms(2) by (auto simp: refresh_router_def split: option.splits)
  have "rt_step zr s0 a" "rt_step zr a b" "rt_step zr b c" using s by (auto intro: rt_step.intros)
  then have "(rt_step zr)\<^sup>*\<^sup>* s0 c" by (rule rtranclp_three)
  with s(4) rt_step.start show "(rt_step zr)\<^sup>*\<^sup>* s0 s1" by (metis rtranclp.rtrancl_into_rtrancl)
  have f: "s1 = s0\<lparr>rt_q := [None], rt_handler := h, rt_installed := [h0, h], rt_loops := [Idle]\<rparr>"
    using s assms(1)
    by (auto simp: NewMsgRouter_def RefreshHandler_def refresh_send_def refresh_finish_def send_q_def Start_def
        split: if_splits)
  have z: "rt_tasks s0 = []" "rt_handled s0 = []" "rt_waiters s0 = (\<lambda>_. None)"
    using assms(1) by (auto simp: NewMsgRouter_def split: if_splits)
  show "rt_results zr (trim s1)" unfolding rt_results_def by (simp add: f z)
  show "rt_installed s1 = [h0, h]" by (simp add: f)
qed

lemma results_run:
  assumes "(rt_step zr)\<^sup>*\<^sup>* s s'" "rt_results zr s"
  shows "rt_results zr s'"
  using assms by (induction rule: rtranclp_induct) (auto intro: step_results)

lemma refreshed_result:
  assumes "NewMsgRouter qSize workers h0 = Ret s0" "refresh_router s0 h = Some s1" "(rt_step zr)\<^sup>*\<^sup>* s1 s"
    and "rt_installed s = [h0, h]" and "rt_waiters s k = Some (Got r)"
  shows "\<exists>m. (k, m) \<in> set (rt_accepted s) \<and> h m zr r"
proof -
  note f = refresh_router_fresh [OF assms(1,2)]
  have "rt_results zr (trim s)" using trim_run [OF assms(3)] f(2,3) by (auto intro: results_run)
  then have a: "\<forall>((k, m), r) \<in> set (rt_handled s). \<exists>h \<in> set (tl (rt_installed s)). h m zr r"
    and b: "\<And>k r. rt_waiters s k = Some (Got r) \<Longrightarrow> \<exists>m. ((k, m), r) \<in> set (rt_handled s)"
    unfolding rt_results_def trim_simps by blast+
  from b [OF assms(5)] obtain m where m: "((k, m), r) \<in> set (rt_handled s)" by blast
  with a assms(4) have h: "h m zr r" by auto
  have "(rt_step zr)\<^sup>*\<^sup>* s0 s" by (rule rtranclp_trans [OF f(1) assms(3)])
  from reachable_inv(2) [OF assms(1) this]
  have "set_mset (mset (rt_accepted s)) \<supseteq> fst ` set (rt_handled s)" unfolding rt_conserved_def by auto
  with m h show ?thesis by force
qed

lemma pushed_accept:
  assumes "vr_step\<^sup>*\<^sup>* (NewValidationRouterServer n) V" "val_handler V m r ValidationAccept"
  shows "(pm_ID m, VR_ACCEPT) \<in> set (vr_replies V)"
proof -
  from assms(2) obtain c k where k: "vr_calls V c = Some k" "pw_msg k = push_msg m"
    "pw_st k = Returned ValidationAccept" by (auto simp: val_handler_def)
  with vr_reachable_inv [OF assms(1)] have "verdict_ok (vr_replies V) (call_mid k) (Returned ValidationAccept)"
    unfolding vr_inv_def by metis
  with k(2) show ?thesis
    by (auto simp: verdict_ok_def backed_def push_msg_def convertResult_def VR_defs split: if_splits)
qed

lemma listen_offers:
  assumes "list_all (\<lambda>(b, nx, a). \<not> b \<and> \<not> a \<and> nx \<noteq> NextErr True) evs"
  shows "listenSubscription handle s evs = (foldl (\<lambda>s m. fst (handle s m)) s (sub_msgs evs), False)"
  using assms
proof (induction handle s evs rule: listenSubscription.induct)
  case (2 handle s b nx a rest)
  then show ?case by (auto split: sub_next.splits option.splits prod.splits)
qed simp

lemma Handle_burst:
  assumes "rt_qSize s \<noteq> 0" "length (rt_q s) \<le> rt_qSize s"
  shows "map snd (rt_accepted (foldl (\<lambda>s m. fst (Handle s zr None (src m) m)) s ms))
      = map snd (rt_accepted s) @ take (rt_qSize s - length (rt_q s)) ms"
  using assms
proof (induction ms arbitrary: s)
  case (Cons m ms)
  let ?s = "fst (Handle s zr None (src m) m)"
  show ?case
  proof (cases "length (rt_q s) < rt_qSize s")
    case True
    then have "rt_qSize ?s = rt_qSize s" "length (rt_q ?s) = Suc (length (rt_q s))"
      "map snd (rt_accepted ?s) = map snd (rt_accepted s) @ [m]"
      by (simp_all add: Handle_def Let_def send_q_def mw_key_def)
    moreover from True have "rt_qSize s - length (rt_q s) = Suc (rt_qSize s - Suc (length (rt_q s)))" by simp
    ultimately show ?thesis using Cons.IH [of ?s] Cons.prems True by simp
  next
    case False
    then have "rt_qSize ?s = rt_qSize s" "rt_q ?s = rt_q s" "rt_accepted ?s = rt_accepted s"
      using Cons.prems by (simp_all add: Handle_def Let_def send_q_def)
    with Cons.IH [of ?s] Cons.prems False show ?thesis by simp
  qed
qed simp

section \<open>Properties\<close>

text \<open>nothing foreign is accepted without a validator.  In the set-up of the command (a router whose handler
  \<open>RefreshRouters\<close> replaced by the one that calls \<open>PushWait\<close>), when \<open>validateMsg\<close> accepts a message of
  another peer, then the message it waited for was in the router's queue and a validator connected
  over gRPC replied accept for its id; with no validator, or a full queue, or a late verdict, nothing
  foreign is accepted.\<close>

theorem accepted_means_validated:
  assumes "NewMsgRouter qSize workers h0 = Ret s0" and "refresh_router s0 (val_handler V) = Some s1"
    and "(rt_step zr)\<^sup>*\<^sup>* s1 s" and "rt_installed s = [h0, val_handler V]"
    and "vr_step\<^sup>*\<^sup>* (NewValidationRouterServer n) V"
    and "rt_waiters s k = Some w" and "wait_result w = Some handled"
    and "validateMsg host p handled = ValidationAccept" and "p \<noteq> host"
  shows "\<exists>m. (k, m) \<in> set (rt_accepted s) \<and> (pm_ID m, VR_ACCEPT) \<in> set (vr_replies V)"
proof -
  from assms(8,9) have "handled = Inr ValidationAccept"
    by (auto simp: validateMsg_def split: sum.splits)
  with assms(6,7) have "rt_waiters s k = Some (Got ValidationAccept)"
    by (auto simp: wait_result_def split: waiter.splits)
  with refreshed_result [OF assms(1-4)] obtain m where
    "(k, m) \<in> set (rt_accepted s)" "val_handler V m zr ValidationAccept" by blast
  with pushed_accept [OF assms(5)] show ?thesis by blast
qed

definition path_msg :: ps_message where
  "path_msg = \<lparr>pm_ID = ''id'', pm_Topic = ''t'', pm_Data = [1]\<rparr>"

definition path_ops :: "((ps_message, psResult) msgRouter \<Rightarrow> (ps_message, psResult) msgRouter option) list" where
  "path_ops = [\<lambda>s. loop_receive s 0, \<lambda>s. Some (Start s),
     \<lambda>s. Some (fst (HandleWait s ValidationAccept None ''p'' path_msg)), \<lambda>s. wait_begin s 0,
     \<lambda>s. loop_receive s 1, \<lambda>s. dispatchMsg s 1, \<lambda>s. run_handler s 0 ValidationAccept, \<lambda>s. run_callback s 0]"

lemma path_ops_steps: "f \<in> set path_ops \<Longrightarrow> f s = Some s' \<Longrightarrow> rt_step ValidationAccept s s'"
  by (auto simp: path_ops_def intro: rt_step.intros)

lemma path_run:
  assumes "h path_msg ValidationAccept ValidationAccept"
  shows "\<exists>s0 s1 s. NewMsgRouter 2 1 h0 = Ret s0 \<and> refresh_router s0 h = Some s1 \<and> run_ops path_ops s1 = Some s
    \<and> rt_installed s = [h0, h] \<and> rt_waiters s 0 = Some (Got ValidationAccept)"
  using assms
  by (simp add: NewMsgRouter_def refresh_router_def path_ops_def rt_op_defs received_def callback_def)

theorem accepted_means_validated_witness:
  "\<exists>V s0 s1 s. vr_step\<^sup>*\<^sup>* (NewValidationRouterServer 1) V
    \<and> NewMsgRouter 2 1 (\<lambda>m r r'. r' = ValidationAccept) = Ret s0 \<and> refresh_router s0 (val_handler V) = Some s1
    \<and> run_ops path_ops s1 = Some s \<and> validateMsg ''host'' ''p'' (Inr ValidationAccept) = ValidationAccept
    \<and> (\<exists>m. (0, m) \<in> set (rt_accepted s) \<and> (pm_ID m, VR_ACCEPT) \<in> set (vr_replies V))"
proof -
  let ?fs = "[\<lambda>s. Some (pushWait_add s (push_msg path_msg)), \<lambda>s. pushWait_queue s 0 False, \<lambda>s. pushWait_wait s 0,
       \<lambda>s. receive_reply s (Inr (Some \<lparr>vm_Result = VR_ACCEPT, vm_Msg = Some (push_msg path_msg)\<rparr>)), \<lambda>s. resolve_send s 0,
       \<lambda>s. pushWait_return s 0]"
  obtain V k where V: "vr_run ?fs (NewValidationRouterServer 1) = Some V" "vr_calls V 0 = Some k"
    "pw_st k = Returned ValidationAccept" "pw_msg k = push_msg path_msg"
    by (simp add: vr_op_defs NewValidationRouterServer_def set_state_def call_in_def push_msg_def path_msg_def
        ValidatedMessage_GetMsg_def ValidatedMessage_GetResult_def Message_GetMessageId_def convertResult_def)
  have r: "vr_step\<^sup>*\<^sup>* (NewValidationRouterServer 1) V"
    by (rule vr_run_steps [OF V(1)]) (auto intro: vr_step.intros)
  have "val_handler V path_msg ValidationAccept ValidationAccept"
    using V(2-4) by (auto simp: val_handler_def)
  from path_run [of "val_handler V" "\<lambda>m r r'. r' = ValidationAccept", OF this] obtain s0 s1 s where s:
    "NewMsgRouter 2 1 (\<lambda>m r r'. r' = ValidationAccept) = Ret s0" "refresh_router s0 (val_handler V) = Some s1"
    "run_ops path_ops s1 = Some s" "rt_installed s = [\<lambda>m r r'. r' = ValidationAccept, val_handler V]"
    "rt_waiters s 0 = Some (Got ValidationAccept)" by blast
  have "(rt_step ValidationAccept)\<^sup>*\<^sup>* s1 s" using run_ops_steps [OF s(3)] path_ops_steps by blast
  from accepted_means_validated [OF s(1,2) this s(4) r s(5), of "Inr ValidationAccept" "''host''" "''p''"]
  have "\<exists>m. (0, m) \<in> set (rt_accepted s) \<and> (pm_ID m, VR_ACCEPT) \<in> set (vr_replies V)"
    by (simp add: wait_result_def validateMsg_def)
  with r s(1-3) show ?thesis by (auto simp: validateMsg_def)
qed

text \<open>a burst beyond the queue is lost.  While no loop of the router runs, a subscription that delivers any
  sequence of messages gets exactly the first \<open>qSize\<close> of them into the queue, in order, drops all
  others, and keeps listening.\<close>

theorem subscription_burst_truncated:
  assumes "NewMsgRouter qSize workers h = Ret s0" and "0 < qSize"
    and "list_all (\<lambda>(b, nx, a). \<not> b \<and> \<not> a \<and> nx \<noteq> NextErr True) evs"
    and "listenSubscription (\<lambda>s m. Handle s zr None (src m) m) s0 evs = (s, stopped)"
  shows "map snd (rt_accepted s) = take (nat qSize) (sub_msgs evs) \<and> \<not> stopped"
proof -
  from assms(1,2) have s0: "rt_qSize s0 = nat qSize" "rt_q s0 = []" "rt_accepted s0 = []"
    by (auto simp: NewMsgRouter_def split: if_splits)
  from listen_offers [OF assms(3), of "\<lambda>s m. Handle s zr None (src m) m" s0] assms(4)
  have "s = foldl (\<lambda>s m. fst (Handle s zr None (src m) m)) s0 (sub_msgs evs)" "\<not> stopped" by simp_all
  with Handle_burst [of s0 zr src "sub_msgs evs"] s0 assms(2) show ?thesis by simp
qed

theorem subscription_burst_truncated_witness:
  "\<exists>s0 s stopped. NewMsgRouter 1 1 (\<lambda>m r r'. r' = m) = Ret s0
    \<and> listenSubscription (\<lambda>s m. Handle s 0 None ''p'' m) s0
        [(False, NextMsg (Some 7), False), (False, NextErr False, False), (False, NextMsg (Some 8), False)] = (s, stopped)
    \<and> map snd (rt_accepted s) = [7::nat] \<and> \<not> stopped"
proof -
  let ?evs = "[(False, NextMsg (Some 7), False), (False, NextErr False, False), (False, NextMsg (Some (8::nat)), False)]"
  obtain s0 :: "(nat, nat) msgRouter" where s0: "NewMsgRouter 1 1 (\<lambda>m r r'. r' = m) = Ret s0"
    by (simp add: NewMsgRouter_def)
  obtain s stopped where l: "listenSubscription (\<lambda>s m. Handle s 0 None ''p'' m) s0 ?evs = (s, stopped)" by fastforce
  have "map snd (rt_accepted s) = take (nat 1) (sub_msgs ?evs) \<and> \<not> stopped"
    by (rule subscription_burst_truncated [OF s0 _ _ l]) simp_all
  with s0 l show ?thesis by (intro exI [of _ s0] exI [of _ s] exI [of _ stopped]) simp
qed

end
