(* ===== verification/Don_Report.thy ===== *)
theory Don_Report
  imports Go_Strings Proto
begin

text \<open>
  The signed reports of the DON example (\<open>examples/don/report.go\<close>, \<open>ocr_types.go\<close>, \<open>ocr_evm_keyring.go\<close>,
  \<open>signer_ocr.go\<close>): the report and its context, the text that is signed, the raw encoding of the
  context, and the signers.  Keccak and the elliptic curve are parameters.
\<close>

section \<open>Types\<close>

type_synonym OracleID = "8 word"

type_synonym OnchainPublicKey = bytes

record ReportTimestamp =
  rts_ConfigDigest :: bytes
  rts_Epoch :: "32 word"
  rts_Round :: "8 word"

record ReportContext =
  rctx_ReportTimestamp :: ReportTimestamp
  rctx_ExtraHash :: bytes

text \<open>The type \<open>[32]byte\<close> is a list of 32 bytes.\<close>

definition zero32 :: bytes where "zero32 = replicate 32 0"

definition zeroContext :: ReportContext where
  "zeroContext = \<lparr>rctx_ReportTimestamp = \<lparr>rts_ConfigDigest = zero32, rts_Epoch = 0, rts_Round = 0\<rparr>,
     rctx_ExtraHash = zero32\<rparr>"

definition ctx_ok :: "ReportContext \<Rightarrow> bool" where
  "ctx_ok c \<longleftrightarrow> length (rts_ConfigDigest (rctx_ReportTimestamp c)) = 32 \<and> length (rctx_ExtraHash c) = 32"

record MockedSignedReport =
  dsr_Src :: string
  dsr_SeqNumber :: i64
  dsr_Data :: bytes
  dsr_Sigs :: "OracleID \<Rightarrow> bytes option"
  dsr_Ctx :: ReportContext

section \<open>Configuration digests\<close>

text \<open>\<open>[]byte(s)\<close>\<close>

definition bytes_of :: "string \<Rightarrow> bytes" where "bytes_of s = map (\<lambda>c. word_of_nat (of_char c)) s"

definition ConfigDigest_Hex :: "bytes \<Rightarrow> string" where
  "ConfigDigest_Hex c = EncodeToString c"

definition ConfigDigest_String :: "bytes \<Rightarrow> string" where
  "ConfigDigest_String c = ConfigDigest_Hex c"

definition ConfigDigest_MarshalText :: "bytes \<Rightarrow> bytes \<times> err" where
  "ConfigDigest_MarshalText c = (let s = ConfigDigest_String c in (bytes_of s, None))"

definition BytesToConfigDigest :: "bytes \<Rightarrow> bytes \<times> err" where
  "BytesToConfigDigest b =
     (let configDigest = zero32 in
      if length b \<noteq> length configDigest
      then (zero32, Some (''cannot convert bytes to ConfigDigest. bytes have wrong length '' @ show_nat (length b)))
      else (b, None))"

section \<open>The text of a report\<close>

text \<open>
  \<open>fmt.Sprintf("%+v", sr)\<close> for a pointer to a report: fields with names, byte slices in decimal, the map
  with its keys in ascending order, and the digest through its \<open>String\<close> method.
\<close>

definition show_bytes :: "bytes \<Rightarrow> string" where
  "show_bytes bs = ''['' @ Join (map (\<lambda>b. show_nat (unat b)) bs) '' '' @ '']''"

definition all_oracles :: "OracleID list" where
  "all_oracles = map word_of_nat [0..<256]"

definition show_sigs :: "(OracleID \<Rightarrow> bytes option) \<Rightarrow> string" where
  "show_sigs m = ''map['' @ Join (map (\<lambda>o1. show_nat (unat o1) @ '':'' @ show_bytes (the (m o1)))
     (filter (\<lambda>o1. m o1 \<noteq> None) all_oracles)) '' '' @ '']''"

definition show_ctx :: "ReportContext \<Rightarrow> string" where
  "show_ctx c = ''{ReportTimestamp:{ConfigDigest:'' @ ConfigDigest_String (rts_ConfigDigest (rctx_ReportTimestamp c))
     @ '' Epoch:'' @ show_nat (unat (rts_Epoch (rctx_ReportTimestamp c)))
     @ '' Round:'' @ show_nat (unat (rts_Round (rctx_ReportTimestamp c)))
     @ ''} ExtraHash:'' @ show_bytes (rctx_ExtraHash c) @ ''}''"

definition show_report :: "MockedSignedReport \<Rightarrow> string" where
  "show_report sr = ''&{Src:'' @ dsr_Src sr @ '' SeqNumber:'' @ show_int (sint (dsr_SeqNumber sr))
     @ '' Data:'' @ show_bytes (dsr_Data sr) @ '' Sigs:'' @ show_sigs (dsr_Sigs sr)
     @ '' Ctx:'' @ show_ctx (dsr_Ctx sr) @ ''}''"

definition GetReportData :: "MockedSignedReport \<Rightarrow> bytes" where
  "GetReportData r =
     (let sr = \<lparr>dsr_Src = dsr_Src r, dsr_SeqNumber = dsr_SeqNumber r, dsr_Data = dsr_Data r,
                dsr_Sigs = Map.empty, dsr_Ctx = zeroContext\<rparr>
      in bytes_of (show_report sr))"

section \<open>Signers\<close>

text \<open>The curve: signing, recovering the key from a signature, the address of a key, and the hash.\<close>

record ('sk, 'pk) evm_crypto =
  ec_Keccak256 :: "bytes \<Rightarrow> bytes"
  ec_Sign :: "bytes \<Rightarrow> 'sk \<Rightarrow> string + bytes"
  ec_SigToPub :: "bytes \<Rightarrow> bytes \<Rightarrow> string + 'pk"
  ec_PubkeyToAddress :: "'pk \<Rightarrow> bytes"
  ec_Public :: "'sk \<Rightarrow> 'pk"

record 'sk OcrSigner =
  os_k :: 'sk
  os_oid :: OracleID

definition be32_bytes :: "32 word \<Rightarrow> bytes" where
  "be32_bytes w = map (\<lambda>i. word_of_nat (unat w div 256 ^ (3 - i) mod 256)) [0..<4]"

definition RawReportContext :: "ReportContext \<Rightarrow> bytes list" where
  "RawReportContext repctx =
     (let ts = rctx_ReportTimestamp repctx in
      [rts_ConfigDigest ts,
       replicate 27 0 @ be32_bytes (rts_Epoch ts) @ [rts_Round ts],
       rctx_ExtraHash repctx])"

definition reportToSigData :: "('sk, 'pk) evm_crypto \<Rightarrow> ReportContext \<Rightarrow> bytes \<Rightarrow> bytes" where
  "reportToSigData ec reportCtx report =
     (let raw = RawReportContext reportCtx;
          sigData = ec_Keccak256 ec report;
          sigData = sigData @ raw ! 0;
          sigData = sigData @ raw ! 1;
          sigData = sigData @ raw ! 2
      in ec_Keccak256 ec sigData)"

definition signingAddress :: "('sk, 'pk) evm_crypto \<Rightarrow> 'sk \<Rightarrow> bytes" where
  "signingAddress ec sk = ec_PubkeyToAddress ec (ec_Public ec sk)"

definition keyring_PublicKey :: "('sk, 'pk) evm_crypto \<Rightarrow> 'sk \<Rightarrow> OnchainPublicKey" where
  "keyring_PublicKey ec sk = signingAddress ec sk"

definition OnChainPublicKey_hex :: "('sk, 'pk) evm_crypto \<Rightarrow> 'sk \<Rightarrow> string" where
  "OnChainPublicKey_hex ec sk = EncodeToString (keyring_PublicKey ec sk)"

definition keyring_Sign :: "('sk, 'pk) evm_crypto \<Rightarrow> 'sk \<Rightarrow> ReportContext \<Rightarrow> bytes \<Rightarrow> string + bytes" where
  "keyring_Sign ec sk reportCtx report = ec_Sign ec (reportToSigData ec reportCtx report) sk"

definition keyring_Verify :: "('sk, 'pk) evm_crypto \<Rightarrow> OnchainPublicKey \<Rightarrow> ReportContext \<Rightarrow> bytes \<Rightarrow> bytes \<Rightarrow> bool" where
  "keyring_Verify ec publicKey reportCtx report signature =
     (let h = reportToSigData ec reportCtx report
      in case ec_SigToPub ec h signature of
           Inl e \<Rightarrow> False
         | Inr authorPubkey \<Rightarrow> (let authorAddress = ec_PubkeyToAddress ec authorPubkey in publicKey = authorAddress))"

text \<open>
  Keys.  Drawing one and its encoding belong to the library; a signer that gets no key panics, and a key that
  does not decode leaves the keyring as it was.
\<close>

definition NewEVMKeyring :: "('r \<Rightarrow> string + 'sk) \<Rightarrow> 'r \<Rightarrow> string + 'sk" where
  "NewEVMKeyring generate material = (case generate material of Inl e \<Rightarrow> Inl e | Inr ecdsaKey \<Rightarrow> Inr ecdsaKey)"

definition NewSigner :: "('r \<Rightarrow> string + 'sk) \<Rightarrow> 'r \<Rightarrow> OracleID \<Rightarrow> 'sk OcrSigner go" where
  "NewSigner generate reader oid =
     (case NewEVMKeyring generate reader of
        Inl e \<Rightarrow> Panic (Explicit e) | Inr k \<Rightarrow> Ret \<lparr>os_k = k, os_oid = oid\<rparr>)"

definition keyring_Marshal :: "('sk \<Rightarrow> bytes) \<Rightarrow> 'sk \<Rightarrow> string + bytes" where
  "keyring_Marshal fromECDSA sk = Inr (fromECDSA sk)"

definition keyring_Unmarshal :: "(bytes \<Rightarrow> string + 'sk) \<Rightarrow> 'sk \<Rightarrow> bytes \<Rightarrow> 'sk \<times> err" where
  "keyring_Unmarshal toECDSA sk inp = (case toECDSA inp of Inl e \<Rightarrow> (sk, Some e) | Inr k \<Rightarrow> (k, None))"

text \<open>A key that the library can read back is restored, and then verifies what it signed.\<close>

lemma keyring_roundtrip:
  assumes "toECDSA (fromECDSA sk) = Inr sk" "keyring_Marshal fromECDSA sk = Inr b"
    and "keyring_Unmarshal toECDSA sk0 b = (sk', e)" "keyring_Sign ec sk rctx report = Inr sg"
    and "\<And>h. ec_Sign ec h sk = Inr sg \<Longrightarrow> ec_SigToPub ec h sg = Inr (ec_Public ec sk)"
  shows "e = None \<and> keyring_Verify ec (keyring_PublicKey ec sk') rctx report sg"
  using assms
  by (auto simp: keyring_Marshal_def keyring_Unmarshal_def keyring_Sign_def keyring_Verify_def keyring_PublicKey_def
      signingAddress_def)

definition signer_OracleID :: "'sk OcrSigner \<Rightarrow> OracleID" where "signer_OracleID s = os_oid s"

definition signer_Sign :: "('sk, 'pk) evm_crypto \<Rightarrow> 'sk OcrSigner \<Rightarrow> ReportContext \<Rightarrow> bytes \<Rightarrow> string + bytes" where
  "signer_Sign ec s reportCtx report = keyring_Sign ec (os_k s) reportCtx report"

text \<open>\<open>Verify\<close> does not use the key of the signer it is called on.\<close>

definition signer_Verify :: "('sk, 'pk) evm_crypto \<Rightarrow> OnchainPublicKey \<Rightarrow> ReportContext \<Rightarrow> bytes \<Rightarrow> bytes \<Rightarrow> err" where
  "signer_Verify ec pubKey reportCtx report sg =
     (if \<not> keyring_Verify ec pubKey reportCtx report sg then Some ''invalid report'' else None)"

section \<open>Signing a report\<close>

text \<open>
  \<open>NewMockedSignedReport\<close> ranges over the map of signers, in an order chosen by the run time: the argument
  is an enumeration of its entries.  Each signer signs the text of the report as it is at that moment.
\<close>

fun sign_loop :: "('sk, 'pk) evm_crypto \<Rightarrow> ReportContext \<Rightarrow> MockedSignedReport
    \<Rightarrow> (OracleID \<times> 'sk OcrSigner) list \<Rightarrow> string + MockedSignedReport" where
  "sign_loop ec rctx sr [] = Inr sr"
| "sign_loop ec rctx sr ((oid, s) # rest) =
     (case signer_Sign ec s rctx (bytes_of (show_report sr)) of
        Inl e \<Rightarrow> Inl e
      | Inr sig \<Rightarrow> sign_loop ec rctx (sr\<lparr>dsr_Sigs := (dsr_Sigs sr)(oid \<mapsto> sig)\<rparr>) rest)"

definition NewMockedSignedReport :: "('sk, 'pk) evm_crypto \<Rightarrow> (OracleID \<times> 'sk OcrSigner) list \<Rightarrow> i64 \<Rightarrow> string
    \<Rightarrow> bytes \<Rightarrow> string + MockedSignedReport" where
  "NewMockedSignedReport ec signers seqNumber srcDON data =
     (let sr = \<lparr>dsr_Src = srcDON, dsr_SeqNumber = seqNumber, dsr_Data = data, dsr_Sigs = Map.empty,
                dsr_Ctx = zeroContext\<rparr>;
          rctx = zeroContext
      in case sign_loop ec rctx sr signers of
           Inl e \<Rightarrow> Inl e
         | Inr sr \<Rightarrow> Inr (sr\<lparr>dsr_Ctx := rctx\<rparr>))"

section \<open>Lemmas\<close>

lemma byte_char: "unat (word_of_nat (of_char c) :: byte) = of_char c"
proof -
  have "(of_char c :: nat) < 256" by (rule nat_of_char_less_256)
  then show ?thesis by (simp add: unat_of_nat take_bit_nat_def)
qed

lemma bytes_of_inj: "bytes_of s = bytes_of t \<Longrightarrow> s = t"
proof -
  assume "bytes_of s = bytes_of t"
  then have "map (\<lambda>b. char_of (unat b)) (bytes_of s) = map (\<lambda>b. char_of (unat b)) (bytes_of t)" by simp
  then show "s = t" by (simp add: bytes_of_def comp_def byte_char)
qed

lemma Join_nonempty: "xs \<noteq> [] \<Longrightarrow> (\<forall>x \<in> set xs. x \<noteq> []) \<Longrightarrow> Join xs sep \<noteq> []"
  by (cases xs; cases "tl xs") auto

lemma all_oracles_mem: "o1 \<in> set all_oracles"
proof -
  have "o1 = word_of_nat (unat o1)" by simp
  moreover have "unat o1 < 256" using unsigned_less [of o1] by simp
  ultimately show ?thesis unfolding all_oracles_def by (auto intro!: rev_image_eqI)
qed

lemma show_sigs_empty: "show_sigs m = show_sigs Map.empty \<longleftrightarrow> m = Map.empty"
proof
  assume e: "show_sigs m = show_sigs Map.empty"
  let ?f = "filter (\<lambda>o1. m o1 \<noteq> None) all_oracles"
  have "?f = []"
  proof (rule ccontr)
    assume "?f \<noteq> []"
    then have "Join (map (\<lambda>o1. show_nat (unat o1) @ '':'' @ show_bytes (the (m o1))) ?f) '' '' \<noteq> []"
      by (intro Join_nonempty) auto
    with e show False by (simp add: show_sigs_def)
  qed
  then have "m o1 = None" for o1 using all_oracles_mem [of o1] by (simp add: filter_empty_conv)
  then show "m = Map.empty" by auto
qed simp

lemma show_report_sigs:
  "show_report (sr\<lparr>dsr_Sigs := m\<rparr>) = show_report (sr\<lparr>dsr_Sigs := m'\<rparr>) \<longleftrightarrow> show_sigs m = show_sigs m'"
  by (simp add: show_report_def)

lemma report_text_eq:
  "bytes_of (show_report (sr\<lparr>dsr_Sigs := m\<rparr>)) = bytes_of (show_report (sr\<lparr>dsr_Sigs := Map.empty\<rparr>)) \<longleftrightarrow> m = Map.empty"
  (is "bytes_of ?a = bytes_of ?b \<longleftrightarrow> _")
proof -
  have "bytes_of ?a = bytes_of ?b \<longleftrightarrow> ?a = ?b" using bytes_of_inj [of ?a ?b] by auto
  also have "\<dots> \<longleftrightarrow> m = Map.empty" unfolding show_report_sigs by (rule show_sigs_empty)
  finally show ?thesis .
qed

text \<open>The number in four bytes, most significant first.\<close>

definition be32_value :: "bytes \<Rightarrow> nat" where
  "be32_value bs = foldl (\<lambda>n b. 256 * n + unat b) 0 bs"

lemma be32_roundtrip: "be32_value (be32_bytes w) = unat w"
proof -
  have w: "unat w < 256 ^ 4" using unsigned_less [of w] by simp
  have b: "unat (word_of_nat (n mod 256) :: byte) = n mod 256" for n
    by (simp add: unat_of_nat take_bit_nat_def)
  have "[0..<4] = [0, 1, 2, 3 :: nat]" by (simp add: upt_rec)
  then have "be32_value (be32_bytes w) =
      256 * (256 * (256 * (unat w div 256 ^ 3 mod 256) + unat w div 256 ^ 2 mod 256) + unat w div 256 mod 256) + unat w mod 256"
    by (simp add: be32_value_def be32_bytes_def b)
  also have "unat w div 256 ^ 3 mod 256 = unat w div 256 ^ 3" using w by simp
  also have "256 * (unat w div 256 ^ 3) + unat w div 256 ^ 2 mod 256 = unat w div 256 ^ 2"
    using div_mult_mod_eq [of "unat w div 256 ^ 2" 256] by (simp add: div_mult2_eq [symmetric] mult.commute)
  also have "256 * (unat w div 256 ^ 2) + unat w div 256 mod 256 = unat w div 256"
    using div_mult_mod_eq [of "unat w div 256" 256] by (simp add: div_mult2_eq [symmetric] mult.commute)
  also have "256 * (unat w div 256) + unat w mod 256 = unat w" by simp
  finally show ?thesis .
qed

text \<open>Reading a raw context back.\<close>

definition parse_raw :: "bytes list \<Rightarrow> ReportContext" where
  "parse_raw raw = \<lparr>rctx_ReportTimestamp = \<lparr>rts_ConfigDigest = raw ! 0,
     rts_Epoch = word_of_nat (be32_value (take 4 (drop 27 (raw ! 1)))), rts_Round = raw ! 1 ! 31\<rparr>,
     rctx_ExtraHash = raw ! 2\<rparr>"

lemma be32_bytes_length [simp]: "length (be32_bytes w) = 4"
  by (simp add: be32_bytes_def)

text \<open>What \<open>sign_loop\<close> does to the signatures, and on which text each signer signs.\<close>

lemma sign_loop_inv:
  assumes "sign_loop ec rctx sr ss = Inr r" "distinct (map fst ss)" "dom (dsr_Sigs sr) \<inter> set (map fst ss) = {}"
  shows "r = sr\<lparr>dsr_Sigs := dsr_Sigs r\<rparr> \<and> (\<forall>o1. o1 \<notin> set (map fst ss) \<longrightarrow> dsr_Sigs r o1 = dsr_Sigs sr o1)
    \<and> (\<forall>i < length ss. \<exists>m sig. dom m = dom (dsr_Sigs sr) \<union> set (map fst (take i ss))
        \<and> signer_Sign ec (snd (ss ! i)) rctx (bytes_of (show_report (sr\<lparr>dsr_Sigs := m\<rparr>))) = Inr sig
        \<and> dsr_Sigs r (fst (ss ! i)) = Some sig)"
  using assms
proof (induction ec rctx sr ss rule: sign_loop.induct)
  case (2 ec rctx sr oid s rest)
  from "2.prems"(1) obtain sig where sig: "signer_Sign ec s rctx (bytes_of (show_report sr)) = Inr sig"
    "sign_loop ec rctx (sr\<lparr>dsr_Sigs := (dsr_Sigs sr)(oid \<mapsto> sig)\<rparr>) rest = Inr r"
    by (auto split: sum.splits)
  let ?sr = "sr\<lparr>dsr_Sigs := (dsr_Sigs sr)(oid \<mapsto> sig)\<rparr>"
  have d: "distinct (map fst rest)" "dom (dsr_Sigs ?sr) \<inter> set (map fst rest) = {}"
    using "2.prems"(2,3) by (auto simp: dom_def)
  have IH: "r = ?sr\<lparr>dsr_Sigs := dsr_Sigs r\<rparr>" "\<forall>o1. o1 \<notin> set (map fst rest) \<longrightarrow> dsr_Sigs r o1 = dsr_Sigs ?sr o1"
    "\<forall>i < length rest. \<exists>m sig. dom m = dom (dsr_Sigs ?sr) \<union> set (map fst (take i rest))
        \<and> signer_Sign ec (snd (rest ! i)) rctx (bytes_of (show_report (?sr\<lparr>dsr_Sigs := m\<rparr>))) = Inr sig
        \<and> dsr_Sigs r (fst (rest ! i)) = Some sig"
    using "2.IH" [OF sig d] by blast+
  have "\<exists>m sg. dom m = dom (dsr_Sigs sr) \<union> set (map fst (take i ((oid, s) # rest)))
        \<and> signer_Sign ec (snd (((oid, s) # rest) ! i)) rctx (bytes_of (show_report (sr\<lparr>dsr_Sigs := m\<rparr>))) = Inr sg
        \<and> dsr_Sigs r (fst (((oid, s) # rest) ! i)) = Some sg" if i: "i < length ((oid, s) # rest)" for i
  proof (cases i)
    case 0
    have "dsr_Sigs r oid = Some sig" using IH(2) "2.prems"(2) by simp
    with 0 sig(1) show ?thesis by (intro exI [of _ "dsr_Sigs sr"] exI [of _ sig]) simp
  next
    case (Suc j)
    with i IH(3) obtain m sg where "dom m = dom (dsr_Sigs ?sr) \<union> set (map fst (take j rest))"
      "signer_Sign ec (snd (rest ! j)) rctx (bytes_of (show_report (?sr\<lparr>dsr_Sigs := m\<rparr>))) = Inr sg"
      "dsr_Sigs r (fst (rest ! j)) = Some sg" by auto
    with Suc show ?thesis by (intro exI [of _ m] exI [of _ sg]) simp
  qed
  moreover have "r = sr\<lparr>dsr_Sigs := dsr_Sigs r\<rparr>" using IH(1) by simp
  moreover have "dsr_Sigs r o1 = dsr_Sigs sr o1" if "o1 \<notin> set (map fst ((oid, s) # rest))" for o1
    using IH(2) that by simp
  ultimately show ?case by blast
qed simp

lemma signed_report_sigs:
  assumes "NewMockedSignedReport ec signers n src d = Inr r" "distinct (map fst signers)" "i < length signers"
  shows "\<exists>m sig. dom m = set (map fst (take i signers))
    \<and> signer_Sign ec (snd (signers ! i)) zeroContext (bytes_of (show_report (r\<lparr>dsr_Sigs := m\<rparr>))) = Inr sig
    \<and> dsr_Sigs r (fst (signers ! i)) = Some sig
    \<and> (bytes_of (show_report (r\<lparr>dsr_Sigs := m\<rparr>)) = GetReportData r \<longleftrightarrow> i = 0)
    \<and> dsr_Src r = src \<and> dsr_SeqNumber r = n \<and> dsr_Data r = d \<and> dsr_Ctx r = zeroContext"
proof -
  let ?sr = "\<lparr>dsr_Src = src, dsr_SeqNumber = n, dsr_Data = d, dsr_Sigs = Map.empty, dsr_Ctx = zeroContext\<rparr>"
  obtain r1 where r1: "sign_loop ec zeroContext ?sr signers = Inr r1" "r = r1\<lparr>dsr_Ctx := zeroContext\<rparr>"
    using assms(1) by (auto simp: NewMockedSignedReport_def Let_def split: sum.splits)
  note inv = sign_loop_inv [OF r1(1) assms(2)]
  then have f: "r1 = ?sr\<lparr>dsr_Sigs := dsr_Sigs r1\<rparr>" by simp
  with r1(2) have r: "r = r1" "r\<lparr>dsr_Sigs := m\<rparr> = ?sr\<lparr>dsr_Sigs := m\<rparr>"
    "dsr_Src r = src" "dsr_SeqNumber r = n" "dsr_Data r = d" "dsr_Ctx r = zeroContext" for m
    by (cases r1, simp)+
  from inv assms(3) obtain m sig where m: "dom m = set (map fst (take i signers))"
    "signer_Sign ec (snd (signers ! i)) zeroContext (bytes_of (show_report (?sr\<lparr>dsr_Sigs := m\<rparr>))) = Inr sig"
    "dsr_Sigs r1 (fst (signers ! i)) = Some sig" by auto
  have "GetReportData r = bytes_of (show_report (?sr\<lparr>dsr_Sigs := Map.empty\<rparr>))"
    using r by (simp add: GetReportData_def)
  then have "bytes_of (show_report (?sr\<lparr>dsr_Sigs := m\<rparr>)) = GetReportData r \<longleftrightarrow> m = Map.empty"
    using report_text_eq [where sr = ?sr and m = m] by presburger
  also have "m = Map.empty \<longleftrightarrow> i = 0"
    using m(1) assms(3) by (cases i; cases signers) auto
  finally have e: "bytes_of (show_report (?sr\<lparr>dsr_Sigs := m\<rparr>)) = GetReportData r \<longleftrightarrow> i = 0" .
  have "dsr_Sigs r (fst (signers ! i)) = Some sig" using m(3) unfolding r(1) .
  with m(1,2) e r(3-6) show ?thesis unfolding r(2) by blast
qed

section \<open>Properties\<close>

text \<open>the raw context loses nothing.  It consists of three words of 32 bytes from which the context can be
  read back, epoch and round included: two contexts with the same raw form are the same.\<close>

theorem raw_context_roundtrip:
  assumes "ctx_ok c"
  shows "parse_raw (RawReportContext c) = c \<and> map length (RawReportContext c) = [32, 32, 32]"
  using assms
  by (cases c; cases "rctx_ReportTimestamp c")
    (simp add: parse_raw_def RawReportContext_def ctx_ok_def nth_append be32_roundtrip)

theorem raw_context_roundtrip_witness:
  "parse_raw (RawReportContext (zeroContext\<lparr>rctx_ReportTimestamp := \<lparr>rts_ConfigDigest = zero32,
     rts_Epoch = 258, rts_Round = 3\<rparr>\<rparr>)) = zeroContext\<lparr>rctx_ReportTimestamp := \<lparr>rts_ConfigDigest = zero32,
     rts_Epoch = 258, rts_Round = 3\<rparr>\<rparr>"
  using raw_context_roundtrip [of "zeroContext\<lparr>rctx_ReportTimestamp := \<lparr>rts_ConfigDigest = zero32,
     rts_Epoch = 258, rts_Round = 3\<rparr>\<rparr>"]
  by (simp add: ctx_ok_def zeroContext_def zero32_def)

text \<open>only the first signature covers the report.  Each signer signs the text of the report with the
  signatures collected before; the text that is verified later has no signatures, so it is the text
  that was signed for the first signer and for no other.\<close>

theorem don_later_signatures_cover_more:
  assumes "NewMockedSignedReport ec signers n src d = Inr r" and "distinct (map fst signers)"
    and "i < length signers"
  shows "\<exists>m sig. dom m = set (map fst (take i signers))
    \<and> signer_Sign ec (snd (signers ! i)) zeroContext (bytes_of (show_report (r\<lparr>dsr_Sigs := m\<rparr>))) = Inr sig
    \<and> dsr_Sigs r (fst (signers ! i)) = Some sig
    \<and> (bytes_of (show_report (r\<lparr>dsr_Sigs := m\<rparr>)) = GetReportData r \<longleftrightarrow> i = 0)"
  using signed_report_sigs [OF assms] by blast

text \<open>A curve for examples: the signature of a hash is the hash with the key in front.\<close>

definition toy_crypto :: "(byte, byte) evm_crypto" where
  "toy_crypto = \<lparr>ec_Keccak256 = (\<lambda>b. b), ec_Sign = (\<lambda>h sk. Inr (sk # h)),
     ec_SigToPub = (\<lambda>h sig. case sig of [] \<Rightarrow> Inl ''empty'' | k # h' \<Rightarrow> if h' = h then Inr k else Inl ''bad''),
     ec_PubkeyToAddress = (\<lambda>pk. [pk]), ec_Public = (\<lambda>sk. sk)\<rparr>"

lemma toy_sign_loop: "\<exists>r. sign_loop toy_crypto rctx sr ss = Inr r"
proof (induction ss arbitrary: sr)
  case (Cons x ss)
  then show ?case by (cases x) (simp add: signer_Sign_def keyring_Sign_def toy_crypto_def)
qed simp

lemma toy_report: "\<exists>r. NewMockedSignedReport toy_crypto ss n src d = Inr r"
proof -
  obtain r where "sign_loop toy_crypto zeroContext \<lparr>dsr_Src = src, dsr_SeqNumber = n, dsr_Data = d,
      dsr_Sigs = Map.empty, dsr_Ctx = zeroContext\<rparr> ss = Inr r" using toy_sign_loop by blast
  then show ?thesis by (simp add: NewMockedSignedReport_def)
qed

theorem don_later_signatures_cover_more_witness:
  "\<exists>r m. NewMockedSignedReport toy_crypto [(0, \<lparr>os_k = 7, os_oid = 0\<rparr>), (1, \<lparr>os_k = 8, os_oid = 1\<rparr>)] 1 ''d'' [] = Inr r
    \<and> dom m = {0} \<and> bytes_of (show_report (r\<lparr>dsr_Sigs := m\<rparr>)) \<noteq> GetReportData r"
proof -
  let ?ss = "[(0, \<lparr>os_k = 7, os_oid = 0\<rparr>), (1, \<lparr>os_k = 8, os_oid = 1\<rparr>)] :: (OracleID \<times> byte OcrSigner) list"
  obtain r where r: "NewMockedSignedReport toy_crypto ?ss 1 ''d'' [] = Inr r" using toy_report by blast
  from don_later_signatures_cover_more [OF r, of 1]
  obtain m where "dom m = {0}" "bytes_of (show_report (r\<lparr>dsr_Sigs := m\<rparr>)) \<noteq> GetReportData r" by auto
  with r show ?thesis by blast
qed

end
