(* ===== verification/Don_Report_Buffer.thy ===== *)
theory Don_Report_Buffer
  imports Report_Ring Don_Report
begin

text \<open>
  The report buffer of the DON example and the verifier on top of it (\<open>examples/don/reportbuf.go\<close>,
  \<open>verifier.go\<close>).  Unlike the BLS example, sequence numbers are signed 64-bit integers: the remainder of a
  negative number is negative and indexes outside of the ring.
\<close>

section \<open>State\<close>

record DonBuffer =
  db_reports :: "(string \<Rightarrow> MockedSignedReport list option) option"
  db_bufferSize :: int

definition zeroDonReport :: MockedSignedReport where
  "zeroDonReport = \<lparr>dsr_Src = [], dsr_SeqNumber = 0, dsr_Data = [], dsr_Sigs = Map.empty, dsr_Ctx = zeroContext\<rparr>"

definition don_skipThreshold :: i64 where "don_skipThreshold = 5"

definition don_invalidThreshold :: i64 where "don_invalidThreshold = 25"

section \<open>Operations\<close>

definition NewReportBuffer :: "int \<Rightarrow> DonBuffer" where
  "NewReportBuffer bufferSize = \<lparr>db_reports = None, db_bufferSize = bufferSize\<rparr>"

definition don_map :: "DonBuffer \<Rightarrow> string \<Rightarrow> MockedSignedReport list option" where
  "don_map rb = (case db_reports rb of None \<Rightarrow> (\<lambda>_. None) | Some m \<Rightarrow> m)"

text \<open>\<open>a < b\<close> on \<open>int64\<close>.\<close>

definition seq_less :: "i64 \<Rightarrow> i64 \<Rightarrow> bool" where "seq_less a b \<longleftrightarrow> sint a < sint b"

text \<open>\<open>if len(buf) == 0 { buf = make([]MockedSignedReport, rb.bufferSize) }\<close>\<close>

definition don_alloc :: "int \<Rightarrow> MockedSignedReport list \<Rightarrow> MockedSignedReport list go" where
  "don_alloc n buf = (if length buf = 0 then go_make n zeroDonReport else Ret buf)"

definition Add :: "DonBuffer \<Rightarrow> string \<Rightarrow> MockedSignedReport \<Rightarrow> (DonBuffer \<times> bool) go" where
  "Add rb don sr =
     (let reports = don_map rb;
          rb = rb\<lparr>db_reports := Some reports\<rparr>;
          buf = rings_read reports don in
      go_bind (don_alloc (db_bufferSize rb) buf) (\<lambda>buf.
      go_bind (smod64 (dsr_SeqNumber sr) (word_of_int (db_bufferSize rb))) (\<lambda>i.
      go_bind (slice_get buf (sint i)) (\<lambda>old.
        if seq_less (dsr_SeqNumber old) (dsr_SeqNumber sr)
        then go_bind (slice_set buf (sint i) sr) (\<lambda>buf.
               Ret (rb\<lparr>db_reports := Some (reports(don \<mapsto> buf))\<rparr>, True))
        else Ret (rb, False)))))"

definition Get :: "DonBuffer \<Rightarrow> string \<Rightarrow> i64 \<Rightarrow> MockedSignedReport option go" where
  "Get rb don seq =
     (case db_reports rb of
        None \<Rightarrow> Ret None
      | Some m \<Rightarrow>
          (let buf = rings_read m don in
           if length buf = 0 then Ret None
           else go_bind (smod64 seq (word_of_int (db_bufferSize rb))) (\<lambda>i.
                go_bind (slice_get buf (sint i)) (\<lambda>r.
                  Ret (if dsr_SeqNumber r = seq then Some r else None)))))"

fun don_latest_loop :: "MockedSignedReport list \<Rightarrow> MockedSignedReport \<Rightarrow> MockedSignedReport" where
  "don_latest_loop [] latest = latest"
| "don_latest_loop (r # rs) latest =
     don_latest_loop rs (if seq_less (dsr_SeqNumber latest) (dsr_SeqNumber r) then r else latest)"

text \<open>An empty map and a missing key both end in the empty slice.\<close>

definition GetLatest :: "DonBuffer \<Rightarrow> string \<Rightarrow> MockedSignedReport option" where
  "GetLatest rb don =
     (let buf = rings_read (don_map rb) don in
      if length buf = 0 then None else Some (don_latest_loop buf zeroDonReport))"

definition validateSequence :: "DonBuffer \<Rightarrow> MockedSignedReport \<Rightarrow> ValidationResult go" where
  "validateSequence rb r =
     (let tail = go_bind (Get rb (dsr_Src r) (dsr_SeqNumber r)) (\<lambda>x.
                   Ret (case x of Some _ \<Rightarrow> VR_IGNORE | None \<Rightarrow> VR_ACCEPT)) in
      case GetLatest rb (dsr_Src r) of
        Some latest \<Rightarrow>
          (let diff = dsr_SeqNumber r - dsr_SeqNumber latest in
           if seq_less don_invalidThreshold diff then Ret VR_REJECT
           else if seq_less don_skipThreshold diff then Ret VR_IGNORE
           else tail)
      | None \<Rightarrow> tail)"

section \<open>Verifier\<close>

record reportVerifier =
  rv_reports :: DonBuffer
  rv_dons :: "string \<Rightarrow> (OracleID \<Rightarrow> OnchainPublicKey option) option"

definition NewReportVerifier :: "DonBuffer \<Rightarrow> reportVerifier" where
  "NewReportVerifier reports = \<lparr>rv_reports = reports, rv_dons = (\<lambda>_. None)\<rparr>"

text \<open>
  The loop over the keys of a network, in an order chosen by the run time (\<open>oids\<close>): \<open>None\<close> is the early
  return after a signature that does not verify, otherwise the number of valid signatures.
\<close>

fun verify_loop :: "('sk, 'pk) evm_crypto \<Rightarrow> MockedSignedReport \<Rightarrow> (OracleID \<times> OnchainPublicKey) list \<Rightarrow> nat \<Rightarrow> nat option" where
  "verify_loop ec r [] valid = Some valid"
| "verify_loop ec r ((oid, pk) # rest) valid =
     (case dsr_Sigs r oid of
        None \<Rightarrow> verify_loop ec r rest valid
      | Some sig \<Rightarrow>
          (case signer_Verify ec pk (dsr_Ctx r) (GetReportData r) sig of
             Some e \<Rightarrow> None
           | None \<Rightarrow> verify_loop ec r rest (valid + 1)))"

text \<open>\<open>f := (n - 1) / 3\<close> truncates, and \<open>n\<close> may be zero.\<close>

definition don_threshold :: "nat \<Rightarrow> int" where
  "don_threshold n = int n - (int n - 1) sdiv 3"

text \<open>
  \<open>Process\<close>.  \<open>unmarshal\<close> is \<open>UnmarshalReport\<close>, whose result is not nil without an error; \<open>order\<close>
  enumerates a map.
\<close>

definition Process :: "('sk, 'pk) evm_crypto \<Rightarrow> (bytes \<Rightarrow> string + MockedSignedReport)
    \<Rightarrow> ((OracleID \<Rightarrow> OnchainPublicKey option) \<Rightarrow> (OracleID \<times> OnchainPublicKey) list)
    \<Rightarrow> reportVerifier \<Rightarrow> Message option \<Rightarrow> (bytes \<times> ValidationResult) go" where
  "Process ec unmarshal order rv msg =
     (let raw = Message_GetData msg in
      case unmarshal raw of
        Inl e \<Rightarrow> Ret (raw, VR_REJECT)
      | Inr r \<Rightarrow>
          (case rv_dons rv (dsr_Src r) of
             None \<Rightarrow> Ret (raw, VR_IGNORE)
           | Some pubkeys \<Rightarrow>
               (case verify_loop ec r (order pubkeys) 0 of
                  None \<Rightarrow> Ret (raw, VR_REJECT)
                | Some valid \<Rightarrow>
                    (let n = length (order pubkeys) in
                     if int valid < don_threshold n then Ret (raw, VR_REJECT)
                     else go_bind (validateSequence (rv_reports rv) r) (\<lambda>v. Ret (raw, v))))))"

section \<open>Invariant and refinement\<close>

definition dseq :: "MockedSignedReport \<Rightarrow> int" where "dseq r = sint (dsr_SeqNumber r)"

definition db_size :: "DonBuffer \<Rightarrow> nat" where "db_size rb = nat (db_bufferSize rb)"

definition db_ring :: "DonBuffer \<Rightarrow> string \<Rightarrow> MockedSignedReport list" where
  "db_ring rb = rings_ring zeroDonReport (db_size rb) (don_map rb)"

definition db_inv :: "DonBuffer \<Rightarrow> bool" where
  "db_inv rb \<longleftrightarrow> 0 < db_bufferSize rb \<and> db_bufferSize rb < 2 ^ 63 \<and> rings_inv dseq (db_size rb) (don_map rb)"

interpretation don: seq_ring dseq zeroDonReport
  by unfold_locales (simp add: dseq_def zeroDonReport_def)

lemma sint_of_int64: "- (2 ^ 63) \<le> k \<Longrightarrow> k < 2 ^ 63 \<Longrightarrow> sint (word_of_int k :: i64) = k"
  by (simp add: signed_of_int signed_take_bit_int_eq_self_iff)

lemma sint_i64_bounds: "- (2 ^ 63) \<le> sint (x :: i64)" "sint (x :: i64) < 2 ^ 63"
  using sint_ge [of x] sint_less [of x] by simp_all

lemma seq_eq_iff: "(x :: i64) = y \<longleftrightarrow> sint x = sint y"
  by (auto intro: signed_word_eqI)

text \<open>The index that a sequence number gives.\<close>

lemma don_index:
  assumes "0 < n" "n < 2 ^ 63"
  shows "\<exists>i. smod64 q (word_of_int n) = Ret i \<and> sint i = sint q smod n"
proof -
  have n: "sint (word_of_int n :: i64) = n" using assms by (intro sint_of_int64) auto
  then have "(word_of_int n :: i64) \<noteq> 0" using assms(1) by auto
  moreover have "\<bar>sint q smod n\<bar> < n" using smod_int_range [of n "sint q"] assms(1) by auto
  then have "sint (word_of_int (sint q smod n) :: i64) = sint q smod n"
    using assms(2) by (intro sint_of_int64) auto
  ultimately show ?thesis by (simp add: smod64_def n)
qed

lemma db_size_pos: "db_inv rb \<Longrightarrow> 0 < db_size rb \<and> int (db_size rb) = db_bufferSize rb"
  by (simp add: db_inv_def db_size_def)

lemma db_ring_ok:
  assumes "db_inv rb"
  shows "ring_inv dseq (db_ring rb net)" "length (db_ring rb net) = db_size rb"
  using don.rings_ok [of "db_size rb" "don_map rb" net] assms db_size_pos [OF assms]
  by (auto simp: db_ring_def db_inv_def)

lemma db_alloc:
  assumes "db_inv rb"
  shows "don_alloc (db_bufferSize rb) (rings_read (don_map rb) net) = Ret (db_ring rb net)"
  using assms by (simp add: don_alloc_def db_ring_def rings_ring_def go_make_def db_inv_def db_size_def)

lemma db_index:
  assumes "db_inv rb" "0 \<le> sint q"
  shows "\<exists>i. smod64 q (word_of_int (db_bufferSize rb)) = Ret i \<and>
    sint i = int (nat (sint q mod int (length (db_ring rb net)))) \<and>
    nat (sint q mod int (length (db_ring rb net))) < length (db_ring rb net)"
proof -
  have b: "0 < db_bufferSize rb" "db_bufferSize rb < 2 ^ 63" using assms(1) by (auto simp: db_inv_def)
  have len: "int (length (db_ring rb net)) = db_bufferSize rb"
    using db_ring_ok(2) [OF assms(1)] db_size_pos [OF assms(1)] by simp
  then have "db_ring rb net \<noteq> []" using b by auto
  from ring_slot_less [OF this, of "sint q"] don_index [OF b, of q] len b assms(2) show ?thesis
    by (auto simp: smod_mod_positive)
qed

lemma don_Add_ring:
  assumes inv: "db_inv rb" and pos: "0 \<le> dseq r"
  shows "\<exists>rb'. Add rb net r = Ret (rb', snd (ring_put dseq (db_ring rb net) r)) \<and> db_inv rb'
     \<and> db_size rb' = db_size rb
     \<and> db_ring rb' = (db_ring rb)(net := fst (ring_put dseq (db_ring rb net) r))"
proof -
  let ?ring = "db_ring rb net"
  define k where "k = nat (dseq r mod int (length ?ring))"
  obtain i where i: "smod64 (dsr_SeqNumber r) (word_of_int (db_bufferSize rb)) = Ret i" "sint i = int k"
    "k < length ?ring" using db_index [OF inv, of "dsr_SeqNumber r" net] pos by (auto simp: dseq_def k_def)
  let ?rb = "rb\<lparr>db_reports := Some (don_map rb)\<rparr>"
  have m: "don_map ?rb = don_map rb" "db_size ?rb = db_size rb" by (simp_all add: don_map_def db_size_def)
  then have r0: "db_inv ?rb" "db_ring ?rb = db_ring rb" using inv by (simp_all add: db_inv_def db_ring_def)
  have add: "Add rb net r = (if dseq (?ring ! k) < dseq r
      then Ret (?rb\<lparr>db_reports := Some ((don_map rb)(net \<mapsto> ?ring[k := r]))\<rparr>, True) else Ret (?rb, False))"
    using i db_alloc [OF inv, of net] by (simp add: Add_def Let_def seq_less_def dseq_def [symmetric])
  show ?thesis
  proof (cases "dseq (?ring ! k) < dseq r")
    case False
    then have "ring_put dseq ?ring r = (?ring, False)" by (simp add: ring_put_def flip: k_def)
    with False add r0 m show ?thesis by simp
  next
    case True
    let ?rb' = "?rb\<lparr>db_reports := Some ((don_map rb)(net \<mapsto> ?ring[k := r]))\<rparr>"
    have p: "ring_put dseq ?ring r = (?ring[k := r], True)" using True by (simp add: ring_put_def flip: k_def)
    have rg: "rings_ring zeroDonReport (db_size rb) (don_map rb) net = ?ring" by (simp add: db_ring_def)
    have q: "rings_inv dseq (db_size rb) (don_map rb)" "0 < db_size rb" "db_size ?rb' = db_size rb"
      "don_map ?rb' = (don_map rb)(net \<mapsto> ?ring[k := r])"
      using inv db_size_pos [OF inv] by (auto simp: db_inv_def db_size_def don_map_def)
    note upd = don.rings_put [OF q(1,2) pos, of net, unfolded rg, unfolded p, simplified]
    then have "db_inv ?rb'" "db_ring ?rb' = (db_ring rb)(net := ?ring[k := r])"
      using inv q(3,4) by (simp_all add: db_inv_def db_ring_def)
    with True add p q(3) show ?thesis by simp
  qed
qed

lemma don_Get_ring:
  assumes inv: "db_inv rb" and pos: "0 < sint q"
  shows "Get rb net q = Ret (ring_get dseq (db_ring rb net) (sint q))"
proof -
  define k where "k = nat (sint q mod int (length (db_ring rb net)))"
  obtain i where i: "smod64 q (word_of_int (db_bufferSize rb)) = Ret i" "sint i = int k"
    "k < length (db_ring rb net)" using db_index [OF inv, of q net] pos by (auto simp: k_def)
  show ?thesis
  proof (cases "rings_read (don_map rb) net = []")
    case True
    then have "db_ring rb net ! k = zeroDonReport" using i(3) by (simp add: db_ring_def rings_ring_def)
    then have "ring_get dseq (db_ring rb net) (sint q) = None" using pos by (simp add: ring_get_def don.sq_z flip: k_def)
    with True show ?thesis by (simp add: Get_def don_map_def split: option.splits)
  next
    case False
    then obtain m where "db_reports rb = Some m" "rings_read m net = db_ring rb net" "rings_read m net \<noteq> []"
      by (auto simp: db_ring_def rings_ring_def don_map_def rings_read_def split: option.splits)
    with i show ?thesis by (simp add: Get_def ring_get_def Let_def seq_eq_iff dseq_def flip: k_def)
  qed
qed

lemma don_latest_ring: "don_latest_loop rs l = ring_latest dseq l rs"
  by (induction rs arbitrary: l) (auto simp: seq_less_def dseq_def)

lemma GetLatest_ring:
  assumes "db_inv rb"
  shows "(case GetLatest rb net of None \<Rightarrow> 0 | Some r \<Rightarrow> dseq r) = dseq (ring_latest dseq zeroDonReport (db_ring rb net))"
proof -
  have "ring_latest dseq zeroDonReport (replicate k zeroDonReport) = zeroDonReport" for k by (induction k) auto
  then show ?thesis by (simp add: GetLatest_def db_ring_def rings_ring_def Let_def don_latest_ring don.sq_z)
qed

interpretation don_store: report_store Add Get GetLatest db_inv dsr_SeqNumber sint dseq zeroDonReport
    db_size db_ring
proof unfold_locales
  show "dseq r = sint (dsr_SeqNumber r)" for r by (simp add: dseq_def)
  show "dseq zeroDonReport = 0" by (rule don.sq_z)
  show "0 < db_size b" if "db_inv b" for b using db_size_pos [OF that] by simp
  show "ring_inv dseq (db_ring b n) \<and> length (db_ring b n) = db_size b" if "db_inv b" for b n
    using db_ring_ok [OF that] by simp
  show "\<exists>b'. Add b n r = Ret (b', snd (ring_put dseq (db_ring b n) r)) \<and> db_inv b' \<and> db_size b' = db_size b
      \<and> db_ring b' = (db_ring b)(n := fst (ring_put dseq (db_ring b n) r))" if "db_inv b" "0 \<le> dseq r" for b n r
    using that by (rule don_Add_ring)
  show "Get b n q = Ret (ring_get dseq (db_ring b n) (sint q))" if "db_inv b" "0 < sint q" for b n q
    using that by (rule don_Get_ring)
  show "(case GetLatest b n of None \<Rightarrow> 0 | Some r \<Rightarrow> dseq r)
      = dseq (ring_latest dseq zeroDonReport (db_ring b n))" if "db_inv b" for b n
    using that by (rule GetLatest_ring)
qed

lemma db_new:
  assumes "0 < n" "n < 2 ^ 63"
  shows "db_inv (NewReportBuffer n)" "db_size (NewReportBuffer n) = nat n"
    "db_ring (NewReportBuffer n) net = replicate (db_size (NewReportBuffer n)) zeroDonReport"
  using assms by (auto simp: db_inv_def NewReportBuffer_def db_size_def db_ring_def rings_ring_def rings_read_def
      rings_inv_def don_map_def)

lemma db_runs:
  assumes "0 < n" "n < 2 ^ 63" "\<forall>(m, x) \<in> set xs. 0 \<le> dseq x"
  shows "\<exists>rb. store_adds Add (NewReportBuffer n) xs = Ret rb"
  using don_store.adds_ring [OF db_new(1) [OF assms(1,2)] assms(3)] by blast

text \<open>A signed difference that does not overflow.\<close>

lemma sint_diff:
  assumes "- (2 ^ 63) \<le> sint a - sint b" "sint a - sint b < 2 ^ 63"
  shows "sint ((a :: i64) - b) = sint a - sint b"
  using assms by (simp add: sint_word_diff signed_take_bit_int_eq_self_iff)

lemma GetLatest_None_Get: "GetLatest rb net = None \<Longrightarrow> Get rb net q = Ret None"
  by (auto simp: GetLatest_def Get_def Let_def don_map_def split: option.splits if_splits)

lemma GetLatest_pos:
  assumes "db_inv rb" "GetLatest rb net = Some r"
  shows "0 < dseq r"
proof -
  have ne: "rings_read (don_map rb) net \<noteq> []" "r = ring_latest dseq zeroDonReport (rings_read (don_map rb) net)"
    using assms(2) by (auto simp: GetLatest_def Let_def don_latest_ring split: if_splits)
  then obtain b where b: "don_map rb net = Some b" "rings_read (don_map rb) net = b"
    by (auto simp: rings_read_def split: option.splits)
  with assms(1) obtain x where x: "x \<in> set b" "dseq x \<noteq> 0" "ring_inv dseq b" unfolding db_inv_def rings_inv_def by metis
  then have "0 \<le> dseq x" by (auto simp: ring_inv_def in_set_conv_nth)
  with x ring_latest_ge [of dseq zeroDonReport b] ne(2) b(2) show ?thesis by fastforce
qed

lemma negative_index:
  assumes "0 < n" "n < 2 ^ 63" "sint q < 0"
  shows "\<exists>i. smod64 q (word_of_int n) = Ret i \<and> sint i \<le> 0 \<and> (sint i = 0 \<longleftrightarrow> n dvd sint q)"
proof -
  obtain i where i: "smod64 q (word_of_int n) = Ret i" "sint i = sint q smod n" using don_index [OF assms(1,2)] by blast
  have "sint q smod n = - ((- sint q) mod n)" using assms by (simp add: signed_modulo_int_def)
  moreover have "0 \<le> (- sint q) mod n" using assms(1) by simp
  moreover have "(- sint q) mod n = 0 \<longleftrightarrow> n dvd sint q" by (simp add: dvd_eq_mod_eq_0 [symmetric])
  ultimately show ?thesis using i by auto
qed

section \<open>Properties\<close>

text \<open>C14: the verdict on a report of the DON example.  After any history of reports with non-negative numbers,
  the verdict on a positive number depends on the newest number offered for its network and on the
  ring: more than 25 ahead is rejected, six to 25 ahead ignored, and every other number, however old,
  is ignored if the ring still holds a report with it and accepted if not.  A report displaced from
  its slot by a newer one is therefore accepted again.\<close>

theorem don_sequence_verdict:
  assumes "0 < n" and "n < 2 ^ 63" and "list_all (\<lambda>(m, x). 0 \<le> dseq x) xs"
    and "store_adds Add (NewReportBuffer n) xs = Ret rb" and "0 < dseq r"
  shows "validateSequence rb r = Ret (let hist = map snd (filter (\<lambda>(m, x). m = dsr_Src r) xs);
       L = Max (insert 0 (dseq ` set hist)); s = dseq r in
     if 0 < L \<and> L + 25 < s then VR_REJECT
     else if 0 < L \<and> L + 5 < s then VR_IGNORE
     else if s \<in> dseq ` set hist \<and> (\<forall>x \<in> set hist. dseq x mod n = s mod n \<longrightarrow> dseq x \<le> s) then VR_IGNORE
     else VR_ACCEPT)"
proof -
  let ?hist = "map snd (filter (\<lambda>(m, x). m = dsr_Src r) xs)"
  define L where "L = Max (insert 0 (dseq ` set ?hist))"
  have xs: "\<forall>(m, x) \<in> set xs. 0 \<le> dseq x" using assms(3) by (auto simp: list_all_iff)
  note new = db_new [OF assms(1,2)]
  note H = don_store.adds_history [OF new(1,3) xs assms(4), unfolded don_store.offers_def]
  have inv: "db_inv rb" by (rule H(1))
  have q: "0 < sint (dsr_SeqNumber r)" using assms(5) by (simp add: dseq_def)
  define P where "P \<longleftrightarrow> dseq r \<in> dseq ` set ?hist \<and> (\<forall>x \<in> set ?hist. dseq x mod n = dseq r mod n \<longrightarrow> dseq x \<le> dseq r)"
  have get: "(case x of Some _ \<Rightarrow> VR_IGNORE | None \<Rightarrow> VR_ACCEPT) = (if P then VR_IGNORE else VR_ACCEPT)"
    if "Get rb (dsr_Src r) (dsr_SeqNumber r) = Ret x" for x
  proof -
    have "(\<exists>y. x = Some y) \<longleftrightarrow> (\<exists>y. find (\<lambda>x. dseq x = dseq r) ?hist = Some y) \<and>
        (\<forall>x \<in> set ?hist. dseq x mod n = dseq r mod n \<longrightarrow> dseq x \<le> dseq r)"
      using H(4) [OF q, of "dsr_Src r"] that new(2) assms(1) by (simp add: dseq_def)
    moreover have "(\<exists>y. find (\<lambda>x. dseq x = dseq r) ?hist = Some y) \<longleftrightarrow> dseq r \<in> dseq ` set ?hist"
      by (rule find_key)
    ultimately show ?thesis by (cases x) (auto simp: P_def)
  qed
  obtain x where x: "Get rb (dsr_Src r) (dsr_SeqNumber r) = Ret x" using H(5) [OF q] by blast
  have lat: "(case GetLatest rb (dsr_Src r) of None \<Rightarrow> 0 | Some l \<Rightarrow> dseq l) = L" using H(3) by (simp add: L_def)
  have "validateSequence rb r = Ret (if 0 < L \<and> L + 25 < dseq r then VR_REJECT
      else if 0 < L \<and> L + 5 < dseq r then VR_IGNORE else if P then VR_IGNORE else VR_ACCEPT)"
  proof (cases "GetLatest rb (dsr_Src r)")
    case None
    with lat get [OF x] x show ?thesis by (simp add: validateSequence_def)
  next
    case (Some l)
    with lat GetLatest_pos [OF inv Some] have l: "dseq l = L" "0 < L" by simp_all
    have d: "sint (dsr_SeqNumber r - dsr_SeqNumber l) = dseq r - L"
      using l sint_i64_bounds [of "dsr_SeqNumber r"] sint_i64_bounds [of "dsr_SeqNumber l"] q
      by (subst sint_diff) (simp_all add: dseq_def)
    show ?thesis using Some l get [OF x] x
      by (auto simp: validateSequence_def Let_def seq_less_def d don_skipThreshold_def don_invalidThreshold_def)
  qed
  then show ?thesis unfolding L_def P_def Let_def .
qed

theorem don_sequence_verdict_witness:
  "\<exists>rb. store_adds Add (NewReportBuffer 4) [(''a'', zeroDonReport\<lparr>dsr_SeqNumber := 1\<rparr>),
       (''a'', zeroDonReport\<lparr>dsr_SeqNumber := 5\<rparr>)] = Ret rb
    \<and> validateSequence rb (zeroDonReport\<lparr>dsr_Src := ''a'', dsr_SeqNumber := 1\<rparr>) = Ret VR_ACCEPT"
proof -
  let ?xs = "[(''a'', zeroDonReport\<lparr>dsr_SeqNumber := 1\<rparr>), (''a'', zeroDonReport\<lparr>dsr_SeqNumber := 5\<rparr>)]"
  have p: "\<forall>(m, x) \<in> set ?xs. 0 \<le> dseq x" by (simp add: dseq_def)
  obtain rb where rb: "store_adds Add (NewReportBuffer 4) ?xs = Ret rb"
    using db_runs [OF _ _ p, of 4] by (auto simp del: store_adds.simps)
  with don_sequence_verdict [OF _ _ _ rb, of "zeroDonReport\<lparr>dsr_Src := ''a'', dsr_SeqNumber := 1\<rparr>"] show ?thesis
    by (auto simp: dseq_def simp del: store_adds.simps)
qed

text \<open>a negative sequence number stops the process.  \<open>Add\<close> of a report with a negative number panics with an
  index out of range unless the number is a multiple of the buffer's size, when it is refused; and
  once the buffer holds a report of the network, the verdict on such a number panics as well, as long as
  its distance to the newest number does not overflow.\<close>

theorem don_negative_sequence_panics:
  assumes "db_inv rb" and "dseq r < 0" and "\<not> db_bufferSize rb dvd dseq r"
  shows "Add rb net r = Panic IndexOutOfRange \<and>
    (\<forall>l. GetLatest rb (dsr_Src r) = Some l \<longrightarrow> - (2 ^ 63) \<le> dseq r - dseq l \<longrightarrow>
       validateSequence rb r = Panic IndexOutOfRange)"
proof -
  have n: "0 < db_bufferSize rb" "db_bufferSize rb < 2 ^ 63" using assms(1) by (simp_all add: db_inv_def)
  from negative_index [OF n, of "dsr_SeqNumber r"] assms(2,3) obtain i where
    i: "smod64 (dsr_SeqNumber r) (word_of_int (db_bufferSize rb)) = Ret i" "sint i < 0"
    by (auto simp: dseq_def)
  have a: "Add rb net r = Panic IndexOutOfRange"
    using i db_alloc [OF assms(1), of net] by (simp add: Add_def Let_def)
  have v: "validateSequence rb r = Panic IndexOutOfRange"
    if l: "GetLatest rb (dsr_Src r) = Some l" "- (2 ^ 63) \<le> dseq r - dseq l" for l
  proof -
    have "0 < dseq l" by (rule GetLatest_pos [OF assms(1) l(1)])
    then have d: "sint (dsr_SeqNumber r - dsr_SeqNumber l) = dseq r - dseq l"
      using l(2) assms(2) by (subst sint_diff) (simp_all add: dseq_def)
    from l(1) obtain m where "db_reports rb = Some m" "rings_read m (dsr_Src r) \<noteq> []"
      by (auto simp: GetLatest_def Let_def don_map_def rings_read_def split: if_splits option.splits)
    with i have g: "Get rb (dsr_Src r) (dsr_SeqNumber r) = Panic IndexOutOfRange" by (simp add: Get_def)
    have "dseq r - dseq l < 0" using \<open>0 < dseq l\<close> assms(2) by simp
    then have "\<not> seq_less don_invalidThreshold (dsr_SeqNumber r - dsr_SeqNumber l)"
      "\<not> seq_less don_skipThreshold (dsr_SeqNumber r - dsr_SeqNumber l)"
      by (auto simp: seq_less_def d don_skipThreshold_def don_invalidThreshold_def)
    with l(1) g show ?thesis by (simp add: validateSequence_def Let_def)
  qed
  from a v show ?thesis by blast
qed

theorem don_negative_sequence_panics_witness:
  "Add (NewReportBuffer 4) ''a'' (zeroDonReport\<lparr>dsr_SeqNumber := - 1\<rparr>) = Panic IndexOutOfRange"
  using don_negative_sequence_panics [of "NewReportBuffer 4" "zeroDonReport\<lparr>dsr_SeqNumber := - 1\<rparr>" "''a''"]
    db_new(1) [of 4]
  by (simp add: dseq_def NewReportBuffer_def)

end
