(* ===== verification/Don_Node.thy ===== *)
theory Don_Node
  imports Don_Report_Buffer Grpc_Clients Thread_Control
begin

text \<open>
  The nodes of the DON example and the mocked network that drives them (\<open>examples/don/node.go\<close>,
  \<open>transmitter.go\<close>, \<open>localdon.go\<close>).  Nodes are shared between networks, so they live in a store and a
  network holds their indices.  The gRPC calls, the JSON codec and the generation of keys are
  parameters.
\<close>

section \<open>Transmitter\<close>

definition donTopic :: "string \<Rightarrow> string" where "donTopic donID = ''don.'' @ donID"

text \<open>The manipulator changes the report of the caller, which is the third result.\<close>

definition Transmit :: "err \<Rightarrow> (MockedSignedReport \<Rightarrow> MockedSignedReport) \<Rightarrow> (MockedSignedReport \<Rightarrow> string + bytes)
    \<Rightarrow> ('e \<Rightarrow> PublishRequest \<Rightarrow> 'e \<times> err) \<Rightarrow> 'e \<Rightarrow> MockedSignedReport \<Rightarrow> string \<Rightarrow> 'e \<times> MockedSignedReport \<times> err" where
  "Transmit connect manipulate marshal publish e report donID =
     (case connect of
        Some m \<Rightarrow> (e, report, Some m)
      | None \<Rightarrow>
          (let report = manipulate report in
           case marshal report of
             Inl m \<Rightarrow> (e, report, Some m)
           | Inr data \<Rightarrow>
               (let (e, er) = publish e \<lparr>pr_Topic = donTopic donID, pr_Data = data\<rparr> in (e, report, er))))"

section \<open>Nodes\<close>

record 'sk nodeOpts =
  no_reportManipulator :: "MockedSignedReport \<Rightarrow> MockedSignedReport"
  no_bufferSize :: int
  no_signer :: "'sk OcrSigner option"

definition defaultNodeOpts :: "'sk nodeOpts" where
  "defaultNodeOpts = \<lparr>no_reportManipulator = (\<lambda>r. r), no_bufferSize = 1024, no_signer = None\<rparr>"

definition WithReportManipulator :: "(MockedSignedReport \<Rightarrow> MockedSignedReport) \<Rightarrow> 'sk nodeOpts \<Rightarrow> 'sk nodeOpts" where
  "WithReportManipulator f opts = opts\<lparr>no_reportManipulator := f\<rparr>"

definition WithBufferSize :: "int \<Rightarrow> 'sk nodeOpts \<Rightarrow> 'sk nodeOpts" where
  "WithBufferSize n opts = opts\<lparr>no_bufferSize := n\<rparr>"

definition WithSigner :: "'sk OcrSigner \<Rightarrow> 'sk nodeOpts \<Rightarrow> 'sk nodeOpts" where
  "WithSigner s opts = opts\<lparr>no_signer := Some s\<rparr>"

text \<open>The consumer and the verifier share one buffer: the one of \<open>dn_reportVerifier\<close>.\<close>

record 'sk DonNode =
  dn_once :: StartStopOnce
  dn_threadC :: threadControl
  dn_manipulate :: "MockedSignedReport \<Rightarrow> MockedSignedReport"
  dn_reportVerifier :: reportVerifier
  dn_Signers :: "string \<Rightarrow> 'sk OcrSigner option"

definition NewNode :: "('sk nodeOpts \<Rightarrow> 'sk nodeOpts) list \<Rightarrow> 'sk DonNode" where
  "NewNode opts =
     (let nodeOpts = foldl (\<lambda>o1 f. f o1) defaultNodeOpts opts;
          reports = NewReportBuffer (no_bufferSize nodeOpts)
      in \<lparr>dn_once = \<lparr>so_start = False, so_stop = False\<rparr>, dn_threadC = NewThreadControl,
          dn_manipulate = no_reportManipulator nodeOpts, dn_reportVerifier = NewReportVerifier reports,
          dn_Signers = (\<lambda>_. None)\<rparr>)"

text \<open>The handler that the consumer calls.\<close>

definition node_consume :: "(bytes \<Rightarrow> string + MockedSignedReport) \<Rightarrow> 'sk DonNode \<Rightarrow> Message option
    \<Rightarrow> ('sk DonNode \<times> err) go" where
  "node_consume unmarshal n msg =
     (case unmarshal (Message_GetData msg) of
        Inl e \<Rightarrow> Ret (n, Some e)
      | Inr r \<Rightarrow>
          (let rv = dn_reportVerifier n in
           go_bind (Add (rv_reports rv) (dsr_Src r) r) (\<lambda>(rb, added).
             Ret (n\<lparr>dn_reportVerifier := rv\<lparr>rv_reports := rb\<rparr>\<rparr>, None))))"

text \<open>The validator that the verifier client calls.\<close>

definition node_validate :: "('sk, 'pk) evm_crypto \<Rightarrow> (bytes \<Rightarrow> string + MockedSignedReport)
    \<Rightarrow> ((OracleID \<Rightarrow> OnchainPublicKey option) \<Rightarrow> (OracleID \<times> OnchainPublicKey) list)
    \<Rightarrow> 'sk DonNode \<Rightarrow> Message option \<Rightarrow> ValidationResult go" where
  "node_validate ec unmarshal order n msg =
     go_bind (Process ec unmarshal order (dn_reportVerifier n) msg) (\<lambda>(raw, res). Ret res)"

text \<open>\<open>Start\<close> starts the goroutines of the two clients, once.\<close>

definition node_Start :: "'sk DonNode \<Rightarrow> 'sk DonNode" where
  "node_Start n =
     (let (o1, tc) = StartOnce (dn_once n) (\<lambda>tc. Go (Go tc)) (dn_threadC n)
      in n\<lparr>dn_once := o1, dn_threadC := tc\<rparr>)"

definition node_Stop :: "'sk DonNode \<Rightarrow> 'sk DonNode go" where
  "node_Stop n =
     (let (o1, r) = StopOnce (dn_once n) (\<lambda>r. go_bind r Close) (Ret (dn_threadC n))
      in go_bind r (\<lambda>tc. Ret (n\<lparr>dn_once := o1, dn_threadC := tc\<rparr>)))"

section \<open>The mocked network\<close>

type_synonym 'sk world = "nat \<Rightarrow> 'sk DonNode"

record mockedDon =
  md_id :: string
  md_nodes :: "nat list"
  md_reports :: "MockedSignedReport list"

text \<open>\<open>keygen i\<close> is the key that \<open>NewSigner\<close> draws; \<open>OracleID(i)\<close> keeps the low eight bits.\<close>

fun assign_signers :: "(nat \<Rightarrow> 'sk) \<Rightarrow> string \<Rightarrow> nat \<Rightarrow> nat list \<Rightarrow> 'sk world \<Rightarrow> 'sk world" where
  "assign_signers keygen did i [] w = w"
| "assign_signers keygen did i (n # ns) w =
     assign_signers keygen did (Suc i) ns
       (w(n := (w n)\<lparr>dn_Signers := (dn_Signers (w n))(did \<mapsto> \<lparr>os_k = keygen i, os_oid = word_of_nat i\<rparr>)\<rparr>))"

definition newMockedDon :: "(nat \<Rightarrow> 'sk) \<Rightarrow> string \<Rightarrow> nat list \<Rightarrow> 'sk world \<Rightarrow> mockedDon \<times> 'sk world" where
  "newMockedDon keygen did nodes w =
     (\<lparr>md_id = did, md_nodes = nodes, md_reports = []\<rparr>, assign_signers keygen did 0 nodes w)"

text \<open>A missing entry is a nil interface, whose method panics.\<close>

fun signers_loop :: "string \<Rightarrow> 'sk world \<Rightarrow> nat list \<Rightarrow> (OracleID \<Rightarrow> 'sk OcrSigner option)
    \<Rightarrow> (OracleID \<Rightarrow> 'sk OcrSigner option) go" where
  "signers_loop did w [] signers = Ret signers"
| "signers_loop did w (n # ns) signers =
     (case dn_Signers (w n) did of
        None \<Rightarrow> Panic NilDeref
      | Some s \<Rightarrow> signers_loop did w ns (signers(signer_OracleID s \<mapsto> s)))"

definition Signers :: "mockedDon \<Rightarrow> 'sk world \<Rightarrow> (OracleID \<Rightarrow> 'sk OcrSigner option) go" where
  "Signers d w = signers_loop (md_id d) w (md_nodes d) Map.empty"

definition reportsCount :: "mockedDon \<Rightarrow> nat" where "reportsCount d = length (md_reports d)"

definition last_seq :: "mockedDon \<Rightarrow> i64" where
  "last_seq d = (if length (md_reports d) > 0
     then (let lastReport = md_reports d ! (length (md_reports d) - 1) in dsr_SeqNumber lastReport) else 0)"

text \<open>\<open>order\<close> enumerates the map of signers; an error of a signer panics.\<close>

definition nextReport :: "('sk, 'pk) evm_crypto \<Rightarrow> ((OracleID \<Rightarrow> 'sk OcrSigner option) \<Rightarrow> (OracleID \<times> 'sk OcrSigner) list)
    \<Rightarrow> 'sk world \<Rightarrow> mockedDon \<Rightarrow> (mockedDon \<times> MockedSignedReport) go" where
  "nextReport ec order w d =
     (let lastSeq = last_seq d in
      go_bind (Signers d w) (\<lambda>signers.
        case NewMockedSignedReport ec (order signers) (lastSeq + 1) (md_id d)
               (bytes_of (''dummy report #'' @ show_int (sint (lastSeq + 1)))) of
          Inl e \<Rightarrow> Panic (Explicit e)
        | Inr r \<Rightarrow> Ret (d\<lparr>md_reports := md_reports d @ [r]\<rparr>, r)))"

fun next_reports :: "('sk, 'pk) evm_crypto \<Rightarrow> ((OracleID \<Rightarrow> 'sk OcrSigner option) \<Rightarrow> (OracleID \<times> 'sk OcrSigner) list)
    \<Rightarrow> 'sk world \<Rightarrow> nat \<Rightarrow> mockedDon \<Rightarrow> mockedDon go" where
  "next_reports ec order w 0 d = Ret d"
| "next_reports ec order w (Suc k) d = go_bind (nextReport ec order w d) (\<lambda>(d, r). next_reports ec order w k d)"

text \<open>
  \<open>broadcast\<close>: every node of the network transmits the same report; here one node after the other.  An
  error is printed or swallowed.
\<close>

fun broadcast :: "err \<Rightarrow> (MockedSignedReport \<Rightarrow> string + bytes) \<Rightarrow> ('e \<Rightarrow> PublishRequest \<Rightarrow> 'e \<times> err)
    \<Rightarrow> 'sk world \<Rightarrow> string \<Rightarrow> nat list \<Rightarrow> 'e \<Rightarrow> MockedSignedReport \<Rightarrow> 'e \<times> MockedSignedReport" where
  "broadcast connect marshal publish w did [] e r = (e, r)"
| "broadcast connect marshal publish w did (n # ns) e r =
     (let (e, r, er) = Transmit connect (dn_manipulate (w n)) marshal publish e r did
      in broadcast connect marshal publish w did ns e r)"

text \<open>
  The start of \<open>run\<close>: every node is started and its consumer subscribes.  An error panics unless the topic is
  being joined already.
\<close>

fun run_start :: "err \<Rightarrow> ('e \<Rightarrow> string \<Rightarrow> 'e \<times> err) \<Rightarrow> string list \<Rightarrow> nat list \<Rightarrow> 'sk world \<Rightarrow> 'e \<Rightarrow> ('sk world \<times> 'e) go" where
  "run_start connect subscribe dons [] w e = Ret (w, e)"
| "run_start connect subscribe dons (n # ns) w e =
     (let w = w(n := node_Start (w n)) in
      case consumer_Subscribe connect subscribe e dons of
        (e, None) \<Rightarrow> run_start connect subscribe dons ns w e
      | (e, Some m) \<Rightarrow>
          if Contains m ''already tring to join'' then run_start connect subscribe dons ns w e
          else Panic (Explicit m))"

text \<open>The loop of \<open>run\<close> over \<open>k\<close> ticks: the next report, then its broadcast; \<open>stop\<close> ends it between two ticks.\<close>

fun run_ticks :: "('sk, 'pk) evm_crypto \<Rightarrow> ((OracleID \<Rightarrow> 'sk OcrSigner option) \<Rightarrow> (OracleID \<times> 'sk OcrSigner) list)
    \<Rightarrow> err \<Rightarrow> (MockedSignedReport \<Rightarrow> string + bytes) \<Rightarrow> ('e \<Rightarrow> PublishRequest \<Rightarrow> 'e \<times> err)
    \<Rightarrow> 'sk world \<Rightarrow> nat \<Rightarrow> mockedDon \<Rightarrow> 'e \<Rightarrow> (mockedDon \<times> 'e) go" where
  "run_ticks ec order connect marshal publish w 0 d e = Ret (d, e)"
| "run_ticks ec order connect marshal publish w (Suc k) d e =
     go_bind (nextReport ec order w d) (\<lambda>(d, r).
       let (e, r) = broadcast connect marshal publish w (md_id d) (md_nodes d) e r
       in run_ticks ec order connect marshal publish w k d e)"

section \<open>Lemmas\<close>

lemma verify_loop_fails:
  assumes "(oid, pk) \<in> set ks" "dsr_Sigs r oid = Some sig" "signer_Verify ec pk (dsr_Ctx r) (GetReportData r) sig \<noteq> None"
  shows "verify_loop ec r ks v = None"
  using assms by (induction ks arbitrary: v) (auto split: option.splits)

lemma sign_loop_fields:
  "sign_loop ec rctx sr ss = Inr r \<Longrightarrow> dsr_Src r = dsr_Src sr \<and> dsr_SeqNumber r = dsr_SeqNumber sr"
  by (induction ec rctx sr ss rule: sign_loop.induct) (auto split: sum.splits)

lemma signed_fields:
  "NewMockedSignedReport ec ss n src d = Inr r \<Longrightarrow> dsr_Src r = src \<and> dsr_SeqNumber r = n"
  by (auto simp: NewMockedSignedReport_def Let_def split: sum.splits dest: sign_loop_fields)

text \<open>The reports of a network carry the numbers 1, 2, 3 and so on.\<close>

definition numbered :: "string \<Rightarrow> MockedSignedReport list \<Rightarrow> bool" where
  "numbered did rs \<longleftrightarrow> map dsr_SeqNumber rs = map (\<lambda>i. word_of_nat (Suc i)) [0..<length rs] \<and> list_all (\<lambda>r. dsr_Src r = did) rs"

lemma nextReport_RetE:
  assumes "nextReport ec order w d = Ret (d', r)"
  obtains sg b where "NewMockedSignedReport ec sg (last_seq d + 1) (md_id d) b = Inr r"
    "d' = d\<lparr>md_reports := md_reports d @ [r]\<rparr>"
proof -
  from assms obtain m where "(case NewMockedSignedReport ec (order m) (last_seq d + 1) (md_id d)
      (bytes_of (''dummy report #'' @ show_int (sint (last_seq d + 1)))) of
        Inl e \<Rightarrow> Panic (Explicit e) | Inr r \<Rightarrow> Ret (d\<lparr>md_reports := md_reports d @ [r]\<rparr>, r)) = Ret (d', r)"
    unfolding nextReport_def Let_def go_bind_eq_Ret_iff by blast
  then show thesis
    by (cases "NewMockedSignedReport ec (order m) (last_seq d + 1) (md_id d)
      (bytes_of (''dummy report #'' @ show_int (sint (last_seq d + 1))))") (auto intro: that)
qed

lemma last_seq_numbered:
  assumes "numbered did (md_reports d)"
  shows "last_seq d = word_of_nat (length (md_reports d))"
proof (cases "md_reports d = []")
  case False
  then have "last_seq d = map dsr_SeqNumber (md_reports d) ! (length (md_reports d) - 1)"
    by (simp add: last_seq_def)
  also have "\<dots> = map (\<lambda>i. word_of_nat (Suc i)) [0..<length (md_reports d)] ! (length (md_reports d) - 1)"
    using assms unfolding numbered_def by simp
  also have "\<dots> = word_of_nat (length (md_reports d))" using False by (cases "md_reports d" rule: rev_cases) (auto simp: nth_append)
  finally show ?thesis .
qed (simp add: last_seq_def)

lemma nextReport_numbered:
  assumes "nextReport ec order w d = Ret (d', r)" "numbered (md_id d) (md_reports d)"
  shows "numbered (md_id d) (md_reports d') \<and> length (md_reports d') = Suc (length (md_reports d)) \<and> md_id d' = md_id d"
proof -
  from assms(1) obtain sg b where sg: "NewMockedSignedReport ec sg (last_seq d + 1) (md_id d) b = Inr r"
    "d' = d\<lparr>md_reports := md_reports d @ [r]\<rparr>" by (rule nextReport_RetE)
  with signed_fields [OF sg(1)] last_seq_numbered [OF assms(2)] assms(2) show ?thesis
    by (simp add: numbered_def add.commute)
qed

lemma next_reports_numbered:
  assumes "next_reports ec order w k d = Ret d'" "numbered (md_id d) (md_reports d)"
  shows "numbered (md_id d) (md_reports d') \<and> length (md_reports d') = length (md_reports d) + k"
  using assms
proof (induction k arbitrary: d)
  case (Suc k)
  obtain d1 r where n: "nextReport ec order w d = Ret (d1, r)" "next_reports ec order w k d1 = Ret d'"
    using Suc.prems(1) by (auto simp: go_bind_eq_Ret_iff)
  from nextReport_numbered [OF n(1) Suc.prems(2)]
  have d1: "numbered (md_id d) (md_reports d1)" "length (md_reports d1) = Suc (length (md_reports d))" "md_id d1 = md_id d"
    by simp_all
  from Suc.IH [OF n(2)] d1 show ?case by simp
qed simp

text \<open>Calls recorded: the topics subscribed and the requests published, with any results.\<close>

definition rec_sub :: "(string \<Rightarrow> err) \<Rightarrow> string list \<times> PublishRequest list \<Rightarrow> string \<Rightarrow> (string list \<times> PublishRequest list) \<times> err" where
  "rec_sub res e t = ((fst e @ [t], snd e), res t)"

definition rec_pub :: "(PublishRequest \<Rightarrow> err) \<Rightarrow> string list \<times> PublishRequest list \<Rightarrow> PublishRequest
    \<Rightarrow> (string list \<times> PublishRequest list) \<times> err" where
  "rec_pub res e p = ((fst e, snd e @ [p]), res p)"

lemma subscribe_recorded:
  "subscribe_loop (rec_sub res) e ts = (e', er) \<Longrightarrow> snd e' = snd e \<and> set (fst e') \<subseteq> set (fst e) \<union> set ts"
  by (induction "rec_sub res" e ts rule: subscribe_loop.induct) (auto simp: rec_sub_def split: prod.splits option.splits)

lemma run_start_recorded:
  assumes "run_start cn (rec_sub res) dons ns w e = Ret (w', e')"
  shows "snd e' = snd e \<and> set (fst e') \<subseteq> set (fst e) \<union> set dons"
  using assms
proof (induction ns arbitrary: w e)
  case (Cons n ns)
  obtain e1 er where s: "consumer_Subscribe cn (rec_sub res) e dons = (e1, er)" by fastforce
  then have "snd e1 = snd e \<and> set (fst e1) \<subseteq> set (fst e) \<union> set dons"
    using subscribe_recorded by (auto simp: consumer_Subscribe_def split: option.splits)
  moreover have "snd e' = snd e1 \<and> set (fst e') \<subseteq> set (fst e1) \<union> set dons"
    using Cons.prems Cons.IH [of _ e1] s by (auto simp: Let_def split: option.splits if_splits)
  ultimately show ?case by auto
qed simp

lemma broadcast_recorded:
  "broadcast cn marshal (rec_pub res) w did ns e r = (e', r') \<Longrightarrow>
     fst e' = fst e \<and> (\<exists>ps. snd e' = snd e @ ps \<and> list_all (\<lambda>p. pr_Topic p = donTopic did) ps)"
proof (induction ns arbitrary: e r)
  case (Cons n ns)
  obtain e1 r1 er where t: "Transmit cn (dn_manipulate (w n)) marshal (rec_pub res) e r did = (e1, r1, er)"
    by (metis prod_cases3)
  then have "fst e1 = fst e" "\<exists>ps. snd e1 = snd e @ ps \<and> list_all (\<lambda>p. pr_Topic p = donTopic did) ps"
    by (auto simp: Transmit_def rec_pub_def Let_def split: option.splits sum.splits)
  with Cons.IH [of e1 r1] Cons.prems t show ?case by auto
qed simp

text \<open>The broadcasts do not change the reports of the network, and every request of a run is on its topic.\<close>

lemma run_ticks_reports:
  "run_ticks ec order cn marshal publish w k d e = Ret (d', e') \<Longrightarrow> next_reports ec order w k d = Ret d'"
  by (induction k arbitrary: d e) (fastforce simp: go_bind_eq_Ret_iff case_prod_beta)+

lemma run_ticks_topics:
  "run_ticks ec order cn marshal (rec_pub res) w k d e = Ret (d', e') \<Longrightarrow>
     fst e' = fst e \<and> (\<exists>ps. snd e' = snd e @ ps \<and> list_all (\<lambda>p. pr_Topic p = donTopic (md_id d)) ps)"
proof (induction k arbitrary: d e)
  case (Suc k)
  obtain d1 r where n: "nextReport ec order w d = Ret (d1, r)" using Suc.prems by (auto simp: go_bind_eq_Ret_iff)
  then have m: "md_id d1 = md_id d" by (elim nextReport_RetE) simp
  obtain e1 r1 where b: "broadcast cn marshal (rec_pub res) w (md_id d1) (md_nodes d1) e r = (e1, r1)" by fastforce
  with Suc.prems n have "run_ticks ec order cn marshal (rec_pub res) w k d1 e1 = Ret (d', e')" by simp
  from Suc.IH [OF this] broadcast_recorded [OF b] show ?case by (auto simp: m)
qed simp

lemma has_prefix_append [simp]: "has_prefix (p @ s) p"
  by (induction p) auto

section \<open>Properties\<close>

text \<open>the numbers of a mocked network.  However many reports it has produced, they carry its name and the
  sequence numbers 1, 2, 3 and so on in order, so each report is the successor of the one before.\<close>

theorem don_reports_numbered:
  assumes "next_reports ec order w k (fst (newMockedDon keygen did nodes w0)) = Ret d"
  shows "map dsr_SeqNumber (md_reports d) = map (\<lambda>i. word_of_nat (Suc i)) [0..<k]
    \<and> list_all (\<lambda>r. dsr_Src r = did) (md_reports d) \<and> reportsCount d = k"
proof -
  have "numbered did (md_reports d) \<and> length (md_reports d) = k"
    using next_reports_numbered [OF assms] by (simp add: newMockedDon_def numbered_def)
  then show ?thesis by (simp add: numbered_def reportsCount_def)
qed

definition demo_world :: "byte world" where "demo_world = (\<lambda>_. NewNode [])"

theorem don_reports_numbered_witness:
  "\<exists>d. next_reports toy_crypto (\<lambda>_. []) demo_world 2 (fst (newMockedDon (\<lambda>i. 0) ''d'' [] demo_world)) = Ret d
    \<and> map dsr_SeqNumber (md_reports d) = [1, 2]"
proof -
  have ex: "\<exists>d. next_reports toy_crypto (\<lambda>_. []) demo_world k \<lparr>md_id = ''d'', md_nodes = [], md_reports = rs\<rparr> = Ret d" for k rs
  proof (induction k arbitrary: rs)
    case (Suc k)
    obtain r where "NewMockedSignedReport toy_crypto [] (last_seq \<lparr>md_id = ''d'', md_nodes = [], md_reports = rs\<rparr> + 1) ''d''
      (bytes_of (''dummy report #'' @ show_int (sint (last_seq \<lparr>md_id = ''d'', md_nodes = [], md_reports = rs\<rparr> + 1)))) = Inr r"
      using toy_report by blast
    with Suc [of "rs @ [r]"] show ?case by (simp add: nextReport_def Signers_def)
  qed simp
  obtain d where d: "next_reports toy_crypto (\<lambda>_. []) demo_world 2
      (fst (newMockedDon (\<lambda>i. 0) ''d'' [] demo_world)) = Ret d"
    using ex [of 2 "[]"] unfolding newMockedDon_def by (auto simp: numeral_2_eq_2)
  have "map dsr_SeqNumber (md_reports d) = [1, 2]" using don_reports_numbered [OF d] by (simp add: numeral_2_eq_2)
  with d show ?thesis by (intro exI [of _ d] conjI)
qed

text \<open>C38: the reports of a network do not verify.  When the keys of a network with at least two signers are
  known to a verifier, it rejects every report the network makes, because the second signature was
  made on a longer text than the one that is verified.  The assumptions on the curve are that a
  signature recovers to the signer's address for the signed hash only, and that the hash does not
  collide on the texts of this report.\<close>

theorem don_own_reports_rejected:
  assumes "NewMockedSignedReport ec signers n src d = Inr r" and "distinct (map fst signers)" and "1 < length signers"
    and "rv_dons rv src = Some pubkeys"
    and "(fst (signers ! 1), keyring_PublicKey ec (os_k (snd (signers ! 1)))) \<in> set (order pubkeys)"
    and "\<And>h h' sk sig pk. ec_Sign ec h sk = Inr sig \<Longrightarrow> ec_SigToPub ec h' sig = Inr pk \<Longrightarrow>
           ec_PubkeyToAddress ec pk = signingAddress ec sk \<Longrightarrow> h' = h"
    and "\<And>m. reportToSigData ec zeroContext (bytes_of (show_report (r\<lparr>dsr_Sigs := m\<rparr>)))
           = reportToSigData ec zeroContext (GetReportData r) \<Longrightarrow>
           bytes_of (show_report (r\<lparr>dsr_Sigs := m\<rparr>)) = GetReportData r"
    and "unmarshal (Message_GetData msg) = Inr r"
  shows "Process ec unmarshal order rv msg = Ret (Message_GetData msg, VR_REJECT)"
proof -
  let ?s = "signers ! 1"
  obtain m sig where m: "signer_Sign ec (snd ?s) zeroContext (bytes_of (show_report (r\<lparr>dsr_Sigs := m\<rparr>))) = Inr sig"
    "dsr_Sigs r (fst ?s) = Some sig" "bytes_of (show_report (r\<lparr>dsr_Sigs := m\<rparr>)) \<noteq> GetReportData r"
    and r: "dsr_Src r = src" "dsr_Ctx r = zeroContext"
    using signed_report_sigs [OF assms(1,2,3)] by auto
  have "reportToSigData ec zeroContext (GetReportData r) \<noteq> reportToSigData ec zeroContext (bytes_of (show_report (r\<lparr>dsr_Sigs := m\<rparr>)))"
    using assms(7) [of m] m(3) by metis
  then have "\<not> keyring_Verify ec (keyring_PublicKey ec (os_k (snd ?s))) zeroContext (GetReportData r) sig"
    using assms(6) m(1)
    by (auto simp: keyring_Verify_def keyring_PublicKey_def signer_Sign_def keyring_Sign_def Let_def split: sum.splits)
  then have "verify_loop ec r (order pubkeys) 0 = None"
    using m(2) r(2) assms(5) by (intro verify_loop_fails) (auto simp: signer_Verify_def)
  with assms(4,8) r(1) show ?thesis by (simp add: Process_def)
qed

theorem don_own_reports_rejected_witness:
  "\<exists>r. NewMockedSignedReport toy_crypto [(0, \<lparr>os_k = 7, os_oid = 0\<rparr>), (1, \<lparr>os_k = 8, os_oid = 1\<rparr>)] 1 ''d'' [] = Inr r
    \<and> Process toy_crypto (\<lambda>_. Inr r) (\<lambda>_. [(0, [7]), (1, [8])])
        ((NewReportVerifier (NewReportBuffer 8))\<lparr>rv_dons := [''d'' \<mapsto> [0 \<mapsto> [7], 1 \<mapsto> [8]]]\<rparr>) None = Ret ([], VR_REJECT)"
proof -
  let ?ss = "[(0, \<lparr>os_k = 7, os_oid = 0\<rparr>), (1, \<lparr>os_k = 8, os_oid = 1\<rparr>)] :: (OracleID \<times> byte OcrSigner) list"
  let ?rv = "(NewReportVerifier (NewReportBuffer 8))\<lparr>rv_dons := [''d'' \<mapsto> [0 \<mapsto> [7], 1 \<mapsto> [8]]]\<rparr>"
  obtain r where r: "NewMockedSignedReport toy_crypto ?ss 1 ''d'' [] = Inr r" using toy_report by blast
  have "Process toy_crypto (\<lambda>_. Inr r) (\<lambda>_. [(0, [7]), (1, [8])]) ?rv None = Ret (Message_GetData None, VR_REJECT)"
  proof (rule don_own_reports_rejected [OF r])
    show "rv_dons ?rv ''d'' = Some [0 \<mapsto> [7], 1 \<mapsto> [8]]" by simp
    show "h' = h" if "ec_Sign toy_crypto h sk = Inr sig" "ec_SigToPub toy_crypto h' sig = Inr pk" for h h' sk sig pk
      using that by (auto simp: toy_crypto_def split: if_splits)
    show "bytes_of (show_report (r\<lparr>dsr_Sigs := m\<rparr>)) = GetReportData r"
      if "reportToSigData toy_crypto zeroContext (bytes_of (show_report (r\<lparr>dsr_Sigs := m\<rparr>)))
        = reportToSigData toy_crypto zeroContext (GetReportData r)" for m
      using that by (simp add: reportToSigData_def toy_crypto_def Let_def)
  qed (simp_all add: keyring_PublicKey_def signingAddress_def toy_crypto_def)
  with r show ?thesis by (auto simp: Message_GetData_def)
qed

text \<open>published reports reach no subscriber.  A network publishes on the topic of its name with a prefix, while
  the nodes subscribe to plain names: unless a name itself starts with the prefix, no topic that is
  published on is one that was subscribed, whatever the calls return.\<close>

theorem don_topics_disjoint:
  assumes "run_start cn (rec_sub sres) dons ns w ([], []) = Ret (w', e1)"
    and "broadcast cn2 marshal (rec_pub pres) w' did ns e1 r = (e2, r')"
    and "list_all (\<lambda>t. \<not> has_prefix t ''don.'') dons"
  shows "pr_Topic ` set (snd e2) \<inter> set (fst e2) = {}"
proof -
  have e1: "snd e1 = []" "set (fst e1) \<subseteq> set dons" using run_start_recorded [OF assms(1)] by simp_all
  obtain ps where ps: "fst e2 = fst e1" "snd e2 = ps" "list_all (\<lambda>p. pr_Topic p = donTopic did) ps"
    using broadcast_recorded [OF assms(2)] e1(1) by auto
  have "has_prefix (donTopic did) ''don.''" unfolding donTopic_def by (rule has_prefix_append)
  with assms(3) e1(2) have "donTopic did \<notin> set (fst e2)" unfolding ps(1) by (auto simp: list_all_iff)
  then show ?thesis using ps(2,3) by (auto simp: list_all_iff)
qed

theorem don_topics_disjoint_witness:
  "\<exists>w' e1 e2 r'. run_start None (rec_sub (\<lambda>_. None)) [''auto''] [0] demo_world ([], []) = Ret (w', e1)
    \<and> broadcast None (\<lambda>r. Inr []) (rec_pub (\<lambda>_. None)) w' ''auto'' [0] e1 zeroDonReport = (e2, r')
    \<and> fst e2 = [''auto''] \<and> map pr_Topic (snd e2) = [''don.auto''] \<and> pr_Topic ` set (snd e2) \<inter> set (fst e2) = {}"
proof -
  obtain w' e1 where s: "run_start None (rec_sub (\<lambda>_. None)) [''auto''] [0] demo_world ([], []) = Ret (w', e1)"
    "e1 = ([''auto''], [])"
    by (simp add: consumer_Subscribe_def rec_sub_def Let_def)
  obtain e2 r' where b: "broadcast None (\<lambda>r. Inr []) (rec_pub (\<lambda>_. None)) w' ''auto'' [0] e1 zeroDonReport = (e2, r')"
    by fastforce
  then have "fst e2 = [''auto'']" "map pr_Topic (snd e2) = [''don.auto'']"
    using s(2) by (auto simp: Transmit_def rec_pub_def Let_def donTopic_def)
  moreover have "pr_Topic ` set (snd e2) \<inter> set (fst e2) = {}"
    by (rule don_topics_disjoint [OF s(1) b]) simp
  ultimately show ?thesis using s(1) b
    by (intro exI [of _ w'] exI [of _ e1] exI [of _ e2] exI [of _ r'] conjI)
qed

end
