(* ===== verification/Key_Files.thy ===== *)
theory Key_Files
  imports Commons_Config Go_Strings
begin

text \<open>
  Private keys as text and configuration files (\<open>commons/net.go\<close>, \<open>commons/io.go\<close>, \<open>cmd/keygen/main.go\<close>).
  The key library, the file system and the two parsers are parameters; the base64 encoding without
  padding of the standard library is written out.
\<close>

section \<open>base64.RawStdEncoding\<close>

definition b64_alphabet :: string where
  "b64_alphabet = ''ABCDEFGHIJKLMNOPQRSTUVWXYZabcdefghijklmnopqrstuvwxyz0123456789+/''"

definition b64_char :: "nat \<Rightarrow> char" where "b64_char i = b64_alphabet ! i"

definition b64_index :: "char \<Rightarrow> nat option" where
  "b64_index c = find (\<lambda>i. b64_alphabet ! i = c) [0..<64]"

fun b64_encode :: "bytes \<Rightarrow> string" where
  "b64_encode [] = []"
| "b64_encode [a] = (let n = 65536 * unat a in [b64_char (n div 262144), b64_char (n div 4096 mod 64)])"
| "b64_encode [a, b] = (let n = 65536 * unat a + 256 * unat b in
     [b64_char (n div 262144), b64_char (n div 4096 mod 64), b64_char (n div 64 mod 64)])"
| "b64_encode (a # b # c # rest) = (let n = 65536 * unat a + 256 * unat b + unat c in
     [b64_char (n div 262144), b64_char (n div 4096 mod 64), b64_char (n div 64 mod 64), b64_char (n mod 64)]
       @ b64_encode rest)"

text \<open>The decoder skips line ends; the spare bits of a last group are ignored.\<close>

fun b64_groups :: "nat list \<Rightarrow> bytes option" where
  "b64_groups [] = Some []"
| "b64_groups [p] = None"
| "b64_groups [p, q] = (let n = 262144 * p + 4096 * q in Some [word_of_nat (n div 65536)])"
| "b64_groups [p, q, r] = (let n = 262144 * p + 4096 * q + 64 * r in
     Some [word_of_nat (n div 65536), word_of_nat (n div 256 mod 256)])"
| "b64_groups (p # q # r # s # rest) = (let n = 262144 * p + 4096 * q + 64 * r + s in
     map_option (\<lambda>bs. [word_of_nat (n div 65536), word_of_nat (n div 256 mod 256), word_of_nat (n mod 256)] @ bs)
       (b64_groups rest))"

definition b64_decode :: "string \<Rightarrow> string + bytes" where
  "b64_decode s =
     (let cs = map b64_index (filter (\<lambda>c. of_char c \<noteq> (10 :: nat) \<and> of_char c \<noteq> (13 :: nat)) s) in
      if None \<in> set cs then Inl ''illegal base64 data''
      else (case b64_groups (map the cs) of None \<Rightarrow> Inl ''illegal base64 data'' | Some bs \<Rightarrow> Inr bs))"

section \<open>Keys\<close>

record 'sk key_lib =
  kl_Generate :: "string + 'sk"
  kl_Marshal :: "'sk \<Rightarrow> string + bytes"
  kl_Unmarshal :: "bytes \<Rightarrow> string + 'sk"

definition GetOrGeneratePrivateKey :: "'sk key_lib \<Rightarrow> string \<Rightarrow> 'sk option \<times> string \<times> err" where
  "GetOrGeneratePrivateKey lib privKeyB64 =
     (if length privKeyB64 = 0 then
        (case kl_Generate lib of
           Inl e \<Rightarrow> (None, [], Some (''could not generate private key: '' @ e))
         | Inr sk \<Rightarrow>
             (case kl_Marshal lib sk of
                Inl e \<Rightarrow> (None, [], Some e)
              | Inr encoded \<Rightarrow> (Some sk, b64_encode encoded, None)))
      else
        (case b64_decode privKeyB64 of
           Inl e \<Rightarrow> (None, privKeyB64, Some (''failed to decode private key with base64: '' @ e))
         | Inr encoded \<Rightarrow>
             (case kl_Unmarshal lib encoded of
                Inl e \<Rightarrow> (None, privKeyB64, Some (''failed to unmarshal private key: '' @ e))
              | Inr sk \<Rightarrow> (Some sk, privKeyB64, None))))"

text \<open>The command \<open>keygen\<close>: the line it prints.\<close>

definition keygen_main :: "'sk key_lib \<Rightarrow> string go" where
  "keygen_main lib =
     (case GetOrGeneratePrivateKey lib [] of
        (_, skB64, Some e) \<Rightarrow> Panic (Explicit e)
      | (_, skB64, None) \<Rightarrow> Ret (skB64 @ [char_of (10 :: nat)]))"

section \<open>Configuration files\<close>

definition ReadConfig :: "(string \<Rightarrow> string + bytes) \<Rightarrow> (bytes \<Rightarrow> string + Config) \<Rightarrow> (bytes \<Rightarrow> string + Config)
    \<Rightarrow> string \<Rightarrow> string + Config" where
  "ReadConfig readFile yaml json cfgAddr =
     (case readFile cfgAddr of
        Inl e \<Rightarrow> Inl (''could not read config file: '' @ e)
      | Inr raw \<Rightarrow>
          (case (if Contains cfgAddr ''.yaml'' \<or> Contains cfgAddr ''.yml'' then yaml raw else json raw) of
             Inl e \<Rightarrow> Inl (''could not unmarshal config file: '' @ e)
           | Inr cfg \<Rightarrow> Inr cfg))"

section \<open>Lemmas\<close>

lemma b64_alphabet_ok: "distinct b64_alphabet" "length b64_alphabet = 64"
    "list_all (\<lambda>c. of_char c \<noteq> (10 :: nat) \<and> of_char c \<noteq> (13 :: nat)) b64_alphabet"
  by (simp_all add: b64_alphabet_def)

lemma find_upt: "i < n \<Longrightarrow> find (\<lambda>j. j = i) [0..<n] = Some i"
proof (induction n)
  case (Suc n)
  have "find P (xs @ [x]) = (case find P xs of None \<Rightarrow> if P x then Some x else None | Some y \<Rightarrow> Some y)" for P xs and x :: nat
    by (induction xs) auto
  moreover have "find (\<lambda>j. j = i) [0..<i] = None" by (simp add: find_None_iff)
  ultimately show ?case using Suc by (cases "i = n") auto
qed simp

lemma b64_index_char [simp]:
  assumes "i < 64"
  shows "b64_index (b64_char i) = Some i" "of_char (b64_char i) \<noteq> (10 :: nat)" "of_char (b64_char i) \<noteq> (13 :: nat)"
proof -
  have "b64_alphabet ! j = b64_alphabet ! i \<longleftrightarrow> j = i" if "j < 64" for j
    using that assms b64_alphabet_ok by (simp add: nth_eq_iff_index_eq)
  then have "b64_index (b64_char i) = find (\<lambda>j. j = i) [0..<64]"
    unfolding b64_index_def b64_char_def by (intro find_cong) auto
  also have "\<dots> = Some i" using assms by (rule find_upt)
  finally show "b64_index (b64_char i) = Some i" .
  show "of_char (b64_char i) \<noteq> (10 :: nat)" "of_char (b64_char i) \<noteq> (13 :: nat)"
    using assms b64_alphabet_ok(2,3) by (auto simp: list_all_iff b64_char_def)
qed

lemma byte_less [simp]: "unat (b :: byte) < 256"
  using unsigned_less [of b] by simp

text \<open>Four digits of base 64 of a number, and three of base 256.\<close>

lemma b64_digits:
  fixes n :: nat
  shows "262144 * (n div 262144) + 4096 * (n div 4096 mod 64) + 64 * (n div 64 mod 64) + n mod 64 = n"
proof -
  have a: "n = 64 * (n div 64) + n mod 64" by simp
  have b: "n div 64 = 64 * (n div 4096) + n div 64 mod 64"
    using mult_div_mod_eq [of 64 "n div 64"] by (simp add: div_mult2_eq [symmetric])
  have c: "n div 4096 = 64 * (n div 262144) + n div 4096 mod 64"
    using mult_div_mod_eq [of 64 "n div 4096"] by (simp add: div_mult2_eq [symmetric])
  from a b c show ?thesis by linarith
qed

lemma byte_digits:
  assumes "a < 256" "b < 256" "c < (256 :: nat)"
  shows "(65536 * a + 256 * b + c) div 65536 = a" "(65536 * a + 256 * b + c) div 256 mod 256 = b"
    "(65536 * a + 256 * b + c) mod 256 = c"
proof -
  show "(65536 * a + 256 * b + c) div 65536 = a" using assms by simp
  have "(65536 * a + 256 * b + c) div 256 = 256 * a + b" using assms by simp
  then show "(65536 * a + 256 * b + c) div 256 mod 256 = b" using assms(2) by simp
  have "65536 * a + 256 * b + c = c + 256 * (256 * a + b)" by simp
  then show "(65536 * a + 256 * b + c) mod 256 = c" using assms(3) by (metis mod_less mod_mult_self2)
qed

lemma b64_bounds:
  assumes "a < 256" "b < 256" "c < (256 :: nat)"
  shows "(65536 * a + 256 * b + c) div 262144 < 64"
  using assms by (simp add: less_mult_imp_div_less)

text \<open>The indices of an encoded text.\<close>

fun b64_indices :: "bytes \<Rightarrow> nat list" where
  "b64_indices [] = []"
| "b64_indices [a] = (let n = 65536 * unat a in [n div 262144, n div 4096 mod 64])"
| "b64_indices [a, b] = (let n = 65536 * unat a + 256 * unat b in [n div 262144, n div 4096 mod 64, n div 64 mod 64])"
| "b64_indices (a # b # c # rest) = (let n = 65536 * unat a + 256 * unat b + unat c in
     [n div 262144, n div 4096 mod 64, n div 64 mod 64, n mod 64] @ b64_indices rest)"

lemma b64_encode_indices: "b64_encode bs = map b64_char (b64_indices bs)"
  by (induction bs rule: b64_encode.induct) (simp_all add: Let_def)

lemma b64_indices_less: "list_all (\<lambda>i. i < 64) (b64_indices bs)"
proof (induction bs rule: b64_indices.induct)
  case (2 a)
  then show ?case using b64_bounds [of "unat a" 0 0] by simp
next
  case (3 a b)
  then show ?case using b64_bounds [of "unat a" "unat b" 0] by (simp add: Let_def)
next
  case (4 a b c rest)
  then show ?case using b64_bounds [of "unat a" "unat b" "unat c"] by (simp add: Let_def)
qed simp

lemma b64_groups_indices: "b64_groups (b64_indices bs) = Some bs"
proof (induction bs rule: b64_indices.induct)
  case (2 a)
  let ?n = "65536 * unat a"
  have "?n mod 64 = 0" "?n div 64 mod 64 = 0" by simp_all
  then have "262144 * (?n div 262144) + 4096 * (?n div 4096 mod 64) = ?n"
    using b64_digits [of ?n] by linarith
  then show ?case by (simp add: Let_def)
next
  case (3 a b)
  let ?n = "65536 * unat a + 256 * unat b"
  have "?n mod 64 = 0" by simp
  then have "262144 * (?n div 262144) + 4096 * (?n div 4096 mod 64) + 64 * (?n div 64 mod 64) = ?n"
    using b64_digits [of ?n] by linarith
  then show ?case using byte_digits [of "unat a" "unat b" 0] by (simp add: Let_def)
next
  case (4 a b c rest)
  let ?n = "65536 * unat a + 256 * unat b + unat c"
  have "262144 * (?n div 262144) + 4096 * (?n div 4096 mod 64) + 64 * (?n div 64 mod 64) + ?n mod 64 = ?n"
    by (rule b64_digits)
  moreover have "word_of_nat (?n div 65536) = a" "word_of_nat (?n div 256 mod 256) = b" "word_of_nat (?n mod 256) = c"
    using byte_digits [of "unat a" "unat b" "unat c"] by simp_all
  ultimately show ?case using 4 by (simp only: b64_indices.simps b64_groups.simps Let_def append.simps option.map)
qed simp

lemma b64_roundtrip: "b64_decode (b64_encode bs) = Inr bs"
proof -
  let ?is = "b64_indices bs"
  have less: "i < 64" if "i \<in> set ?is" for i using b64_indices_less [of bs] that by (auto simp: list_all_iff)
  have "filter (\<lambda>c. of_char c \<noteq> (10 :: nat) \<and> of_char c \<noteq> (13 :: nat)) (map b64_char ?is) = map b64_char ?is"
    using less by (auto simp: filter_id_conv)
  moreover have "map b64_index (map b64_char ?is) = map Some ?is" using less by auto
  moreover have "map (\<lambda>x. the (b64_index (b64_char x))) ?is = ?is" using less by (auto intro: map_idI)
  ultimately show ?thesis
    using b64_groups_indices [of bs] by (simp add: b64_decode_def b64_encode_indices Let_def comp_def)
qed

section \<open>Properties\<close>

text \<open>C40: a printed key is read back.  If the key library reads back what it writes and a key is not written as
  nothing, then the text that \<open>keygen\<close> prints, given to a node as its private key, yields the key that
  was generated, and the text itself.\<close>

theorem printed_key_read_back:
  assumes "kl_Generate lib = Inr sk" and "kl_Marshal lib sk = Inr raw" and "raw \<noteq> []"
    and "kl_Unmarshal lib raw = Inr sk"
  shows "\<exists>t. keygen_main lib = Ret (t @ [char_of (10 :: nat)])
    \<and> GetOrGeneratePrivateKey lib t = (Some sk, t, None)"
proof -
  have "b64_encode raw \<noteq> []" using assms(3) by (cases raw rule: b64_encode.cases) (auto simp: Let_def)
  then have "GetOrGeneratePrivateKey lib (b64_encode raw) = (Some sk, b64_encode raw, None)"
    using assms(4) by (simp add: GetOrGeneratePrivateKey_def b64_roundtrip)
  moreover have "keygen_main lib = Ret (b64_encode raw @ [char_of (10 :: nat)])"
    using assms(1,2) by (simp add: keygen_main_def GetOrGeneratePrivateKey_def)
  ultimately show ?thesis by blast
qed

definition toy_keys :: "bytes key_lib" where
  "toy_keys = \<lparr>kl_Generate = Inr [1, 2, 3, 255], kl_Marshal = Inr, kl_Unmarshal = Inr\<rparr>"

theorem printed_key_read_back_witness:
  "keygen_main toy_keys = Ret (''AQID/w'' @ [char_of (10 :: nat)])
    \<and> GetOrGeneratePrivateKey toy_keys ''AQID/w'' = (Some [1, 2, 3, 255], ''AQID/w'', None)"
proof -
  have k: "keygen_main toy_keys = Ret (''AQID/w'' @ [char_of (10 :: nat)])"
    by (simp add: keygen_main_def GetOrGeneratePrivateKey_def toy_keys_def b64_char_def b64_alphabet_def Let_def)
  obtain t where t: "keygen_main toy_keys = Ret (t @ [char_of (10 :: nat)])"
    "GetOrGeneratePrivateKey toy_keys t = (Some [1, 2, 3, 255], t, None)"
    using printed_key_read_back [of toy_keys "[1, 2, 3, 255]" "[1, 2, 3, 255]"] by (auto simp: toy_keys_def)
  with k have "t = ''AQID/w''" by simp
  with k t(2) show ?thesis by simp
qed

end
