(* ===== verification/Ctrl_Setup.thy ===== *)
theory Ctrl_Setup
  imports Pubsub_Ctrl Pubsub_Trace Thread_Control Key_Files
begin

text \<open>
  Construction of the controller (\<open>core/ctrl.go\<close>, \<open>core/dht.go\<close>, \<open>core/mdns.go\<close> and \<open>setupPubsubRouter\<close> of
  \<open>core/pubsub.go\<close>): the options that are handed to libp2p and to the pubsub library, in their order, and
  what is left of a controller whose set-up fails.  The two libraries, the DHT, the connection manager,
  the mDNS service and the regular expressions are parameters.
\<close>

section \<open>Options of the libraries\<close>

datatype ModeOpt = DhtModeAuto | DhtModeClient | DhtModeServer | DhtModeAutoServer

datatype 'ai dht_option = ProtocolPrefix string | DhtMode ModeOpt | BootstrapPeers "'ai list"

datatype ('sk, 'cm, 'ai) libp2p_option =
    ListenAddrStrings "string list" | Identity "'sk option" | WithDialTimeout duration | UserAgent string
  | Ping bool | PrivateNetwork bytes | ConnectionManager 'cm | NATPortMap | EnableNATService
  | Routing "'ai dht_option list"

datatype 're sub_filter = RegexpFilter 're | LimitFilter "'re sub_filter" int

datatype ('gs, 're, 'tr) pubsub_option =
    WithMessageSigning bool | WithStrictNoSign | WithGossipSubParams 'gs
  | WithMessageIdFn MsgIdFunction | WithPeerScore "PeerScoreParams \<times> PeerScoreThresholds"
  | WithPeerScoreInspect duration | WithMaxMessageSize int | WithSeenMessagesTTL duration
  | WithBlacklist | WithSubscriptionFilter "'re sub_filter" | WithEventTracer "'tr psTracer"
  | WithAppSpecificRpcInspector

text \<open>
  The libraries, as called.  \<open>sl_New\<close> builds the host; its second argument is the routing factory with
  its effect on the field \<open>dht\<close> of the controller, and it returns what the factory stored there.
\<close>

type_synonym ('ai, 'h, 'dht) factory = "'ai dht_option list \<Rightarrow> 'h \<Rightarrow> 'dht option \<times> err"

record ('sk, 'cm, 'ai, 'h, 'dht, 'mdns, 're, 'tr, 'gs, 'ps) setup_lib =
  sl_keys :: "'sk key_lib"
  sl_NewConnManager :: "int \<Rightarrow> int \<Rightarrow> duration \<Rightarrow> string + 'cm"
  sl_AddrInfoFromString :: "string \<Rightarrow> string + 'ai"
  sl_NewDht :: "'h \<Rightarrow> 'ai dht_option list \<Rightarrow> string + 'dht"
  sl_New :: "('sk, 'cm, 'ai) libp2p_option list \<Rightarrow> ('ai, 'h, 'dht) factory \<Rightarrow> 'dht option \<times> (string + 'h)"
  sl_NewMdnsService :: "'h \<Rightarrow> string \<Rightarrow> 'mdns"
  sl_Compile :: "string \<Rightarrow> string + 're"
  sl_NewJSONTracer :: "string \<Rightarrow> string + 'tr"
  sl_DefaultGossipSubParams :: "'gs GossipSubParams_scheme"
  sl_NewGossipSub :: "'h \<Rightarrow> ('gs GossipSubParams_scheme, 're, 'tr) pubsub_option list \<Rightarrow> string + 'ps"

section \<open>State\<close>

text \<open>The notifee of the mDNS service, with the goroutine of the group that reads its channel.\<close>

record 'ai mdnsNotifee =
  nt_q :: "'ai list"
  nt_closed :: bool
  nt_thread :: nat

text \<open>
  The controller without its two message routers.  \<open>nd_cfg\<close> is the struct copied before the defaults; its
  pointers are shared with the copy that \<open>setup\<close> works on.
\<close>

record ('ai, 'h, 'dht, 'mdns, 're, 'tr, 'ps, 'top, 'sub, 'fn) Controller =
  nd_once :: StartStopOnce
  nd_threadControl :: threadControl
  nd_cfg :: Config
  nd_host :: "'h option"
  nd_dht :: "'dht option"
  nd_mdnsSvc :: "'mdns option"
  nd_notifee :: "'ai mdnsNotifee option"
  nd_pubsub :: "'ps option"
  nd_topicManager :: "('top, 'sub, 'fn) topicManager"
  nd_denylist :: bool
  nd_subFilter :: "'re sub_filter option"
  nd_psTracer :: "'tr psTracer option"
  nd_pubsubRpcCounter :: u64

section \<open>Discovery\<close>

fun bootstrap_loop :: "(string \<Rightarrow> string + 'ai) \<Rightarrow> string list \<Rightarrow> 'ai list \<Rightarrow> string + 'ai list" where
  "bootstrap_loop parse [] bootstrappers = Inr bootstrappers"
| "bootstrap_loop parse (bnstr # bs) bootstrappers =
     (case parse bnstr of
        Inl e \<Rightarrow> Inl (''failed to parse bootstrapper addr '' @ bnstr @ '': '' @ e)
      | Inr bn \<Rightarrow> bootstrap_loop parse bs (bootstrappers @ [bn]))"

definition parseDiscoveryConfig :: "(string \<Rightarrow> string + 'ai) \<Rightarrow> DiscoveryConfig \<Rightarrow> ModeOpt \<times> (string + 'ai list)" where
  "parseDiscoveryConfig parse opts =
     (let dmode = (if dc_Mode opts = ModeClient then DhtModeClient
                   else if dc_Mode opts = ModeBootstrapper then DhtModeServer
                   else if dc_Mode opts = ModeServer then DhtModeAutoServer
                   else DhtModeAuto)
      in (dmode, bootstrap_loop parse (dc_Bootstrappers opts) []))"

definition dhtRoutingFactory :: "('sk, 'cm, 'ai, 'h, 'dht, 'mdns, 're, 'tr, 'gs, 'ps) setup_lib \<Rightarrow> ('ai, 'h, 'dht) factory" where
  "dhtRoutingFactory lib opts h =
     (case sl_NewDht lib h opts of Inl e \<Rightarrow> (None, Some e) | Inr d \<Rightarrow> (Some d, None))"

section \<open>Options of the host\<close>

definition connmgr_opts :: "('sk, 'cm, 'ai, 'h, 'dht, 'mdns, 're, 'tr, 'gs, 'ps) setup_lib \<Rightarrow> ConnManagerConfig option
    \<Rightarrow> string + ('sk, 'cm, 'ai) libp2p_option list" where
  "connmgr_opts lib cmo =
     (case cmo of
        None \<Rightarrow> Inr []
      | Some c0 \<Rightarrow>
          (let cm = ConnManagerConfig_Defaults c0 in
           case sl_NewConnManager lib (cm_LowWaterMark cm) (cm_HighWaterMark cm) (cm_GracePeriod cm) of
             Inl e \<Rightarrow> Inl (''could not create conn manager: '' @ e)
           | Inr m \<Rightarrow> Inr [ConnectionManager m]))"

definition nat_opts :: "Config \<Rightarrow> ('sk, 'cm, 'ai) libp2p_option list" where
  "nat_opts cfg = (if cfg_NatPortMap cfg then [NATPortMap] else []) @ (if cfg_AutoNat cfg then [EnableNATService] else [])"

definition discovery_opts :: "('sk, 'cm, 'ai, 'h, 'dht, 'mdns, 're, 'tr, 'gs, 'ps) setup_lib \<Rightarrow> DiscoveryConfig option
    \<Rightarrow> string + ('sk, 'cm, 'ai) libp2p_option list" where
  "discovery_opts lib dco =
     (case dco of
        None \<Rightarrow> Inr []
      | Some d0 \<Rightarrow>
          (let dc = DiscoveryConfig_Defaults d0 in
           case parseDiscoveryConfig (sl_AddrInfoFromString lib) dc of
             (dmode, Inl e) \<Rightarrow> Inl e
           | (dmode, Inr bootstrappers) \<Rightarrow>
               Inr [Routing ([ProtocolPrefix (dc_ProtocolPrefix dc), DhtMode dmode]
                     @ (if length bootstrappers > 0 then [BootstrapPeers bootstrappers] else []))]))"

section \<open>The pubsub router\<close>

definition peerScoreInspectionInterval :: duration where "peerScoreInspectionInterval = minute"

definition newSubFilter :: "('sk, 'cm, 'ai, 'h, 'dht, 'mdns, 're, 'tr, 'gs, 'ps) setup_lib \<Rightarrow> SubscriptionFilter
    \<Rightarrow> string + 're sub_filter" where
  "newSubFilter lib f =
     (case sl_Compile lib (sf_Pattern f) of
        Inl e \<Rightarrow> Inl e
      | Inr re \<Rightarrow> Inr (if sf_Limit f > 0 then LimitFilter (RegexpFilter re) (sf_Limit f) else RegexpFilter re))"

definition newTracer :: "('sk, 'cm, 'ai, 'h, 'dht, 'mdns, 're, 'tr, 'gs, 'ps) setup_lib \<Rightarrow> PubsubTraceConfig
    \<Rightarrow> string + 'tr psTracer" where
  "newTracer lib t =
     (if length (ptc_JsonFile t) > 0
      then (case sl_NewJSONTracer lib (ptc_JsonFile t) of
              Inl e \<Rightarrow> Inl e
            | Inr j \<Rightarrow> Inr (newPubsubTracer (ptc_Debug t) (ptc_Skiplist t) (Some j)))
      else Inr (newPubsubTracer (ptc_Debug t) (ptc_Skiplist t) None))"

text \<open>The options that do not depend on a call that can fail, in two groups around which the others stand.\<close>

definition msgid_config :: "PubsubConfig \<Rightarrow> MsgIdFunction" where
  "msgid_config p = (case psc_MsgIDFnConfig p of None \<Rightarrow> DefaultMsgIDFn | Some m \<Rightarrow> MsgIDFn (mid_Type m) (mid_Size m))"

definition base_opts :: "'gs GossipSubParams_scheme \<Rightarrow> PubsubConfig \<Rightarrow> ('gs GossipSubParams_scheme, 're, 'tr) pubsub_option list" where
  "base_opts gsCfg p =
     [WithMessageSigning False, WithStrictNoSign, WithGossipSubParams (overlay_params gsCfg (psc_Overlay p)),
      WithMessageIdFn (msgid_config p)]
     @ (if psc_Scoring p \<noteq> None
        then [WithPeerScore (PeerScores p), WithPeerScoreInspect peerScoreInspectionInterval] else [])
     @ (if psc_MaxMessageSize p > 0 then [WithMaxMessageSize (psc_MaxMessageSize p)] else [])
     @ (case psc_Overlay p of
          None \<Rightarrow> []
        | Some ov \<Rightarrow> if milliseconds (op_SeenTtl ov) > 0 then [WithSeenMessagesTTL (op_SeenTtl ov)] else [])
     @ [WithBlacklist]"

text \<open>The two steps that can fail: the subscription filter and the tracer.\<close>

definition with_subFilter :: "('sk, 'cm, 'ai, 'h, 'dht, 'mdns, 're, 'tr, 'gs, 'ps) setup_lib
    \<Rightarrow> ('ai, 'h, 'dht, 'mdns, 're, 'tr, 'ps, 'top, 'sub, 'fn) Controller \<Rightarrow> PubsubConfig
    \<Rightarrow> ('gs GossipSubParams_scheme, 're, 'tr) pubsub_option list
    \<Rightarrow> ('ai, 'h, 'dht, 'mdns, 're, 'tr, 'ps, 'top, 'sub, 'fn) Controller
       \<times> (string + ('gs GossipSubParams_scheme, 're, 'tr) pubsub_option list)" where
  "with_subFilter lib c p opts =
     (case psc_SubFilter p of
        None \<Rightarrow> (c, Inr opts)
      | Some f \<Rightarrow> (case newSubFilter lib f of
          Inl e \<Rightarrow> (c, Inl e)
        | Inr sf \<Rightarrow> (c\<lparr>nd_subFilter := Some sf\<rparr>, Inr (opts @ [WithSubscriptionFilter sf]))))"

definition with_tracer :: "('sk, 'cm, 'ai, 'h, 'dht, 'mdns, 're, 'tr, 'gs, 'ps) setup_lib
    \<Rightarrow> ('ai, 'h, 'dht, 'mdns, 're, 'tr, 'ps, 'top, 'sub, 'fn) Controller \<Rightarrow> PubsubConfig
    \<Rightarrow> ('gs GossipSubParams_scheme, 're, 'tr) pubsub_option list
    \<Rightarrow> ('ai, 'h, 'dht, 'mdns, 're, 'tr, 'ps, 'top, 'sub, 'fn) Controller
       \<times> (string + ('gs GossipSubParams_scheme, 're, 'tr) pubsub_option list)" where
  "with_tracer lib c p opts =
     (case psc_Trace p of
        None \<Rightarrow> (c, Inr opts)
      | Some t \<Rightarrow> (case newTracer lib t of
          Inl e \<Rightarrow> (c, Inl e)
        | Inr tr \<Rightarrow> (c\<lparr>nd_psTracer := Some tr\<rparr>, Inr (opts @ [WithEventTracer tr, WithAppSpecificRpcInspector]))))"

definition setupPubsubRouter :: "('sk, 'cm, 'ai, 'h, 'dht, 'mdns, 're, 'tr, 'gs, 'ps) setup_lib
    \<Rightarrow> ('ai, 'h, 'dht, 'mdns, 're, 'tr, 'ps, 'top, 'sub, 'fn) Controller \<Rightarrow> 'h \<Rightarrow> PubsubConfig
    \<Rightarrow> ('ai, 'h, 'dht, 'mdns, 're, 'tr, 'ps, 'top, 'sub, 'fn) Controller \<times> err" where
  "setupPubsubRouter lib c h p =
     (case with_subFilter lib c p (base_opts (sl_DefaultGossipSubParams lib) p) of
        (c, Inl e) \<Rightarrow> (c, Some e)
      | (c, Inr opts) \<Rightarrow>
          (case with_tracer lib c p opts of
             (c, Inl e) \<Rightarrow> (c, Some e)
           | (c, Inr opts) \<Rightarrow>
               (case sl_NewGossipSub lib h opts of
                  Inl e \<Rightarrow> (c, Some e)
                | Inr ps \<Rightarrow> (c\<lparr>nd_pubsub := Some ps, nd_denylist := True,
                    nd_topicManager := (nd_topicManager c)\<lparr>tm_topics := (\<lambda>_. None)\<rparr>\<rparr>, None))))"

text \<open>The inspector of incoming RPCs that is installed with the tracer.\<close>

definition inspectRpc :: "('ai, 'h, 'dht, 'mdns, 're, 'tr, 'ps, 'top, 'sub, 'fn) Controller
    \<Rightarrow> ('ai, 'h, 'dht, 'mdns, 're, 'tr, 'ps, 'top, 'sub, 'fn) Controller \<times> err" where
  "inspectRpc c = (c\<lparr>nd_pubsubRpcCounter := nd_pubsubRpcCounter c + 1\<rparr>, None)"

section \<open>Set-up\<close>

definition setupMdnsDiscovery :: "('sk, 'cm, 'ai, 'h, 'dht, 'mdns, 're, 'tr, 'gs, 'ps) setup_lib
    \<Rightarrow> ('ai, 'h, 'dht, 'mdns, 're, 'tr, 'ps, 'top, 'sub, 'fn) Controller \<Rightarrow> 'h \<Rightarrow> string
    \<Rightarrow> ('ai, 'h, 'dht, 'mdns, 're, 'tr, 'ps, 'top, 'sub, 'fn) Controller" where
  "setupMdnsDiscovery lib c h serviceTag =
     c\<lparr>nd_notifee := Some \<lparr>nt_q = [], nt_closed = False, nt_thread = length (tc_threads (nd_threadControl c))\<rparr>,
       nd_mdnsSvc := Some (sl_NewMdnsService lib h serviceTag),
       nd_threadControl := Go (nd_threadControl c)\<rparr>"

text \<open>
  The options of the host.  The two \<open>Defaults\<close> calls on pointers are seen through the controller's own
  copy of the configuration; the second component says which of them were reached.
\<close>

definition share_defaults :: "bool \<Rightarrow> bool \<Rightarrow> Config \<Rightarrow> Config" where
  "share_defaults cm dc cfg =
     cfg\<lparr>cfg_ConnManager := (if cm then map_option ConnManagerConfig_Defaults (cfg_ConnManager cfg) else cfg_ConnManager cfg),
         cfg_Discovery := (if dc then map_option DiscoveryConfig_Defaults (cfg_Discovery cfg) else cfg_Discovery cfg)\<rparr>"

definition host_opts :: "('sk, 'cm, 'ai, 'h, 'dht, 'mdns, 're, 'tr, 'gs, 'ps) setup_lib \<Rightarrow> Config
    \<Rightarrow> (bool \<times> bool) \<times> (string + ('sk, 'cm, 'ai) libp2p_option list)" where
  "host_opts lib cfg =
     (case GetOrGeneratePrivateKey (sl_keys lib) (cfg_PrivateKey cfg) of
        (sk, skB64, Some e) \<Rightarrow> ((False, False), Inl e)
      | (sk, skB64, None) \<Rightarrow>
          (let opts = [ListenAddrStrings (cfg_ListenAddrs cfg), Identity sk, WithDialTimeout (cfg_DialTimeout cfg),
                 UserAgent (''p2pmq/'' @ cfg_UserAgent cfg), Ping (\<not> cfg_DisablePing cfg), PrivateNetwork (cfg_PSK cfg)] in
           case connmgr_opts lib (cfg_ConnManager cfg) of
             Inl e \<Rightarrow> ((True, False), Inl e)
           | Inr cm \<Rightarrow>
               (case discovery_opts lib (cfg_Discovery cfg) of
                  Inl e \<Rightarrow> ((True, True), Inl e)
                | Inr dc \<Rightarrow> ((True, True), Inr (opts @ cm @ nat_opts cfg @ dc)))))"

definition ctrl_setup :: "('sk, 'cm, 'ai, 'h, 'dht, 'mdns, 're, 'tr, 'gs, 'ps) setup_lib
    \<Rightarrow> ('ai, 'h, 'dht, 'mdns, 're, 'tr, 'ps, 'top, 'sub, 'fn) Controller \<Rightarrow> Config
    \<Rightarrow> ('ai, 'h, 'dht, 'mdns, 're, 'tr, 'ps, 'top, 'sub, 'fn) Controller \<times> err" where
  "ctrl_setup lib c cfg0 =
     (let cfg = Config_Defaults cfg0 in
      case host_opts lib cfg of
        ((cm, dc), r) \<Rightarrow>
          (let c = c\<lparr>nd_cfg := share_defaults cm dc (nd_cfg c)\<rparr> in
           case r of
             Inl e \<Rightarrow> (c, Some e)
           | Inr opts \<Rightarrow>
               (case sl_New lib opts (dhtRoutingFactory lib) of
                  (d, Inl e) \<Rightarrow> (c\<lparr>nd_dht := d\<rparr>, Some e)
                | (d, Inr h) \<Rightarrow>
                    (let c = c\<lparr>nd_dht := d, nd_host := Some h\<rparr>;
                         c = (if length (cfg_MdnsTag cfg) > 0 then setupMdnsDiscovery lib c h (cfg_MdnsTag cfg) else c)
                     in case cfg_Pubsub cfg of
                          None \<Rightarrow> (c, None)
                        | Some p \<Rightarrow> setupPubsubRouter lib c h p))))"

definition newCtrl :: "Config \<Rightarrow> ('ai, 'h, 'dht, 'mdns, 're, 'tr, 'ps, 'top, 'sub, 'fn) Controller" where
  "newCtrl cfg = \<lparr>nd_once = \<lparr>so_start = False, so_stop = False\<rparr>, nd_threadControl = NewThreadControl, nd_cfg = cfg,
     nd_host = None, nd_dht = None, nd_mdnsSvc = None, nd_notifee = None, nd_pubsub = None,
     nd_topicManager = newTopicManager, nd_denylist = False, nd_subFilter = None, nd_psTracer = None,
     nd_pubsubRpcCounter = 0\<rparr>"

text \<open>\<open>NewController\<close> returns the controller next to the error, also when there is one.\<close>

definition NewController :: "('sk, 'cm, 'ai, 'h, 'dht, 'mdns, 're, 'tr, 'gs, 'ps) setup_lib \<Rightarrow> Config
    \<Rightarrow> ('ai, 'h, 'dht, 'mdns, 're, 'tr, 'ps, 'top, 'sub, 'fn) Controller \<times> err" where
  "NewController lib cfg = ctrl_setup lib (newCtrl cfg) cfg"

section \<open>Lemmas\<close>

text \<open>What the code relies on: \<open>libp2p.New\<close> calls the routing factory when there is one, and fails with it.\<close>

definition routing_called :: "('sk, 'cm, 'ai, 'h, 'dht, 'mdns, 're, 'tr, 'gs, 'ps) setup_lib \<Rightarrow> bool" where
  "routing_called lib \<longleftrightarrow> (\<forall>opts f d h. sl_New lib opts f = (d, Inr h) \<longrightarrow>
     (if \<exists>ro. Routing ro \<in> set opts then \<exists>ro. Routing ro \<in> set opts \<and> f ro h = (d, None) else d = None))"

text \<open>
  A pubsub option is well formed when the library accepts its argument; the rank is the position at
  which the code adds an option.
\<close>

fun opt_rank :: "('gs, 're, 'tr) pubsub_option \<Rightarrow> nat" where
  "opt_rank (WithMessageSigning b) = 0"
| "opt_rank WithStrictNoSign = 1"
| "opt_rank (WithGossipSubParams g) = 2"
| "opt_rank (WithMessageIdFn f) = 3"
| "opt_rank (WithPeerScore p) = 4"
| "opt_rank (WithPeerScoreInspect d) = 5"
| "opt_rank (WithMaxMessageSize n) = 6"
| "opt_rank (WithSeenMessagesTTL d) = 7"
| "opt_rank WithBlacklist = 8"
| "opt_rank (WithSubscriptionFilter f) = 9"
| "opt_rank (WithEventTracer t) = 10"
| "opt_rank WithAppSpecificRpcInspector = 11"

fun filter_ok :: "'re sub_filter \<Rightarrow> bool" where
  "filter_ok (RegexpFilter re) = True"
| "filter_ok (LimitFilter f n) = (0 < n \<and> filter_ok f)"

fun opt_ok :: "('gs, 're, 'tr) pubsub_option \<Rightarrow> bool" where
  "opt_ok (WithMessageSigning b) = (\<not> b)"
| "opt_ok (WithPeerScoreInspect d) = (0 < d)"
| "opt_ok (WithMaxMessageSize n) = (0 < n)"
| "opt_ok (WithSeenMessagesTTL d) = (1000000 \<le> d)"
| "opt_ok (WithSubscriptionFilter f) = filter_ok f"
| "opt_ok (WithEventTracer t) = (pst_events t = [] \<and> pst_faucets t = newTraceFaucets)"
| "opt_ok _ = True"

text \<open>The list is in the order of the code and sets no option twice.\<close>

definition opts_ok :: "('gs, 're, 'tr) pubsub_option list \<Rightarrow> bool" where
  "opts_ok opts \<longleftrightarrow> list_all opt_ok opts \<and> sorted_wrt (<) (map opt_rank opts)
     \<and> WithMessageSigning False \<in> set opts \<and> WithStrictNoSign \<in> set opts \<and> WithBlacklist \<in> set opts"

lemma base_opts_ok: "opts_ok (base_opts g p) \<and> (\<forall>x \<in> set (base_opts g p). opt_rank x < 9)"
  by (auto simp: opts_ok_def base_opts_def milliseconds_pos_iff peerScoreInspectionInterval_def minute_def second_def
      split: option.splits)

lemma opts_ok_snoc:
  "opts_ok opts \<Longrightarrow> opt_ok x \<Longrightarrow> \<forall>y \<in> set opts. opt_rank y < opt_rank x \<Longrightarrow> opts_ok (opts @ [x])"
  by (auto simp: opts_ok_def sorted_wrt_append)

lemma newSubFilter_ok: "newSubFilter lib f = Inr sf \<Longrightarrow> filter_ok sf"
  by (auto simp: newSubFilter_def split: sum.splits if_splits)

lemma newTracer_ok: "newTracer lib t = Inr tr \<Longrightarrow> opt_ok (WithEventTracer tr)"
  by (auto simp: newTracer_def newPubsubTracer_def split: sum.splits if_splits)

text \<open>Each step keeps the controller but for its own field, and extends well-formed options.\<close>

lemma with_subFilter_ok:
  assumes "with_subFilter lib c p opts = (c', r)"
  shows "\<exists>x. c' = c\<lparr>nd_subFilter := x\<rparr>"
    and "r = Inr opts' \<Longrightarrow> opts_ok opts \<Longrightarrow> \<forall>x \<in> set opts. opt_rank x < 9 \<Longrightarrow>
      opts_ok opts' \<and> (\<forall>x \<in> set opts'. opt_rank x < 10)"
proof -
  show "\<exists>x. c' = c\<lparr>nd_subFilter := x\<rparr>"
    using assms by (cases c) (auto simp: with_subFilter_def split: option.splits sum.splits)
  assume r: "r = Inr opts'" and o: "opts_ok opts" "\<forall>x \<in> set opts. opt_rank x < 9"
  show "opts_ok opts' \<and> (\<forall>x \<in> set opts'. opt_rank x < 10)"
  proof (cases "psc_SubFilter p")
    case None
    with assms r o show ?thesis by (fastforce simp: with_subFilter_def)
  next
    case (Some f)
    with assms r obtain sf where sf: "newSubFilter lib f = Inr sf" "opts' = opts @ [WithSubscriptionFilter sf]"
      by (auto simp: with_subFilter_def split: sum.splits)
    have "opts_ok opts'"
      unfolding sf(2) using o newSubFilter_ok [OF sf(1)] by (intro opts_ok_snoc) auto
    with o(2) sf(2) show ?thesis by fastforce
  qed
qed

lemma with_tracer_ok:
  assumes "with_tracer lib c p opts = (c', r)"
  shows "\<exists>x. c' = c\<lparr>nd_psTracer := x\<rparr>"
    and "r = Inr opts' \<Longrightarrow> opts_ok opts \<Longrightarrow> \<forall>x \<in> set opts. opt_rank x < 10 \<Longrightarrow> opts_ok opts'"
proof -
  show "\<exists>x. c' = c\<lparr>nd_psTracer := x\<rparr>"
    using assms by (cases c) (auto simp: with_tracer_def split: option.splits sum.splits)
  assume r: "r = Inr opts'" and o: "opts_ok opts" "\<forall>x \<in> set opts. opt_rank x < 10"
  show "opts_ok opts'"
  proof (cases "psc_Trace p")
    case None
    with assms r o show ?thesis by (simp add: with_tracer_def)
  next
    case (Some t)
    with assms r obtain tr where tr: "newTracer lib t = Inr tr"
        "opts' = (opts @ [WithEventTracer tr]) @ [WithAppSpecificRpcInspector]"
      by (auto simp: with_tracer_def split: sum.splits)
    have "opts_ok (opts @ [WithEventTracer tr])"
      using o by (intro opts_ok_snoc newTracer_ok [OF tr(1)]) auto
    then show ?thesis unfolding tr(2) by (rule opts_ok_snoc) (use o(2) in auto)
  qed
qed

text \<open>The fields that the set-up of pubsub leaves alone, and what it sets.\<close>

lemma setupPubsubRouter_cases:
  assumes "setupPubsubRouter lib c h p = (c', e)"
  obtains (error) x y where "e \<noteq> None" "c' = c\<lparr>nd_subFilter := x, nd_psTracer := y\<rparr>"
  | (ok) x y opts ps where "e = None" "sl_NewGossipSub lib h opts = Inr ps" "opts_ok opts"
      "c' = c\<lparr>nd_subFilter := x, nd_psTracer := y, nd_pubsub := Some ps, nd_denylist := True,
         nd_topicManager := (nd_topicManager c)\<lparr>tm_topics := (\<lambda>_. None)\<rparr>\<rparr>"
proof -
  obtain c1 r1 where f: "with_subFilter lib c p (base_opts (sl_DefaultGossipSubParams lib) p) = (c1, r1)" by fastforce
  from with_subFilter_ok(1) [OF f] obtain x where x: "c1 = c\<lparr>nd_subFilter := x\<rparr>" ..
  have c1: "c1 = c\<lparr>nd_subFilter := x, nd_psTracer := nd_psTracer c\<rparr>" by (cases c) (simp add: x)
  show ?thesis
  proof (cases r1)
    case (Inl m)
    with assms f have "e \<noteq> None" "c' = c1" by (auto simp: setupPubsubRouter_def)
    from error [OF this(1) this(2) [unfolded c1]] show ?thesis .
  next
    case (Inr opts)
    obtain c2 r2 where t: "with_tracer lib c1 p opts = (c2, r2)" by fastforce
    from with_tracer_ok(1) [OF t] obtain y where y: "c2 = c\<lparr>nd_subFilter := x, nd_psTracer := y\<rparr>" using x by auto
    from with_subFilter_ok(2) [OF f Inr] base_opts_ok
    have o: "opts_ok opts" "\<forall>x \<in> set opts. opt_rank x < 10" by blast+
    show ?thesis
    proof (cases r2)
      case (Inl m)
      with assms f t Inr show ?thesis by (intro error [OF _ _]) (auto simp: setupPubsubRouter_def y)
    next
      case (Inr opts2)
      with with_tracer_ok(2) [OF t Inr o] have o2: "opts_ok opts2" by blast
      show ?thesis
      proof (cases "sl_NewGossipSub lib h opts2")
        case (Inl m)
        with assms f t \<open>r1 = Inr opts\<close> Inr show ?thesis
          by (intro error [OF _ _]) (auto simp: setupPubsubRouter_def y)
      next
        case (Inr ps)
        with assms f t \<open>r1 = Inr opts\<close> \<open>r2 = Inr opts2\<close> o2 show ?thesis
          by (intro ok [OF _ Inr]) (auto simp: setupPubsubRouter_def y)
      qed
    qed
  qed
qed

text \<open>The controller when the host exists and the pubsub set-up is next.\<close>

definition with_host :: "('sk, 'cm, 'ai, 'h, 'dht, 'mdns, 're, 'tr, 'gs, 'ps) setup_lib \<Rightarrow> Config \<Rightarrow> 'dht option \<Rightarrow> 'h
    \<Rightarrow> ('ai, 'h, 'dht, 'mdns, 're, 'tr, 'ps, 'top, 'sub, 'fn) Controller" where
  "with_host lib cfg d h =
     (let c = (newCtrl cfg)\<lparr>nd_cfg := share_defaults True True cfg, nd_dht := d, nd_host := Some h\<rparr>
      in if cfg_MdnsTag cfg = [] then c else setupMdnsDiscovery lib c h (cfg_MdnsTag cfg))"

lemma Config_Defaults_keeps [simp]:
  "cfg_PrivateKey (Config_Defaults cfg) = cfg_PrivateKey cfg" "cfg_ConnManager (Config_Defaults cfg) = cfg_ConnManager cfg"
  "cfg_Discovery (Config_Defaults cfg) = cfg_Discovery cfg" "cfg_MdnsTag (Config_Defaults cfg) = cfg_MdnsTag cfg"
  "cfg_Pubsub (Config_Defaults cfg) = cfg_Pubsub cfg"
  by (simp_all add: Config_Defaults_def Let_def)

lemma host_opts_ok: "host_opts lib cfg = (b, Inr opts) \<Longrightarrow> b = (True, True)"
  by (auto simp: host_opts_def Let_def split: prod.splits option.splits sum.splits)

lemma with_host_fields [simp]:
  "nd_host (with_host lib cfg d h) = Some h" "nd_dht (with_host lib cfg d h) = d"
  "nd_pubsub (with_host lib cfg d h) = None" "nd_topicManager (with_host lib cfg d h) = newTopicManager"
  "nd_cfg (with_host lib cfg d h) = share_defaults True True cfg"
  "nd_once (with_host lib cfg d h) = \<lparr>so_start = False, so_stop = False\<rparr>"
  by (simp_all add: with_host_def newCtrl_def setupMdnsDiscovery_def Let_def)

lemma newCtrl_fields [simp]:
  "nd_host (newCtrl cfg) = None" "nd_pubsub (newCtrl cfg) = None" "nd_cfg (newCtrl cfg) = cfg"
  by (simp_all add: newCtrl_def)

lemma NewController_cases:
  assumes "NewController lib cfg = (c, e)"
  obtains (no_opts) m where "snd (host_opts lib (Config_Defaults cfg)) = Inl m" "e = Some m" "nd_host c = None" "nd_pubsub c = None"
  | (no_host) opts d m where "snd (host_opts lib (Config_Defaults cfg)) = Inr opts"
      "sl_New lib opts (dhtRoutingFactory lib) = (d, Inl m)" "e = Some m" "nd_host c = None" "nd_pubsub c = None"
  | (no_pubsub) opts d h where "snd (host_opts lib (Config_Defaults cfg)) = Inr opts"
      "sl_New lib opts (dhtRoutingFactory lib) = (d, Inr h)" "cfg_Pubsub cfg = None" "e = None" "c = with_host lib cfg d h"
  | (pubsub) opts d h p where "snd (host_opts lib (Config_Defaults cfg)) = Inr opts"
      "sl_New lib opts (dhtRoutingFactory lib) = (d, Inr h)" "cfg_Pubsub cfg = Some p"
      "setupPubsubRouter lib (with_host lib cfg d h) h p = (c, e)"
proof -
  obtain cm dc r where o: "host_opts lib (Config_Defaults cfg) = ((cm, dc), r)" by (metis prod.collapse)
  note def = NewController_def ctrl_setup_def
  show ?thesis
  proof (cases r)
    case (Inl m)
    with assms o show ?thesis by (intro no_opts) (auto simp: def)
  next
    case (Inr opts)
    with o host_opts_ok have b: "cm" "dc" by blast+
    obtain d x where new: "sl_New lib opts (dhtRoutingFactory lib) = (d, x)" by fastforce
    show ?thesis
    proof (cases x)
      case (Inl m)
      with assms o new Inr show ?thesis by (intro no_host) (auto simp: def)
    next
      case x: (Inr h)
      show ?thesis
      proof (cases "cfg_Pubsub cfg")
        case None
        with assms o b new Inr x show ?thesis
          by (intro no_pubsub) (auto simp: def with_host_def Let_def split: if_splits)
      next
        case (Some p)
        with assms o b new Inr x show ?thesis
          by (intro pubsub) (auto simp: def with_host_def Let_def split: if_splits)
      qed
    qed
  qed
qed

text \<open>Discovery in the options of the host.\<close>

lemma host_opts_discovery:
  assumes "snd (host_opts lib cfg) = Inr opts"
  shows "(\<exists>ro. Routing ro \<in> set opts) \<longleftrightarrow> cfg_Discovery cfg \<noteq> None"
    and "cfg_Discovery cfg = Some dc \<Longrightarrow>
      \<exists>bs. snd (parseDiscoveryConfig (sl_AddrInfoFromString lib) (DiscoveryConfig_Defaults dc)) = Inr bs"
  using assms
  by (auto simp: host_opts_def connmgr_opts_def nat_opts_def discovery_opts_def Let_def
      split: prod.splits option.splits sum.splits if_splits)

lemma with_host_mdns:
  "nd_mdnsSvc (with_host lib cfg d h) = (if cfg_MdnsTag cfg = [] then None else Some (sl_NewMdnsService lib h (cfg_MdnsTag cfg)))"
  "nd_threadControl (with_host lib cfg d h) = (if cfg_MdnsTag cfg = [] then NewThreadControl else Go NewThreadControl)"
  "nd_notifee (with_host lib cfg d h) = (if cfg_MdnsTag cfg = [] then None else Some \<lparr>nt_q = [], nt_closed = False, nt_thread = 0\<rparr>)"
  by (simp_all add: with_host_def newCtrl_def setupMdnsDiscovery_def NewThreadControl_def Let_def)

text \<open>On success the controller is the one with its host, up to the fields of the pubsub set-up.\<close>

lemma NewController_success:
  assumes "NewController lib cfg = (c, None)"
  obtains opts d h where "snd (host_opts lib (Config_Defaults cfg)) = Inr opts"
    "sl_New lib opts (dhtRoutingFactory lib) = (d, Inr h)" "nd_host c = Some h" "nd_dht c = d"
    "nd_cfg c = share_defaults True True cfg" "nd_once c = \<lparr>so_start = False, so_stop = False\<rparr>"
    "nd_threadControl c = (if cfg_MdnsTag cfg = [] then NewThreadControl else Go NewThreadControl)"
    "nd_mdnsSvc c = (if cfg_MdnsTag cfg = [] then None else Some (sl_NewMdnsService lib h (cfg_MdnsTag cfg)))"
    "nd_notifee c = (if cfg_MdnsTag cfg = [] then None else Some \<lparr>nt_q = [], nt_closed = False, nt_thread = 0\<rparr>)"
    "nd_pubsub c \<noteq> None \<longleftrightarrow> cfg_Pubsub cfg \<noteq> None"
    "nd_topicManager c = newTopicManager"
  using assms
proof (cases rule: NewController_cases)
  case (no_pubsub opts d h)
  then show ?thesis by (intro that [of opts d h]) (simp_all add: with_host_mdns)
next
  case (pubsub opts d h p)
  from pubsub(4) show ?thesis
  proof (cases rule: setupPubsubRouter_cases)
    case (ok x y o' ps)
    with pubsub show ?thesis
      by (intro that [of opts d h]) (simp_all add: newTopicManager_def with_host_fields(4) with_host_mdns)
  qed simp
qed simp_all

text \<open>The part of a controller that the pubsub operations work on.\<close>

definition pubsub_view :: "('ai, 'h, 'dht, 'mdns, 're, 'tr, 'ps, 'top, 'sub, 'fn) Controller \<Rightarrow> 'q
    \<Rightarrow> ('q, 'top, 'sub, 'fn) ctrl" where
  "pubsub_view c ps = \<lparr>c_cfg_Pubsub = cfg_Pubsub (nd_cfg c), c_pubsub = ps,
     c_topicManager = nd_topicManager c, c_listeners = []\<rparr>"

text \<open>What a successful construction gives.\<close>

lemma ready_facts:
  fixes lib :: "('sk, 'cm, 'ai, 'h, 'dht, 'mdns, 're, 'tr, 'gs, 'ps) setup_lib"
  assumes "routing_called lib" and "NewController lib cfg = (c, None)"
  shows "(\<exists>opts h. snd (host_opts lib (Config_Defaults cfg)) = Inr opts \<and> nd_host c = Some h
      \<and> sl_New lib opts (dhtRoutingFactory lib) = (nd_dht c, Inr h))
    \<and> (nd_dht c \<noteq> None \<longleftrightarrow> cfg_Discovery (nd_cfg c) \<noteq> None) \<and> (nd_pubsub c \<noteq> None \<longleftrightarrow> cfg_Pubsub cfg \<noteq> None)
    \<and> (nd_mdnsSvc c \<noteq> None \<longleftrightarrow> cfg_MdnsTag cfg \<noteq> [])
    \<and> (\<forall>dc. cfg_Discovery (nd_cfg c) = Some dc \<longrightarrow>
        (\<exists>bs. snd (parseDiscoveryConfig (sl_AddrInfoFromString lib) dc) = Inr bs))
    \<and> nd_topicManager c = newTopicManager \<and> cfg_Pubsub (nd_cfg c) = cfg_Pubsub cfg"
  using assms(2)
proof (rule NewController_success)
  fix opts d h
  assume o: "snd (host_opts lib (Config_Defaults cfg)) = Inr opts" and n: "sl_New lib opts (dhtRoutingFactory lib) = (d, Inr h)"
    and c: "nd_host c = Some h" "nd_dht c = d" "nd_cfg c = share_defaults True True cfg"
      "nd_mdnsSvc c = (if cfg_MdnsTag cfg = [] then None else Some (sl_NewMdnsService lib h (cfg_MdnsTag cfg)))"
      "nd_pubsub c \<noteq> None \<longleftrightarrow> cfg_Pubsub cfg \<noteq> None"
      "nd_topicManager c = newTopicManager"
  have "d \<noteq> None \<longleftrightarrow> (\<exists>ro. Routing ro \<in> set opts)"
    using assms(1) n by (fastforce simp: routing_called_def dhtRoutingFactory_def split: if_splits sum.splits)
  with host_opts_discovery [OF o] o n c show ?thesis
    by (auto simp: share_defaults_def)
qed

section \<open>A library for examples\<close>

text \<open>Hosts, keys and connection managers are units; a pattern that starts with a parenthesis does not compile.\<close>

definition demo_New :: "(unit, unit, string) libp2p_option list \<Rightarrow> (string, unit, nat) factory \<Rightarrow> nat option \<times> (string + unit)" where
  "demo_New opts f = (case [ro. Routing ro \<leftarrow> opts] of
      [] \<Rightarrow> (None, Inr ())
    | ro # _ \<Rightarrow> (case f ro () of (d, None) \<Rightarrow> (d, Inr ()) | (d, Some e) \<Rightarrow> (d, Inl e)))"

definition demo_lib :: "(unit, unit, string, unit, nat, string, string, unit, unit, nat) setup_lib" where
  "demo_lib = \<lparr>sl_keys = \<lparr>kl_Generate = Inr (), kl_Marshal = (\<lambda>_. Inr []), kl_Unmarshal = (\<lambda>_. Inr ())\<rparr>,
     sl_NewConnManager = (\<lambda>l h g. Inr ()), sl_AddrInfoFromString = (\<lambda>s. if s = [] then Inl ''empty'' else Inr s),
     sl_NewDht = (\<lambda>h opts. Inr (length opts)), sl_New = demo_New, sl_NewMdnsService = (\<lambda>h tag. tag),
     sl_Compile = (\<lambda>p. if p \<noteq> [] \<and> hd p = CHR ''('' then Inl ''missing )'' else Inr p),
     sl_NewJSONTracer = (\<lambda>f. Inr ()),
     sl_DefaultGossipSubParams = \<lparr>gs_D = 6, gs_Dlo = 5, gs_Dhi = 12, gs_Dlazy = 6, gs_MaxIHaveMessages = 10,
       gs_MaxIHaveLength = 5000, gs_FanoutTTL = minute, gs_HeartbeatInterval = second, \<dots> = ()\<rparr>,
     sl_NewGossipSub = (\<lambda>h opts. Inr (length opts))\<rparr>"

definition demo_pubsub :: "string \<Rightarrow> PubsubConfig" where
  "demo_pubsub pattern = \<lparr>psc_Topics = [], psc_Overlay = None, psc_SubFilter = Some \<lparr>sf_Pattern = pattern, sf_Limit = 4\<rparr>,
     psc_MaxMessageSize = 1024, psc_MsgValidationTimeout = 0, psc_Scoring = None, psc_MsgValidator = None,
     psc_MsgIDFnConfig = None, psc_Trace = Some \<lparr>ptc_Skiplist = [], ptc_JsonFile = [], ptc_Debug = True\<rparr>\<rparr>"

definition demo_config :: "string \<Rightarrow> Config" where
  "demo_config pattern = \<lparr>cfg_PrivateKey = [], cfg_ListenAddrs = [], cfg_PSK = [], cfg_DialTimeout = 0,
     cfg_DisablePing = False, cfg_UserAgent = [], cfg_NatPortMap = True, cfg_AutoNat = False, cfg_ConnManager = None,
     cfg_Discovery = Some \<lparr>dc_Mode = [], dc_Bootstrappers = [''b1''], dc_ProtocolPrefix = []\<rparr>,
     cfg_Pubsub = Some (demo_pubsub pattern), cfg_MdnsTag = ''tag'', cfg_MsgRouterQueueSize = 0,
     cfg_MsgRouterWorkers = 0, cfg_PProf = None\<rparr>"

type_synonym demo_ctrl = "(string, unit, nat, string, string, unit, nat, unit, unit, unit) Controller"

lemmas demo_defs = demo_lib_def demo_New_def demo_config_def demo_pubsub_def

lemma demo_routing: "routing_called demo_lib"
proof -
  have e: "(\<exists>ro. Routing ro \<in> set opts) \<longleftrightarrow> [ro. Routing ro \<leftarrow> opts] \<noteq> []"
    for opts :: "(unit, unit, string) libp2p_option list"
    by (induction opts) (auto split: libp2p_option.splits)
  have i: "ro \<in> set [ro. Routing ro \<leftarrow> opts] \<Longrightarrow> Routing ro \<in> set opts" for opts :: "(unit, unit, string) libp2p_option list" and ro
    by (induction opts) (auto split: libp2p_option.splits)
  show ?thesis
    unfolding routing_called_def
  proof (intro allI impI)
    fix opts f d h
    assume a: "sl_New demo_lib opts f = (d, Inr h)"
    show "if \<exists>ro. Routing ro \<in> set opts then \<exists>ro. Routing ro \<in> set opts \<and> f ro h = (d, None) else d = None"
    proof (cases "[ro. Routing ro \<leftarrow> opts]")
      case Nil
      with a e [of opts] show ?thesis by (simp add: demo_lib_def demo_New_def)
    next
      case (Cons ro ros)
      with i [of ro opts] have "Routing ro \<in> set opts" by simp
      moreover from a Cons have "f ro h = (d, None)"
        by (auto simp: demo_lib_def demo_New_def split: prod.splits option.splits)
      ultimately show ?thesis by auto
    qed
  qed
qed

lemma demo_controller:
  assumes "NewController demo_lib (demo_config p) = (c, e)"
  shows "nd_host c = Some ()"
    and "p = ''(x'' \<Longrightarrow> e = Some ''missing )''" and "p = ''x'' \<Longrightarrow> e = None \<and> nd_pubsub c \<noteq> None"
proof -
  have o: "\<exists>opts. host_opts demo_lib (Config_Defaults (demo_config p)) = ((True, True), Inr opts)"
    by (simp add: host_opts_def GetOrGeneratePrivateKey_def demo_defs Config_Defaults_def connmgr_opts_def
        nat_opts_def discovery_opts_def DiscoveryConfig_Defaults_def parseDiscoveryConfig_def Let_def)
  have n: "\<exists>d. sl_New demo_lib opts (dhtRoutingFactory demo_lib) = (d, Inr ())" for opts
    by (simp add: demo_lib_def demo_New_def dhtRoutingFactory_def split: list.splits)
  have r: "\<exists>d. setupPubsubRouter demo_lib (with_host demo_lib (demo_config p) d ()) () (demo_pubsub p) = (c, e)"
    using assms
  proof (cases rule: NewController_cases)
    case (no_host opts d m)
    with n [of opts] show ?thesis by simp
  qed (use o in \<open>auto simp: demo_config_def\<close>)
  note d = setupPubsubRouter_def with_subFilter_def with_tracer_def newSubFilter_def newTracer_def demo_lib_def demo_pubsub_def
  from r show "nd_host c = Some ()" by (auto elim!: setupPubsubRouter_cases)
  show "e = Some ''missing )''" if "p = ''(x''" using r that by (auto simp: d)
  show "e = None \<and> nd_pubsub c \<noteq> None" if "p = ''x''" using r that by (auto simp: d)
qed

section \<open>Properties\<close>

text \<open>C28: the options of the pubsub router are well formed.  Whatever the configuration, the list that is handed
  to the pubsub library sets every option at most once and in the order of the code; messages are never
  signed and signed messages are refused; sizes, limits and times are positive and the tracer is new.
  A controller with a pubsub router comes without an error.\<close>

theorem pubsub_options_wellformed:
  fixes lib :: "('sk, 'cm, 'ai, 'h, 'dht, 'mdns, 're, 'tr, 'gs, 'ps) setup_lib"
  assumes "NewController lib cfg = (c, e)" and "nd_pubsub c = Some ps"
  shows "e = None \<and> (\<exists>h opts. nd_host c = Some h \<and> sl_NewGossipSub lib h opts = Inr ps \<and> opts_ok opts)"
  using assms(1)
proof (cases rule: NewController_cases)
  case (pubsub opts d h p)
  from pubsub(4) show ?thesis
    by (cases rule: setupPubsubRouter_cases) (use assms(2) in auto)
qed (use assms(2) in simp_all)

theorem pubsub_options_wellformed_witness:
  "\<exists>(c :: demo_ctrl) h opts ps. NewController demo_lib (demo_config ''x'') = (c, None) \<and> nd_pubsub c = Some ps
    \<and> sl_NewGossipSub demo_lib h opts = Inr ps \<and> opts_ok opts"
proof -
  obtain c :: demo_ctrl and e where c: "NewController demo_lib (demo_config ''x'') = (c, e)" by fastforce
  from demo_controller(3) [OF c] obtain ps where "nd_pubsub c = Some ps" "e = None" by auto
  with c pubsub_options_wellformed [OF c this(1)] show ?thesis by blast
qed

text \<open>C29: a controller that is returned without an error is ready.  It has a host built from the options; it has a
  DHT, a pubsub router and an mDNS service exactly when they are configured; the bootstrappers that \<open>Start\<close>
  parses again parse; and its pubsub operations start from the state of a new controller.\<close>

theorem controller_ready:
  fixes lib :: "('sk, 'cm, 'ai, 'h, 'dht, 'mdns, 're, 'tr, 'gs, 'ps) setup_lib"
  assumes "routing_called lib" and "NewController lib cfg = (c, None)"
  shows "(\<exists>opts h. snd (host_opts lib (Config_Defaults cfg)) = Inr opts \<and> nd_host c = Some h
      \<and> sl_New lib opts (dhtRoutingFactory lib) = (nd_dht c, Inr h))
    \<and> (nd_dht c \<noteq> None \<longleftrightarrow> cfg_Discovery (nd_cfg c) \<noteq> None) \<and> (nd_pubsub c \<noteq> None \<longleftrightarrow> cfg_Pubsub cfg \<noteq> None)
    \<and> (nd_mdnsSvc c \<noteq> None \<longleftrightarrow> cfg_MdnsTag cfg \<noteq> [])
    \<and> (\<forall>dc. cfg_Discovery (nd_cfg c) = Some dc \<longrightarrow>
        (\<exists>bs. snd (parseDiscoveryConfig (sl_AddrInfoFromString lib) dc) = Inr bs))
    \<and> pubsub_view c ps = new_ctrl (cfg_Pubsub cfg) ps"
  using ready_facts [OF assms] by (simp add: pubsub_view_def new_ctrl_def)

theorem controller_ready_witness:
  "\<exists>c :: demo_ctrl. NewController demo_lib (demo_config ''x'') = (c, None) \<and> nd_dht c \<noteq> None \<and> nd_mdnsSvc c \<noteq> None
    \<and> pubsub_view c 12 = new_ctrl (Some (demo_pubsub ''x'')) 12"
proof -
  obtain c :: demo_ctrl and e where c: "NewController demo_lib (demo_config ''x'') = (c, e)" by fastforce
  with demo_controller(3) [OF c] have c: "NewController demo_lib (demo_config ''x'') = (c, None)" by simp
  from c have "cfg_Discovery (nd_cfg c) \<noteq> None"
    by (rule NewController_success) (simp add: share_defaults_def demo_config_def)
  with controller_ready [OF demo_routing c, of 12] c show ?thesis by (auto simp: demo_config_def)
qed



end
