(* ===== verification/Ctrl_Life.thy ===== *)
theory Ctrl_Life
  imports Ctrl_Setup Go_Mailbox
begin

text \<open>
  The life of a controller after its construction (\<open>core/ctrl.go\<close>, \<open>core/conn.go\<close>, \<open>core/mdns.go\<close>): \<open>Start\<close>,
  \<open>Connect\<close>, \<open>Close\<close> and the local discovery, whose notifications arrive on the goroutines of the mDNS
  service.  What the code asks of the host, the DHT and the service is recorded in a log.
\<close>

section \<open>The network, as called\<close>

datatype Connectedness = NotConnected | Connected | CanConnect | CannotConnect

record ('h, 'dht, 'ai) net_lib =
  nl_Connectedness :: "'h \<Rightarrow> 'ai \<Rightarrow> Connectedness"
  nl_Connect :: "'h \<Rightarrow> 'ai \<Rightarrow> err"
  nl_Bootstrap :: "'dht \<Rightarrow> err"

text \<open>Dialling a peer and a router's loop run in goroutines of the group; the other entries are calls.\<close>

datatype 'ai life_event =
    Dial 'ai | MsgRouterLoop | ValRouterLoop | DhtBootstrapped | MdnsStarted | DhtClosed | MdnsClosed | HostClosed

section \<open>Operations\<close>

definition Connect :: "('h, 'dht, 'ai) net_lib \<Rightarrow> ('ai, 'h, 'dht, 'mdns, 're, 'tr, 'ps, 'top, 'sub, 'fn) Controller
    \<Rightarrow> 'ai \<Rightarrow> string \<Rightarrow> err go" where
  "Connect net c dest destID =
     (case nd_host c of
        None \<Rightarrow> Panic NilDeref
      | Some h \<Rightarrow>
          (case nl_Connectedness net h dest of
             Connected \<Rightarrow> Ret None
           | CannotConnect \<Rightarrow> Ret (Some (''cannot connect to '' @ destID))
           | _ \<Rightarrow> Ret (nl_Connect net h dest)))"

definition connect :: "('h, 'dht, 'ai) net_lib \<Rightarrow> ('ai, 'h, 'dht, 'mdns, 're, 'tr, 'ps, 'top, 'sub, 'fn) Controller
    \<Rightarrow> 'ai \<Rightarrow> (('ai, 'h, 'dht, 'mdns, 're, 'tr, 'ps, 'top, 'sub, 'fn) Controller \<times> 'ai life_event list) go" where
  "connect net d pinfo =
     (case nd_host d of
        None \<Rightarrow> Panic NilDeref
      | Some h \<Rightarrow>
          (if nl_Connectedness net h pinfo \<in> {CannotConnect, Connected} then Ret (d, [])
           else Ret (d\<lparr>nd_threadControl := Go (nd_threadControl d)\<rparr>, [Dial pinfo])))"

fun connect_loop :: "('h, 'dht, 'ai) net_lib \<Rightarrow> ('ai, 'h, 'dht, 'mdns, 're, 'tr, 'ps, 'top, 'sub, 'fn) Controller
    \<Rightarrow> 'ai list \<Rightarrow> (('ai, 'h, 'dht, 'mdns, 're, 'tr, 'ps, 'top, 'sub, 'fn) Controller \<times> 'ai life_event list) go" where
  "connect_loop net c [] = Ret (c, [])"
| "connect_loop net c (b # bs) =
     go_bind (connect net c b) (\<lambda>(c, ev). go_bind (connect_loop net c bs) (\<lambda>(c, ev'). Ret (c, ev @ ev')))"

text \<open>The discovery part of \<open>Start\<close>: both failures are logged with \<open>Panicf\<close>.\<close>

definition start_discovery :: "('h, 'dht, 'ai) net_lib \<Rightarrow> (string \<Rightarrow> string + 'ai)
    \<Rightarrow> ('ai, 'h, 'dht, 'mdns, 're, 'tr, 'ps, 'top, 'sub, 'fn) Controller
    \<Rightarrow> (('ai, 'h, 'dht, 'mdns, 're, 'tr, 'ps, 'top, 'sub, 'fn) Controller \<times> 'ai life_event list) go" where
  "start_discovery net parse c =
     (case cfg_Discovery (nd_cfg c) of
        None \<Rightarrow> Ret (c, [])
      | Some dc \<Rightarrow>
          (case snd (parseDiscoveryConfig parse dc) of
             Inl e \<Rightarrow> Panic (Explicit (''failed to parse discovery config: '' @ e))
           | Inr bootstrappers \<Rightarrow>
               go_bind (connect_loop net c bootstrappers) (\<lambda>(c, ev).
                 case nd_dht c of
                   None \<Rightarrow> Panic NilDeref
                 | Some d \<Rightarrow>
                     (case nl_Bootstrap net d of
                        Some e \<Rightarrow> Panic (Explicit (''failed to start dht: '' @ e))
                      | None \<Rightarrow> Ret (c, ev @ [DhtBootstrapped])))))"

text \<open>The function that \<open>Start\<close> runs once; the flags say which routers the controller was given.\<close>

definition start_fn :: "('h, 'dht, 'ai) net_lib \<Rightarrow> (string \<Rightarrow> string + 'ai) \<Rightarrow> bool \<Rightarrow> bool
    \<Rightarrow> ('ai, 'h, 'dht, 'mdns, 're, 'tr, 'ps, 'top, 'sub, 'fn) Controller
    \<Rightarrow> (('ai, 'h, 'dht, 'mdns, 're, 'tr, 'ps, 'top, 'sub, 'fn) Controller \<times> 'ai life_event list) go" where
  "start_fn net parse msgRouter valRouter c =
     (let c = (if msgRouter then c\<lparr>nd_threadControl := Go (nd_threadControl c)\<rparr> else c);
          c = (if valRouter then c\<lparr>nd_threadControl := Go (nd_threadControl c)\<rparr> else c);
          ev = (if msgRouter then [MsgRouterLoop] else []) @ (if valRouter then [ValRouterLoop] else [])
      in go_bind (start_discovery net parse c) (\<lambda>(c, ev').
           Ret (c, ev @ ev' @ (if nd_mdnsSvc c \<noteq> None then [MdnsStarted] else []))))"

definition Start :: "('h, 'dht, 'ai) net_lib \<Rightarrow> (string \<Rightarrow> string + 'ai) \<Rightarrow> bool \<Rightarrow> bool
    \<Rightarrow> ('ai, 'h, 'dht, 'mdns, 're, 'tr, 'ps, 'top, 'sub, 'fn) Controller
    \<Rightarrow> (('ai, 'h, 'dht, 'mdns, 're, 'tr, 'ps, 'top, 'sub, 'fn) Controller \<times> 'ai life_event list) go" where
  "Start net parse msgRouter valRouter c =
     (case StartOnce (nd_once c) (\<lambda>s. go_bind s (\<lambda>(c, _). start_fn net parse msgRouter valRouter c)) (Ret (c, [])) of
        (once, r) \<Rightarrow> go_bind r (\<lambda>(c, ev). Ret (c\<lparr>nd_once := once\<rparr>, ev)))"

text \<open>
  \<open>Close\<close> up to the wait for the goroutines, and from there.  Errors of the three last calls are logged.
\<close>

definition close_begin :: "('ai, 'h, 'dht, 'mdns, 're, 'tr, 'ps, 'top, 'sub, 'fn) Controller
    \<Rightarrow> ('ai, 'h, 'dht, 'mdns, 're, 'tr, 'ps, 'top, 'sub, 'fn) Controller go" where
  "close_begin c =
     (case StopOnce (nd_once c) (\<lambda>s. go_bind s (\<lambda>c. case nd_host c of
           None \<Rightarrow> Panic NilDeref
         | Some h \<Rightarrow> go_bind (Close (nd_threadControl c)) (\<lambda>tc. Ret (c\<lparr>nd_threadControl := tc\<rparr>)))) (Ret c) of
        (once, r) \<Rightarrow> go_bind r (\<lambda>c. Ret (c\<lparr>nd_once := once\<rparr>)))"

definition close_end :: "('ai, 'h, 'dht, 'mdns, 're, 'tr, 'ps, 'top, 'sub, 'fn) Controller
    \<Rightarrow> (('ai, 'h, 'dht, 'mdns, 're, 'tr, 'ps, 'top, 'sub, 'fn) Controller \<times> 'ai life_event list) option" where
  "close_end c = map_option (\<lambda>tc. (c\<lparr>nd_threadControl := tc\<rparr>,
       (if nd_dht c \<noteq> None then [DhtClosed] else []) @ (if nd_mdnsSvc c \<noteq> None then [MdnsClosed] else []) @ [HostClosed]))
     (close_wait (nd_threadControl c))"

section \<open>Local discovery\<close>

text \<open>A notification of the service.  The flag says that the context given to \<open>NewController\<close> is done.\<close>

definition HandlePeerFound :: "bool \<Rightarrow> 'ai mdnsNotifee \<Rightarrow> 'ai \<Rightarrow> 'ai mdnsNotifee go" where
  "HandlePeerFound ctxDone m pinfo =
     (if ctxDone then Ret m
      else if nt_closed m then Panic SendOnClosedChannel
      else if length (nt_q m) < 32 then Ret (m\<lparr>nt_q := nt_q m @ [pinfo]\<rparr>)
      else Ret m)"

text \<open>A receive from the queue.\<close>

definition mdns_take :: "'ai mdnsNotifee \<Rightarrow> ('ai \<times> 'ai mdnsNotifee) option" where
  "mdns_take m = (case nt_q m of [] \<Rightarrow> None | p # q \<Rightarrow> Some (p, m\<lparr>nt_q := q\<rparr>))"

text \<open>The goroutine of the queue: it takes a peer, or returns once its context is done and closes the queue.\<close>

definition mdns_next :: "('h, 'dht, 'ai) net_lib \<Rightarrow> ('ai, 'h, 'dht, 'mdns, 're, 'tr, 'ps, 'top, 'sub, 'fn) Controller
    \<Rightarrow> (('ai, 'h, 'dht, 'mdns, 're, 'tr, 'ps, 'top, 'sub, 'fn) Controller \<times> 'ai life_event list) go option" where
  "mdns_next net c =
     (case nd_notifee c of
        None \<Rightarrow> None
      | Some m \<Rightarrow>
          (if tc_threads (nd_threadControl c) ! nt_thread m = Finished then None
           else map_option (\<lambda>(p, m). connect net (c\<lparr>nd_notifee := Some m\<rparr>) p) (mdns_take m)))"

definition mdns_done :: "('ai, 'h, 'dht, 'mdns, 're, 'tr, 'ps, 'top, 'sub, 'fn) Controller
    \<Rightarrow> ('ai, 'h, 'dht, 'mdns, 're, 'tr, 'ps, 'top, 'sub, 'fn) Controller option" where
  "mdns_done c =
     (case nd_notifee c of
        None \<Rightarrow> None
      | Some m \<Rightarrow>
          (if tc_threads (nd_threadControl c) ! nt_thread m = Live True
           then map_option (\<lambda>tc. c\<lparr>nd_threadControl := tc, nd_notifee := Some (m\<lparr>nt_closed := True\<rparr>)\<rparr>)
                  (thread_return (nd_threadControl c) (nt_thread m))
           else None))"

section \<open>Runs\<close>

text \<open>
  A step is a call of \<open>Start\<close> or \<open>Close\<close>, the end of the wait in \<open>Close\<close>, a step of a goroutine or a
  notification, which the service sends between its start and its end.
\<close>

record ('c, 'ai) life =
  lf_c :: 'c
  lf_log :: "'ai life_event list"

definition mdns_active :: "'ai life_event list \<Rightarrow> bool" where
  "mdns_active l \<longleftrightarrow> MdnsStarted \<in> set l \<and> MdnsClosed \<notin> set l"

inductive life_step :: "('h, 'dht, 'ai) net_lib \<Rightarrow> (string \<Rightarrow> string + 'ai) \<Rightarrow> bool \<Rightarrow> bool
    \<Rightarrow> (('ai, 'h, 'dht, 'mdns, 're, 'tr, 'ps, 'top, 'sub, 'fn) Controller, 'ai) life
    \<Rightarrow> (('ai, 'h, 'dht, 'mdns, 're, 'tr, 'ps, 'top, 'sub, 'fn) Controller, 'ai) life \<Rightarrow> bool"
  for net parse mr vr where
  start: "Start net parse mr vr c = Ret (c', ev) \<Longrightarrow> life_step net parse mr vr \<lparr>lf_c = c, lf_log = l\<rparr> \<lparr>lf_c = c', lf_log = l @ ev\<rparr>"
| close_call: "close_begin c = Ret c' \<Longrightarrow> life_step net parse mr vr \<lparr>lf_c = c, lf_log = l\<rparr> \<lparr>lf_c = c', lf_log = l\<rparr>"
| closed: "close_end c = Some (c', ev) \<Longrightarrow> life_step net parse mr vr \<lparr>lf_c = c, lf_log = l\<rparr> \<lparr>lf_c = c', lf_log = l @ ev\<rparr>"
| cancel: "CtxCancel (nd_threadControl c) i = Some tc \<Longrightarrow>
    life_step net parse mr vr \<lparr>lf_c = c, lf_log = l\<rparr> \<lparr>lf_c = c\<lparr>nd_threadControl := tc\<rparr>, lf_log = l\<rparr>"
| ret: "thread_return (nd_threadControl c) i = Some tc \<Longrightarrow> Some i \<noteq> map_option nt_thread (nd_notifee c) \<Longrightarrow>
    life_step net parse mr vr \<lparr>lf_c = c, lf_log = l\<rparr> \<lparr>lf_c = c\<lparr>nd_threadControl := tc\<rparr>, lf_log = l\<rparr>"
| mdns: "mdns_next net c = Some (Ret (c', ev)) \<Longrightarrow> life_step net parse mr vr \<lparr>lf_c = c, lf_log = l\<rparr> \<lparr>lf_c = c', lf_log = l @ ev\<rparr>"
| mdns_end: "mdns_done c = Some c' \<Longrightarrow> life_step net parse mr vr \<lparr>lf_c = c, lf_log = l\<rparr> \<lparr>lf_c = c', lf_log = l\<rparr>"
| found: "mdns_active l \<Longrightarrow> nd_notifee c = Some m \<Longrightarrow> HandlePeerFound ctxDone m p = Ret m' \<Longrightarrow>
    life_step net parse mr vr \<lparr>lf_c = c, lf_log = l\<rparr> \<lparr>lf_c = c\<lparr>nd_notifee := Some m'\<rparr>, lf_log = l\<rparr>"

section \<open>The queue of notifications\<close>

definition mdns_put :: "'ai mdnsNotifee \<Rightarrow> 'ai \<Rightarrow> 'ai mdnsNotifee \<times> bool" where
  "mdns_put m p = (case HandlePeerFound False m p of
      Ret m' \<Rightarrow> (m', length (nt_q m) < length (nt_q m')) | Panic x \<Rightarrow> (m, False))"

interpretation mdns_box: mailbox mdns_put mdns_take nt_q "\<lambda>m. if nt_closed m then 0 else 32"
  by unfold_locales (auto simp: mdns_put_def HandlePeerFound_def mdns_take_def split: if_splits)

text \<open>Peers are taken in the order of the notifications that were kept, at most 32 behind.\<close>

lemma mdns_in_order:
  "mbox_run mdns_put mdns_take ops \<lparr>nt_q = [], nt_closed = False, nt_thread = i\<rparr> = (m, acc, got)
    \<Longrightarrow> prefix got acc \<and> length acc \<le> length got + 32"
  using mdns_box.run_prefix [of ops "\<lparr>nt_q = [], nt_closed = False, nt_thread = i\<rparr>" m acc got] by simp

section \<open>Lemmas\<close>

abbreviation nd_tc :: "('ai, 'h, 'dht, 'mdns, 're, 'tr, 'ps, 'top, 'sub, 'fn) Controller \<Rightarrow> threadControl" where
  "nd_tc c \<equiv> nd_threadControl c"

text \<open>Operations that only start goroutines.\<close>

definition grows :: "('ai, 'h, 'dht, 'mdns, 're, 'tr, 'ps, 'top, 'sub, 'fn) Controller
    \<Rightarrow> ('ai, 'h, 'dht, 'mdns, 're, 'tr, 'ps, 'top, 'sub, 'fn) Controller \<Rightarrow> bool" where
  "grows c c' \<longleftrightarrow> (\<exists>k. c' = c\<lparr>nd_threadControl := (Go ^^ k) (nd_tc c)\<rparr>)"

lemma grows_refl [simp]: "grows c c"
  unfolding grows_def by (rule exI [of _ 0]) simp

lemma grows_Go [simp]: "grows c (c\<lparr>nd_threadControl := Go (nd_tc c)\<rparr>)"
  unfolding grows_def by (rule exI [of _ 1]) simp

lemma grows_trans: "grows a b \<Longrightarrow> grows b c \<Longrightarrow> grows a c"
proof -
  assume "grows a b" "grows b c"
  then obtain k l where "b = a\<lparr>nd_threadControl := (Go ^^ k) (nd_tc a)\<rparr>" "c = b\<lparr>nd_threadControl := (Go ^^ l) (nd_tc b)\<rparr>"
    unfolding grows_def by blast
  then show "grows a c" unfolding grows_def by (intro exI [of _ "l + k"]) (simp add: funpow_add)
qed

lemma connect_grows: "connect net c b = Ret (c', ev) \<Longrightarrow> grows c c' \<and> set ev \<subseteq> {Dial b}"
  by (auto simp: connect_def split: option.splits if_splits)

lemma connect_loop_grows:
  "connect_loop net c bs = Ret (c', ev) \<Longrightarrow> grows c c' \<and> set ev \<subseteq> Dial ` set bs"
proof (induction bs arbitrary: c c' ev)
  case (Cons b bs)
  then obtain c1 e1 e2 where "connect net c b = Ret (c1, e1)" "connect_loop net c1 bs = Ret (c', e2)" "ev = e1 @ e2"
    by (auto simp: go_bind_eq_Ret_iff)
  with connect_grows [OF this(1)] Cons.IH [OF this(2)] show ?case by (auto intro: grows_trans)
qed simp

lemma start_discovery_grows:
  assumes "start_discovery net parse c = Ret (c', ev)"
  shows "grows c c' \<and> set ev \<subseteq> insert DhtBootstrapped (range Dial)"
  using assms connect_loop_grows
  by (fastforce simp: start_discovery_def go_bind_eq_Ret_iff split: option.splits sum.splits)

lemma start_fn_grows:
  assumes "start_fn net parse mr vr c = Ret (c', ev)"
  shows "grows c c' \<and> set ev \<inter> {DhtClosed, MdnsClosed, HostClosed} = {} \<and> (MdnsStarted \<in> set ev \<longleftrightarrow> nd_mdnsSvc c \<noteq> None)"
proof -
  define c1 where "c1 = (if mr then c\<lparr>nd_threadControl := Go (nd_tc c)\<rparr> else c)"
  define c2 where "c2 = (if vr then c1\<lparr>nd_threadControl := Go (nd_tc c1)\<rparr> else c1)"
  have "go_bind (start_discovery net parse c2) (\<lambda>(c, ev'). Ret (c, ((if mr then [MsgRouterLoop] else [])
      @ (if vr then [ValRouterLoop] else [])) @ ev' @ (if nd_mdnsSvc c \<noteq> None then [MdnsStarted] else []))) = Ret (c', ev)"
    using assms unfolding start_fn_def Let_def c1_def c2_def .
  then obtain ev' where d: "start_discovery net parse c2 = Ret (c', ev')"
    and ev: "ev = (if mr then [MsgRouterLoop] else []) @ (if vr then [ValRouterLoop] else []) @ ev'
      @ (if nd_mdnsSvc c' \<noteq> None then [MdnsStarted] else [])"
    by (auto simp: go_bind_eq_Ret_iff)
  have "grows c c1" "grows c1 c2" by (simp_all add: c1_def c2_def)
  with start_discovery_grows [OF d] have g: "grows c c'" by (blast intro: grows_trans)
  moreover from g have "nd_mdnsSvc c' = nd_mdnsSvc c" by (auto simp: grows_def)
  ultimately show ?thesis using start_discovery_grows [OF d] by (auto simp: ev)
qed

lemma Start_cases:
  assumes "Start net parse mr vr c = Ret (c', ev)"
  obtains "so_start (nd_once c)" "c' = c" "ev = []"
  | c1 where "\<not> so_start (nd_once c)" "start_fn net parse mr vr c = Ret (c1, ev)"
      "c' = c1\<lparr>nd_once := (nd_once c)\<lparr>so_start := True\<rparr>\<rparr>"
  using assms by (cases "so_start (nd_once c)") (auto simp: Start_def StartOnce_def go_bind_eq_Ret_iff)

lemma close_begin_cases:
  assumes "close_begin c = Ret c'"
  obtains "so_stop (nd_once c)" "c' = c"
  | tc where "\<not> so_stop (nd_once c)" "nd_host c \<noteq> None" "Close (nd_tc c) = Ret tc"
      "c' = c\<lparr>nd_threadControl := tc, nd_once := (nd_once c)\<lparr>so_stop := True\<rparr>\<rparr>"
  using assms
  by (cases "so_stop (nd_once c)") (auto simp: close_begin_def StopOnce_def go_bind_eq_Ret_iff split: option.splits)

lemma Go_funpow [simp]:
  "tc_stop ((Go ^^ k) tc) = tc_stop tc" "tc_closing ((Go ^^ k) tc) = tc_closing tc"
  "length (tc_threads ((Go ^^ k) tc)) = k + length (tc_threads tc)"
  by (induction k) (simp_all add: Go_def)

lemma Go_funpow_inv: "tc_inv tc \<Longrightarrow> tc_inv ((Go ^^ k) tc)"
  by (induction k) (auto intro: tc_step_inv tc_step.start)

text \<open>What holds in every run: the log says what was closed, and the notifications know their goroutine.\<close>

definition notifee_ok :: "'ai mdnsNotifee \<Rightarrow> threadControl \<Rightarrow> bool" where
  "notifee_ok m tc \<longleftrightarrow> nt_thread m < length (tc_threads tc) \<and> (nt_closed m \<longrightarrow> tc_stop tc) \<and> length (nt_q m) \<le> 32"

definition life_inv :: "(('ai, 'h, 'dht, 'mdns, 're, 'tr, 'ps, 'top, 'sub, 'fn) Controller, 'ai) life \<Rightarrow> bool" where
  "life_inv s \<longleftrightarrow> (let c = lf_c s; tc = nd_tc c; l = lf_log s in
     tc_inv tc \<and> so_stop (nd_once c) = tc_stop tc \<and> (nd_notifee c = None \<longleftrightarrow> nd_mdnsSvc c = None)
     \<and> (\<forall>m. nd_notifee c = Some m \<longrightarrow> notifee_ok m tc)
     \<and> (MdnsClosed \<in> set l \<longleftrightarrow> tc_closing tc = Closed \<and> nd_mdnsSvc c \<noteq> None)
     \<and> (HostClosed \<in> set l \<longleftrightarrow> tc_closing tc = Closed))"

lemma life_inv_new:
  assumes "NewController lib cfg = (c, None)"
  shows "life_inv \<lparr>lf_c = c, lf_log = []\<rparr>"
  using assms
proof (rule NewController_success)
  assume "nd_once c = \<lparr>so_start = False, so_stop = False\<rparr>"
    "nd_threadControl c = (if cfg_MdnsTag cfg = [] then NewThreadControl else Go NewThreadControl)"
    "nd_notifee c = (if cfg_MdnsTag cfg = [] then None else Some \<lparr>nt_q = [], nt_closed = False, nt_thread = 0\<rparr>)"
  moreover fix h assume "nd_mdnsSvc c = (if cfg_MdnsTag cfg = [] then None else Some (sl_NewMdnsService lib h (cfg_MdnsTag cfg)))"
  moreover have "tc_inv NewThreadControl" by (rule tc_reachable_inv) simp
  ultimately show ?thesis
    using Go_funpow_inv [of NewThreadControl 1]
    by (simp add: life_inv_def notifee_ok_def NewThreadControl_def Go_def)
qed

text \<open>A group that grew, or that made a step which is not a new goroutine.\<close>

lemma notifee_ok_mono:
  assumes "notifee_ok m tc" "tc_stop tc \<longrightarrow> tc_stop tc'" "length (tc_threads tc) \<le> length (tc_threads tc')"
  shows "notifee_ok m tc'"
  using assms by (auto simp: notifee_ok_def)

lemma life_inv_grows:
  assumes "life_inv \<lparr>lf_c = c, lf_log = l\<rparr>" "grows c c'" "{MdnsClosed, HostClosed} \<inter> set ev = {}"
    and "\<exists>st. c'' = c'\<lparr>nd_once := (nd_once c)\<lparr>so_start := st\<rparr>\<rparr>"
  shows "life_inv \<lparr>lf_c = c'', lf_log = l @ ev\<rparr>"
  using assms Go_funpow_inv by (auto simp: life_inv_def grows_def Let_def intro: notifee_ok_mono)

lemma grows_once: "grows c c' \<Longrightarrow> c' = c'\<lparr>nd_once := (nd_once c)\<lparr>so_start := so_start (nd_once c)\<rparr>\<rparr>"
  by (auto simp: grows_def)

lemma mdns_next_cases:
  assumes "mdns_next net c = Some (Ret (c', ev))"
  obtains m p q where "nd_notifee c = Some m" "tc_threads (nd_tc c) ! nt_thread m \<noteq> Finished" "nt_q m = p # q"
    "connect net (c\<lparr>nd_notifee := Some (m\<lparr>nt_q := q\<rparr>)\<rparr>) p = Ret (c', ev)"
  using assms by (auto simp: mdns_next_def mdns_take_def split: option.splits if_splits list.splits)

lemma mdns_done_cases:
  assumes "mdns_done c = Some c'"
  obtains m tc where "nd_notifee c = Some m" "tc_threads (nd_tc c) ! nt_thread m = Live True"
    "thread_return (nd_tc c) (nt_thread m) = Some tc"
    "c' = c\<lparr>nd_threadControl := tc, nd_notifee := Some (m\<lparr>nt_closed := True\<rparr>)\<rparr>"
  using assms by (auto simp: mdns_done_def split: option.splits if_splits)

lemma life_inv_tc:
  assumes "life_inv \<lparr>lf_c = c, lf_log = l\<rparr>" "tc_step (nd_tc c) tc" "tc_stop tc = tc_stop (nd_tc c)"
    "tc_closing tc = tc_closing (nd_tc c)" "length (tc_threads tc) = length (tc_threads (nd_tc c))"
  shows "life_inv \<lparr>lf_c = c\<lparr>nd_threadControl := tc\<rparr>, lf_log = l\<rparr>"
  using assms tc_step_inv [OF assms(2)] by (auto simp: life_inv_def Let_def intro: notifee_ok_mono)

lemma life_inv_notifee:
  assumes "life_inv \<lparr>lf_c = c, lf_log = l\<rparr>" "nd_notifee c \<noteq> None" "notifee_ok m (nd_tc c)"
  shows "life_inv \<lparr>lf_c = c\<lparr>nd_notifee := Some m\<rparr>, lf_log = l\<rparr>"
  using assms by (auto simp: life_inv_def Let_def)

lemma life_step_inv:
  assumes "life_step net parse mr vr s s'" "life_inv s"
  shows "life_inv s'"
  using assms(1)
proof (cases rule: life_step.cases)
  case (start c c' ev l)
  from start(3) show ?thesis
  proof (cases rule: Start_cases)
    case 1
    with start assms(2) show ?thesis by simp
  next
    case (2 c1)
    with start_fn_grows [OF 2(2)] have g: "grows c c1" "{MdnsClosed, HostClosed} \<inter> set ev = {}" by auto
    show ?thesis using assms(2) 2(3) unfolding start by (intro life_inv_grows [OF _ g]) auto
  qed
next
  case (close_call c c' l)
  from close_call(3) show ?thesis
  proof (cases rule: close_begin_cases)
    case 1
    with close_call assms(2) show ?thesis by simp
  next
    case (2 tc)
    from 2(3) have "tc_step (nd_tc c) tc" by (rule tc_step.close)
    from tc_step_inv [OF this] 2 assms(2) show ?thesis unfolding close_call
      by (auto simp: life_inv_def Let_def Close_def notifee_ok_def tc_inv_def split: if_splits)
  qed
next
  case (closed c c' ev l)
  then obtain tc where tc: "close_wait (nd_tc c) = Some tc" "c' = c\<lparr>nd_threadControl := tc\<rparr>"
      "ev = (if nd_dht c \<noteq> None then [DhtClosed] else []) @ (if nd_mdnsSvc c \<noteq> None then [MdnsClosed] else []) @ [HostClosed]"
    by (auto simp: close_end_def)
  from tc_step_inv [OF tc_step.wait [OF tc(1)]] tc assms(2) show ?thesis unfolding closed
    by (auto simp: life_inv_def Let_def close_wait_def notifee_ok_def split: if_splits)
next
  case (cancel c i tc l)
  from assms(2) cancel(3) show ?thesis unfolding cancel(1,2)
    by (intro life_inv_tc tc_step.cancel) (auto elim: CtxCancel_SomeE)
next
  case (ret c i tc l)
  from assms(2) ret(3) show ?thesis unfolding ret(1,2)
    by (intro life_inv_tc tc_step.ret) (auto elim: thread_return_SomeE)
next
  case (mdns c c' ev l)
  from mdns(3) show ?thesis
  proof (cases rule: mdns_next_cases)
    case (1 m p q)
    define c0 where "c0 = c\<lparr>nd_notifee := Some (m\<lparr>nt_q := q\<rparr>)\<rparr>"
    from 1 assms(2) have i: "life_inv \<lparr>lf_c = c0, lf_log = l\<rparr>" unfolding mdns c0_def
      by (intro life_inv_notifee) (auto simp: life_inv_def Let_def notifee_ok_def)
    from connect_grows [OF 1(4)] have g: "grows c0 c'" "{MdnsClosed, HostClosed} \<inter> set ev = {}"
      by (auto simp: c0_def)
    show ?thesis unfolding mdns by (rule life_inv_grows [OF i g]) (use grows_once [OF g(1)] in blast)
  qed
next
  case (mdns_end c c' l)
  from mdns_end(3) show ?thesis
  proof (cases rule: mdns_done_cases)
    case (1 m tc)
    from 1(3) have tc: "tc_step (nd_tc c) tc" "tc_stop tc = tc_stop (nd_tc c)" "tc_closing tc = tc_closing (nd_tc c)"
        "length (tc_threads tc) = length (tc_threads (nd_tc c))"
      by (auto intro: tc_step.ret elim: thread_return_SomeE)
    have i: "life_inv \<lparr>lf_c = c\<lparr>nd_threadControl := tc\<rparr>, lf_log = l\<rparr>"
      using assms(2) tc unfolding mdns_end by (rule life_inv_tc)
    have "Live True \<in> set (tc_threads (nd_tc c))"
      using 1(2,3) by (auto elim!: thread_return_SomeE simp: in_set_conv_nth)
    with assms(2) have "tc_stop (nd_tc c)" by (auto simp: mdns_end life_inv_def Let_def tc_inv_def)
    with tc(2,4) 1(1) assms(2) have "notifee_ok (m\<lparr>nt_closed := True\<rparr>) tc"
      by (simp add: mdns_end life_inv_def notifee_ok_def Let_def)
    with life_inv_notifee [OF i, of "m\<lparr>nt_closed := True\<rparr>"] 1(1) show ?thesis unfolding mdns_end 1(4) by simp
  qed
next
  case (found l c m ctxDone p m')
  from found(5) have "nt_thread m' = nt_thread m \<and> nt_closed m' = nt_closed m
      \<and> (length (nt_q m) \<le> 32 \<longrightarrow> length (nt_q m') \<le> 32)"
    by (auto simp: HandlePeerFound_def split: if_splits)
  moreover from found(4) assms(2) have "notifee_ok m (nd_tc c)" "life_inv \<lparr>lf_c = c, lf_log = l\<rparr>"
    by (simp_all add: found(1) life_inv_def Let_def)
  ultimately show ?thesis
    unfolding found(2) using found(4) by (intro life_inv_notifee) (simp_all add: notifee_ok_def)
qed

lemma life_reachable:
  "(life_step net parse mr vr)\<^sup>*\<^sup>* s s' \<Longrightarrow> life_inv s \<Longrightarrow> life_inv s'"
  by (induction rule: rtranclp_induct) (auto intro: life_step_inv)

text \<open>Once \<open>Close\<close> has returned, a started controller does not move any more.\<close>

definition closing_log :: "('ai, 'h, 'dht, 'mdns, 're, 'tr, 'ps, 'top, 'sub, 'fn) Controller \<Rightarrow> 'ai life_event list" where
  "closing_log c = (if nd_dht c \<noteq> None then [DhtClosed] else []) @ (if nd_mdnsSvc c \<noteq> None then [MdnsClosed] else []) @ [HostClosed]"

definition life_done :: "(('ai, 'h, 'dht, 'mdns, 're, 'tr, 'ps, 'top, 'sub, 'fn) Controller, 'ai) life \<Rightarrow> bool" where
  "life_done s \<longleftrightarrow> so_start (nd_once (lf_c s)) \<and> (tc_closing (nd_tc (lf_c s)) = Closed \<longrightarrow>
     set (tc_threads (nd_tc (lf_c s))) \<subseteq> {Finished} \<and> (\<exists>pre. lf_log s = pre @ closing_log (lf_c s)))"

lemma finished_stuck:
  assumes "set (tc_threads tc) \<subseteq> {Finished}"
  shows "CtxCancel tc i = None" "thread_return tc i = None" "i < length (tc_threads tc) \<Longrightarrow> tc_threads tc ! i = Finished"
proof -
  have f: "tc_threads tc ! i = Finished" if "i < length (tc_threads tc)" for i
    using assms nth_mem [OF that] by auto
  show "CtxCancel tc i = None" using f [of i] by (auto simp: CtxCancel_def)
  show "thread_return tc i = None" using f [of i] by (auto simp: thread_return_def)
  show "i < length (tc_threads tc) \<Longrightarrow> tc_threads tc ! i = Finished" by (rule f)
qed

lemma life_step_done:
  assumes "life_step net parse mr vr s s'" "life_inv s" "life_done s"
  shows "life_done s'"
proof -
  have move: "life_done s'" if "so_start (nd_once (lf_c s'))" "tc_closing (nd_tc (lf_c s')) \<noteq> Closed"
    using that by (simp add: life_done_def)
  have stuck: "set (tc_threads (nd_tc (lf_c s))) \<subseteq> {Finished}" if "tc_closing (nd_tc (lf_c s)) = Closed"
    using that assms(3) by (simp add: life_done_def)
  have st: "so_start (nd_once (lf_c s))" using assms(3) by (simp add: life_done_def)
  from assms(1) show ?thesis
  proof (cases rule: life_step.cases)
    case (start c c' ev l)
    with st assms(3) show ?thesis by (auto elim: Start_cases)
  next
    case (close_call c c' l)
    from close_call(3) show ?thesis
    proof (cases rule: close_begin_cases)
      case 1
      with close_call assms(3) show ?thesis by simp
    next
      case (2 tc)
      with close_call st show ?thesis by (intro move) (auto simp: Close_def split: if_splits)
    qed
  next
    case (closed c c' ev l)
    then have w: "close_wait (nd_tc c) \<noteq> None" by (auto simp: close_end_def)
    from assms(2) have "tc_inv (nd_tc c)" by (simp add: closed life_inv_def Let_def)
    with w have "set (tc_threads (nd_tc c)) \<subseteq> {Finished}"
      by (auto simp: close_wait_def tc_inv_def running_def filter_empty_conv split: if_splits)
    with closed st w show ?thesis
      by (auto simp: life_done_def close_end_def close_wait_def closing_log_def split: if_splits)
  next
    case (cancel c i tc l)
    have "tc_closing (nd_tc c) \<noteq> Closed" using stuck finished_stuck(1) [of "nd_tc c" i] cancel by auto
    with cancel st show ?thesis by (intro move) (auto elim: CtxCancel_SomeE)
  next
    case (ret c i tc l)
    have "tc_closing (nd_tc c) \<noteq> Closed" using stuck finished_stuck(2) [of "nd_tc c" i] ret by auto
    with ret st show ?thesis by (intro move) (auto elim: thread_return_SomeE)
  next
    case (mdns c c' ev l)
    from mdns(3) show ?thesis
    proof (cases rule: mdns_next_cases)
      case (1 m p q)
      from 1(1) assms(2) have "nt_thread m < length (tc_threads (nd_tc c))"
        by (simp add: mdns life_inv_def Let_def notifee_ok_def)
      with 1(2) stuck finished_stuck(3) [of "nd_tc c" "nt_thread m"] have "tc_closing (nd_tc c) \<noteq> Closed"
        by (auto simp: mdns)
      with connect_grows [OF 1(4)] st show ?thesis by (intro move) (auto simp: mdns grows_def)
    qed
  next
    case (mdns_end c c' l)
    from mdns_end(3) show ?thesis
    proof (cases rule: mdns_done_cases)
      case (1 m tc)
      have "tc_closing (nd_tc c) \<noteq> Closed"
        using stuck finished_stuck(2) [of "nd_tc c" "nt_thread m"] 1(3) by (auto simp: mdns_end)
      with 1 st show ?thesis by (intro move) (auto simp: mdns_end elim: thread_return_SomeE)
    qed
  next
    case (found l c m ctxDone p m')
    from found(3,4) assms(2) have "tc_closing (nd_tc c) \<noteq> Closed"
      by (auto simp: found(1) life_inv_def Let_def mdns_active_def)
    with found st show ?thesis by (intro move) simp_all
  qed
qed

text \<open>A controller with a host dials without a panic.\<close>

lemma connect_loop_host:
  "nd_host c \<noteq> None \<Longrightarrow> \<exists>c' ev. connect_loop net c bs = Ret (c', ev) \<and> nd_dht c' = nd_dht c"
proof (induction bs arbitrary: c)
  case (Cons b bs)
  from Cons.prems obtain h where "nd_host c = Some h" by blast
  then have "\<exists>c1 e1. connect net c b = Ret (c1, e1) \<and> nd_host c1 \<noteq> None \<and> nd_dht c1 = nd_dht c"
    by (simp add: connect_def)
  then obtain c1 e1 where "connect net c b = Ret (c1, e1)" "nd_host c1 \<noteq> None" "nd_dht c1 = nd_dht c" by blast
  with Cons.IH [of c1] show ?case by fastforce
qed simp

lemma start_discovery_panic:
  assumes "start_discovery net parse c = Panic x" "nd_host c \<noteq> None" "nd_dht c \<noteq> None \<longleftrightarrow> cfg_Discovery (nd_cfg c) \<noteq> None"
    and "\<And>dc. cfg_Discovery (nd_cfg c) = Some dc \<Longrightarrow> \<exists>bs. snd (parseDiscoveryConfig parse dc) = Inr bs"
  shows "\<exists>d e. nd_dht c = Some d \<and> nl_Bootstrap net d = Some e \<and> x = Explicit (''failed to start dht: '' @ e)"
proof -
  from assms(1) obtain dc where dc: "cfg_Discovery (nd_cfg c) = Some dc"
    by (auto simp: start_discovery_def split: option.splits)
  with assms(3,4) obtain bs d where bs: "snd (parseDiscoveryConfig parse dc) = Inr bs" "nd_dht c = Some d" by blast
  from connect_loop_host [OF assms(2)] obtain c' ev where "connect_loop net c bs = Ret (c', ev)" "nd_dht c' = Some d"
    using bs(2) by metis
  with assms(1) dc bs show ?thesis by (auto simp: start_discovery_def split: option.splits)
qed

section \<open>A run for examples\<close>

text \<open>A network in which no peer is connected and every call succeeds.\<close>

definition demo_net :: "(unit, nat, string) net_lib" where
  "demo_net = \<lparr>nl_Connectedness = (\<lambda>_ _. NotConnected), nl_Connect = (\<lambda>_ _. None), nl_Bootstrap = (\<lambda>_. None)\<rparr>"

lemma demo_ready:
  obtains c0 :: demo_ctrl and d where "NewController demo_lib (demo_config ''x'') = (c0, None)" "nd_host c0 = Some ()"
    "nd_dht c0 = Some d" "nd_mdnsSvc c0 = Some ''tag''" "nd_notifee c0 = Some \<lparr>nt_q = [], nt_closed = False, nt_thread = 0\<rparr>"
    "nd_once c0 = \<lparr>so_start = False, so_stop = False\<rparr>" "nd_tc c0 = Go NewThreadControl"
    "cfg_Discovery (nd_cfg c0) = Some \<lparr>dc_Mode = ModeServer, dc_Bootstrappers = [''b1''], dc_ProtocolPrefix = ''p2pmq''\<rparr>"
proof -
  obtain c0 :: demo_ctrl and e where c: "NewController demo_lib (demo_config ''x'') = (c0, e)" by fastforce
  with demo_controller(3) [OF c] have n: "NewController demo_lib (demo_config ''x'') = (c0, None)" by simp
  have dc: "cfg_Discovery (nd_cfg c0) = Some \<lparr>dc_Mode = ModeServer, dc_Bootstrappers = [''b1''], dc_ProtocolPrefix = ''p2pmq''\<rparr>"
    using n by (rule NewController_success) (simp add: share_defaults_def demo_config_def DiscoveryConfig_Defaults_def)
  from ready_facts [OF demo_routing n] dc have "nd_dht c0 \<noteq> None" by simp
  then obtain d where d: "nd_dht c0 = Some d" by blast
  have m: "cfg_MdnsTag (demo_config ''x'') = ''tag''" "sl_NewMdnsService demo_lib h t = t" for h t
    by (simp_all add: demo_config_def demo_lib_def)
  have "nd_mdnsSvc c0 = Some ''tag'' \<and> nd_notifee c0 = Some \<lparr>nt_q = [], nt_closed = False, nt_thread = 0\<rparr>
      \<and> nd_once c0 = \<lparr>so_start = False, so_stop = False\<rparr> \<and> nd_tc c0 = Go NewThreadControl"
    using n by (rule NewController_success) (simp add: m)
  with n d dc demo_controller(1) [OF n] show ?thesis by (intro that [of c0 d]) simp_all
qed

text \<open>The controller starts and is closed; the goroutine of the queue has returned, the one that dials has not.\<close>

lemma demo_closing:
  obtains c0 c1 c4 :: demo_ctrl and d where "NewController demo_lib (demo_config ''x'') = (c0, None)"
    "Start demo_net (sl_AddrInfoFromString demo_lib) False False c0 = Ret (c1, [Dial ''b1'', DhtBootstrapped, MdnsStarted])"
    "(life_step demo_net (sl_AddrInfoFromString demo_lib) False False)\<^sup>*\<^sup>*
       \<lparr>lf_c = c1, lf_log = [Dial ''b1'', DhtBootstrapped, MdnsStarted]\<rparr>
       \<lparr>lf_c = c4, lf_log = [Dial ''b1'', DhtBootstrapped, MdnsStarted]\<rparr>"
    "nd_notifee c4 = Some \<lparr>nt_q = [], nt_closed = True, nt_thread = 0\<rparr>"
    "nd_tc c4 = \<lparr>tc_threadsWG = 1, tc_stop = True, tc_threads = [Finished, Live False], tc_closing = Thread_Control.Waiting\<rparr>"
    "nd_mdnsSvc c4 = Some ''tag''" "nd_dht c4 = Some d"
proof -
  obtain c0 :: demo_ctrl and d where c0: "NewController demo_lib (demo_config ''x'') = (c0, None)" "nd_host c0 = Some ()"
    "nd_dht c0 = Some d" "nd_mdnsSvc c0 = Some ''tag''" "nd_notifee c0 = Some \<lparr>nt_q = [], nt_closed = False, nt_thread = 0\<rparr>"
    "nd_once c0 = \<lparr>so_start = False, so_stop = False\<rparr>" "nd_tc c0 = Go NewThreadControl"
    "cfg_Discovery (nd_cfg c0) = Some \<lparr>dc_Mode = ModeServer, dc_Bootstrappers = [''b1''], dc_ProtocolPrefix = ''p2pmq''\<rparr>"
    by (rule demo_ready)
  define l where "l = [Dial ''b1'', DhtBootstrapped, MdnsStarted]"
  define c1 where "c1 = c0\<lparr>nd_threadControl := Go (Go NewThreadControl), nd_once := \<lparr>so_start = True, so_stop = False\<rparr>\<rparr>"
  define c2 where "c2 = c1\<lparr>nd_threadControl := \<lparr>tc_threadsWG = 2, tc_stop = True, tc_threads = [Live False, Live False],
     tc_closing = Thread_Control.Waiting\<rparr>, nd_once := \<lparr>so_start = True, so_stop = True\<rparr>\<rparr>"
  define c3 where "c3 = c2\<lparr>nd_threadControl := (nd_tc c2)\<lparr>tc_threads := [Live True, Live False]\<rparr>\<rparr>"
  define c4 where "c4 = c3\<lparr>nd_threadControl := (nd_tc c3)\<lparr>tc_threads := [Finished, Live False], tc_threadsWG := 1\<rparr>,
     nd_notifee := Some \<lparr>nt_q = [], nt_closed = True, nt_thread = 0\<rparr>\<rparr>"
  have s: "Start demo_net (sl_AddrInfoFromString demo_lib) False False c0 = Ret (c1, l)"
    using c0 by (simp add: Start_def StartOnce_def start_fn_def start_discovery_def parseDiscoveryConfig_def demo_net_def
        demo_lib_def connect_def l_def c1_def)
  have "close_begin c1 = Ret c2"
    using c0 by (simp add: close_begin_def StopOnce_def Close_def c1_def c2_def Go_def NewThreadControl_def)
  from life_step.close_call [OF this] have t1: "life_step demo_net (sl_AddrInfoFromString demo_lib) False False
      \<lparr>lf_c = c1, lf_log = l\<rparr> \<lparr>lf_c = c2, lf_log = l\<rparr>" .
  have "CtxCancel (nd_tc c2) 0 = Some (nd_tc c3)" by (simp add: CtxCancel_def c2_def c3_def)
  from life_step.cancel [OF this] have t2: "life_step demo_net (sl_AddrInfoFromString demo_lib) False False
      \<lparr>lf_c = c2, lf_log = l\<rparr> \<lparr>lf_c = c3, lf_log = l\<rparr>" by (simp add: c3_def)
  have "mdns_done c3 = Some c4" using c0 by (simp add: mdns_done_def thread_return_def c1_def c2_def c3_def c4_def)
  from life_step.mdns_end [OF this] have t3: "life_step demo_net (sl_AddrInfoFromString demo_lib) False False
      \<lparr>lf_c = c3, lf_log = l\<rparr> \<lparr>lf_c = c4, lf_log = l\<rparr>" .
  from c0(1) s rtranclp_three [of "life_step _ _ _ _", OF t1 t2 t3] show ?thesis
    by (rule that [unfolded l_def [symmetric]]) (use c0 in \<open>simp_all add: c1_def c2_def c3_def c4_def\<close>)
qed

section \<open>Properties\<close>



text \<open>a notification can hit the closed queue only while the controller is closing.  When, in any run after a
  construction without an error, a notification of the mDNS service panics, it is a send on the closed
  channel, \<open>Close\<close> has been called and is still waiting for goroutines, and the context given to the
  constructor is not done.\<close>

theorem mdns_panic_only_while_closing:
  fixes c0 :: "('ai, 'h, 'dht, 'mdns, 're, 'tr, 'ps, 'top, 'sub, 'fn) Controller"
  assumes "NewController lib cfg = (c0, None)" and "(life_step net parse mr vr)\<^sup>*\<^sup>* \<lparr>lf_c = c0, lf_log = []\<rparr> s"
    and "mdns_active (lf_log s)" and "nd_notifee (lf_c s) = Some m" and "HandlePeerFound ctxDone m p = Panic x"
  shows "x = SendOnClosedChannel \<and> \<not> ctxDone \<and> tc_closing (nd_threadControl (lf_c s)) = Thread_Control.Waiting"
proof -
  from assms(5) have x: "x = SendOnClosedChannel" "\<not> ctxDone" "nt_closed m"
    by (auto simp: HandlePeerFound_def split: if_splits)
  have i: "life_inv s" using life_reachable [OF assms(2) life_inv_new [OF assms(1)]] .
  with x(3) assms(4) have "tc_stop (nd_tc (lf_c s))" by (simp add: life_inv_def Let_def notifee_ok_def)
  with i have "tc_closing (nd_tc (lf_c s)) \<noteq> Open" by (simp add: life_inv_def Let_def tc_inv_def)
  moreover from i assms(3,4) have "tc_closing (nd_tc (lf_c s)) \<noteq> Closed"
    by (auto simp: life_inv_def Let_def mdns_active_def)
  ultimately show ?thesis using x by (cases "tc_closing (nd_tc (lf_c s))") simp_all
qed

theorem mdns_panic_only_while_closing_witness:
  "\<exists>(c0 :: demo_ctrl) s m. NewController demo_lib (demo_config ''x'') = (c0, None)
    \<and> (life_step demo_net (sl_AddrInfoFromString demo_lib) False False)\<^sup>*\<^sup>* \<lparr>lf_c = c0, lf_log = []\<rparr> s
    \<and> nd_notifee (lf_c s) = Some m \<and> HandlePeerFound False m ''peer'' = Panic SendOnClosedChannel
    \<and> tc_closing (nd_threadControl (lf_c s)) = Thread_Control.Waiting"
proof (rule demo_closing)
  fix c0 c1 c4 :: demo_ctrl and d
  let ?l = "[Dial ''b1'', DhtBootstrapped, MdnsStarted]"
    and ?step = "life_step demo_net (sl_AddrInfoFromString demo_lib) False False"
  assume n: "NewController demo_lib (demo_config ''x'') = (c0, None)"
    and s: "Start demo_net (sl_AddrInfoFromString demo_lib) False False c0 = Ret (c1, ?l)"
    and r: "?step\<^sup>*\<^sup>* \<lparr>lf_c = c1, lf_log = ?l\<rparr> \<lparr>lf_c = c4, lf_log = ?l\<rparr>"
    and c4: "nd_notifee c4 = Some \<lparr>nt_q = [], nt_closed = True, nt_thread = 0\<rparr>"
  from life_step.start [OF s, of "[]"] r have t: "?step\<^sup>*\<^sup>* \<lparr>lf_c = c0, lf_log = []\<rparr> \<lparr>lf_c = c4, lf_log = ?l\<rparr>"
    by (simp add: converse_rtranclp_into_rtranclp)
  have p: "HandlePeerFound False \<lparr>nt_q = [], nt_closed = True, nt_thread = 0\<rparr> ''peer'' = Panic SendOnClosedChannel"
    by (simp add: HandlePeerFound_def)
  have "mdns_active ?l" by (simp add: mdns_active_def)
  with mdns_panic_only_while_closing [OF n t _ _ p] c4 n t p show ?thesis
    by (intro exI [of _ c0] exI [of _ "\<lparr>lf_c = c4, lf_log = ?l\<rparr>"] exI conjI) (assumption | simp)+
qed

text \<open>a controller that was constructed can be started.  After a construction without an error, the only way
  in which \<open>Start\<close> can panic is that the DHT refuses to bootstrap: the bootstrappers parse again and the
  DHT is there.\<close>

theorem start_after_setup:
  assumes "routing_called lib" and "NewController lib cfg = (c, None)"
    and "Start net (sl_AddrInfoFromString lib) mr vr c = Panic x"
  shows "\<exists>d e. nd_dht c = Some d \<and> nl_Bootstrap net d = Some e \<and> x = Explicit (''failed to start dht: '' @ e)"
proof -
  obtain h where h: "nd_host c = Some h" "nd_once c = \<lparr>so_start = False, so_stop = False\<rparr>"
    using assms(2) by (rule NewController_success)
  define c1 where "c1 = (if mr then c\<lparr>nd_threadControl := Go (nd_tc c)\<rparr> else c)"
  define c2 where "c2 = (if vr then c1\<lparr>nd_threadControl := Go (nd_tc c1)\<rparr> else c1)"
  have eq: "nd_host c2 = nd_host c" "nd_dht c2 = nd_dht c" "nd_cfg c2 = nd_cfg c" by (simp_all add: c1_def c2_def)
  have "start_fn net (sl_AddrInfoFromString lib) mr vr c = Panic x"
    using assms(3) h(2) by (auto simp: Start_def StartOnce_def go_bind_eq_Panic_iff)
  then have "start_discovery net (sl_AddrInfoFromString lib) c2 = Panic x"
    unfolding start_fn_def Let_def c1_def [symmetric] c2_def [symmetric] by (auto simp: go_bind_eq_Panic_iff)
  from start_discovery_panic [OF this] ready_facts [OF assms(1,2)] h(1) show ?thesis unfolding eq by blast
qed

theorem start_after_setup_witness:
  "\<exists>(c :: demo_ctrl) d. NewController demo_lib (demo_config ''x'') = (c, None) \<and> nd_dht c = Some d
    \<and> Start (demo_net\<lparr>nl_Bootstrap := (\<lambda>_. Some ''no peers'')\<rparr>) (sl_AddrInfoFromString demo_lib) True True c
        = Panic (Explicit (''failed to start dht: '' @ ''no peers''))"
proof (rule demo_ready)
  fix c :: demo_ctrl and d
  let ?net = "demo_net\<lparr>nl_Bootstrap := (\<lambda>_. Some ''no peers'')\<rparr>"
  assume n: "NewController demo_lib (demo_config ''x'') = (c, None)" and c: "nd_host c = Some ()" "nd_dht c = Some d"
    "nd_once c = \<lparr>so_start = False, so_stop = False\<rparr>" "cfg_Discovery (nd_cfg c) = Some \<lparr>dc_Mode = ModeServer,
       dc_Bootstrappers = [''b1''], dc_ProtocolPrefix = ''p2pmq''\<rparr>"
  have "\<exists>x. Start ?net (sl_AddrInfoFromString demo_lib) True True c = Panic x"
    using c by (simp add: Start_def StartOnce_def start_fn_def start_discovery_def parseDiscoveryConfig_def demo_net_def
        demo_lib_def connect_def)
  then obtain x where x: "Start ?net (sl_AddrInfoFromString demo_lib) True True c = Panic x" ..
  from start_after_setup [OF demo_routing n x] n c x show ?thesis by auto
qed

end
