(* ===== verification/Cmd_Boot.thy ===== *)
theory Cmd_Boot
  imports Ctrl_Life Validation_Path Grpc_Services
begin

text \<open>
  The boot sequence of the command (\<open>cmd/pmq/main.go\<close>): configuration, the two routers, the controller, the
  gRPC services, \<open>RefreshRouters\<close>, \<open>Start\<close>.  Everything runs on one goroutine, so a call that blocks
  before the first loop of a router runs blocks the process for good.
\<close>

section \<open>The sequence\<close>

text \<open>The handlers of the command: the first ones and the message handler leave the result or accept.\<close>

definition msg_handler :: "(ps_message, err) handler" where "msg_handler m r r' \<longleftrightarrow> r' = r"

definition accept_handler :: "(ps_message, psResult) handler" where "accept_handler m r r' \<longleftrightarrow> r' = ValidationAccept"

text \<open>\<open>RefreshRouters\<close> with both routers: the validation router first.  \<open>None\<close> is a call that never returns.\<close>

definition RefreshRouters :: "('ai, 'h, 'dht, 'mdns, 're, 'tr, 'ps, 'top, 'sub, 'fn) Controller
    \<Rightarrow> ('m, 'e) msgRouter \<Rightarrow> ('m, 'v) msgRouter \<Rightarrow> ('m, 'e) handler \<Rightarrow> ('m, 'v) handler
    \<Rightarrow> (('ai, 'h, 'dht, 'mdns, 're, 'tr, 'ps, 'top, 'sub, 'fn) Controller \<times> ('m, 'e) msgRouter \<times> ('m, 'v) msgRouter) option" where
  "RefreshRouters c msgRouter valRouter msgHandler valHandler =
     (case refresh_router valRouter valHandler of
        None \<Rightarrow> None
      | Some valRouter \<Rightarrow>
          (let c = c\<lparr>nd_threadControl := Go (nd_threadControl c)\<rparr> in
           case refresh_router msgRouter msgHandler of
             None \<Rightarrow> None
           | Some msgRouter \<Rightarrow> Some (c\<lparr>nd_threadControl := Go (nd_threadControl c)\<rparr>, msgRouter, valRouter)))"

record ('c, 's) booted =
  bt_ctrl :: 'c
  bt_msgRouter :: "(ps_message, err) msgRouter"
  bt_valRouter :: "(ps_message, psResult) msgRouter"
  bt_services :: "'s \<times> MsgRouterImpl \<times> ValidationRouterImpl"

text \<open>The command returns an error, hangs, or serves its gRPC services.\<close>

datatype 'b outcome = Failed string | Hangs | Serving 'b

text \<open>
  The action of the command.  \<open>V\<close> is the validation service as the installed handler meets it later.
\<close>

definition boot :: "('sk, 'cm, 'ai, 'h, 'dht, 'mdns, 're, 'tr, 'gs, 'ps) setup_lib \<Rightarrow> ('h, 'dht, 'ai) net_lib
    \<Rightarrow> (string \<Rightarrow> string + bytes) \<Rightarrow> (bytes \<Rightarrow> string + Config) \<Rightarrow> (bytes \<Rightarrow> string + Config)
    \<Rightarrow> ValidationRouterImpl \<Rightarrow> string
    \<Rightarrow> (('ai, 'h, 'dht, 'mdns, 're, 'tr, 'ps, 'top, 'sub, 'fn) Controller, ('ps option, 'top, 'sub, 'fn) ctrl) booted outcome go" where
  "boot lib net readFile yaml json V cfgPath =
     (if length cfgPath = 0 then Ret (Failed ''missing config file'')
      else (case ReadConfig readFile yaml json cfgPath of
        Inl e \<Rightarrow> Ret (Failed (''failed to read config file: '' @ e))
      | Inr cfg \<Rightarrow>
          go_bind (NewMsgRouter (cfg_MsgRouterQueueSize cfg) (cfg_MsgRouterWorkers cfg) msg_handler) (\<lambda>msgRouter.
          go_bind (NewMsgRouter (cfg_MsgRouterQueueSize cfg) (cfg_MsgRouterWorkers cfg) accept_handler) (\<lambda>valRouter.
          case NewController lib cfg of
            (ctrl, Some e) \<Rightarrow> Ret (Failed e)
          | (ctrl, None) \<Rightarrow>
              go_bind (NewServices (pubsub_view ctrl (nd_pubsub ctrl)) 128) (\<lambda>services.
              case RefreshRouters ctrl msgRouter valRouter msg_handler (val_handler V) of
                None \<Rightarrow> Ret Hangs
              | Some (ctrl, msgRouter, valRouter) \<Rightarrow>
                  go_bind (Ctrl_Life.Start net (sl_AddrInfoFromString lib) True True ctrl) (\<lambda>(ctrl, ev).
                  Ret (Serving \<lparr>bt_ctrl = ctrl, bt_msgRouter = Msg_Router.Start msgRouter,
                    bt_valRouter = Msg_Router.Start valRouter, bt_services = services\<rparr>)))))))"

text \<open>\<open>main\<close> itself: an error of the action panics.  What \<open>ListenGrpc\<close> returns later is not part of the model.\<close>

definition cmd_main :: "'b outcome go \<Rightarrow> 'b outcome go" where
  "cmd_main action = go_bind action (\<lambda>r. case r of Failed e \<Rightarrow> Panic (Explicit e) | _ \<Rightarrow> Ret r)"

section \<open>Lemmas\<close>

text \<open>A router that has just been made: without a buffer the refresh blocks, otherwise one nil is left in the queue.\<close>

lemma refresh_new_router:
  assumes "NewMsgRouter qSize workers h0 = Ret r"
  shows "qSize = 0 \<Longrightarrow> refresh_router r h = None"
    and "0 < qSize \<Longrightarrow> \<exists>r'. refresh_router r h = Some r' \<and> rt_loops r' = [Idle] \<and> rt_q r' = [None] \<and> rt_handler r' = h"
  using assms
  by (auto simp: NewMsgRouter_def refresh_router_def RefreshHandler_def refresh_send_def send_q_def refresh_finish_def
      Msg_Router.Start_def split: if_splits)

lemma running_Go [simp]: "running (Go tc) = Suc (running tc)" "running ((Go ^^ k) tc) = k + running tc"
proof -
  show *: "running (Go tc) = Suc (running tc)" for tc by (simp add: Go_def running_def)
  show "running ((Go ^^ k) tc) = k + running tc" by (induction k) (simp_all add: *)
qed

text \<open>The start of a controller whose DHT bootstraps: it does not panic, and it starts a loop for each router.\<close>

lemma start_ready:
  assumes "routing_called lib" "NewController lib cfg = (c, None)" "\<And>d. nl_Bootstrap net d = None"
  shows "\<exists>c' ev. Ctrl_Life.Start net (sl_AddrInfoFromString lib) True True (c\<lparr>nd_threadControl := tc\<rparr>) = Ret (c', ev)
    \<and> running (nd_threadControl c') \<ge> running tc + 2"
proof -
  define c2 where "c2 = c\<lparr>nd_threadControl := Go (Go tc)\<rparr>"
  obtain h where h: "nd_host c = Some h" "nd_once c = \<lparr>so_start = False, so_stop = False\<rparr>"
    using assms(2) by (rule NewController_success)
  have "start_discovery net (sl_AddrInfoFromString lib) c2 \<noteq> Panic x" for x
    using start_discovery_panic [of net "sl_AddrInfoFromString lib" c2 x] ready_facts [OF assms(1,2)] h(1) assms(3)
    by (auto simp: c2_def)
  then obtain c3 ev where d: "start_discovery net (sl_AddrInfoFromString lib) c2 = Ret (c3, ev)"
    by (cases "start_discovery net (sl_AddrInfoFromString lib) c2") auto
  then have "\<exists>c' ev. Ctrl_Life.Start net (sl_AddrInfoFromString lib) True True (c\<lparr>nd_threadControl := tc\<rparr>) = Ret (c', ev)
      \<and> nd_threadControl c' = nd_threadControl c3"
    using h(2) by (auto simp: Ctrl_Life.Start_def StartOnce_def start_fn_def c2_def)
  moreover from start_discovery_grows [OF d] obtain k where "nd_threadControl c3 = (Go ^^ k) (Go (Go tc))"
    by (auto simp: grows_def c2_def)
  ultimately show ?thesis by auto
qed

text \<open>The boot behind the controller, and its good case.\<close>

lemma boot_unfold:
  fixes lib :: "('sk, 'cm, 'ai, 'h, 'dht, 'mdns, 're, 'tr, 'gs, 'ps) setup_lib"
    and c :: "('ai, 'h, 'dht, 'mdns, 're, 'tr, 'ps, 'top, 'sub, 'fn) Controller"
  assumes "cfgPath \<noteq> []" "ReadConfig readFile yaml json cfgPath = Inr cfg" "NewController lib cfg = (c, None)"
    and "cfg_MsgRouterQueueSize cfg = q" "cfg_MsgRouterWorkers cfg = w"
  shows "boot lib net readFile yaml json V cfgPath = go_bind (NewMsgRouter q w msg_handler) (\<lambda>mr. go_bind (NewMsgRouter q w accept_handler) (\<lambda>vr.
      go_bind (NewServices (pubsub_view c (nd_pubsub c) :: ('ps option, 'top, 'sub, 'fn) ctrl) 128) (\<lambda>services.
        case RefreshRouters c mr vr msg_handler (val_handler V) of
          None \<Rightarrow> Ret Hangs
        | Some (ctrl, mr, vr) \<Rightarrow>
            go_bind (Ctrl_Life.Start net (sl_AddrInfoFromString lib) True True ctrl) (\<lambda>(ctrl, ev).
              Ret (Serving \<lparr>bt_ctrl = ctrl, bt_msgRouter = Msg_Router.Start mr,
                bt_valRouter = Msg_Router.Start vr, bt_services = services\<rparr>)))))"
  using assms by (simp add: boot_def)

lemma boot_serves:
  fixes lib :: "('sk, 'cm, 'ai, 'h, 'dht, 'mdns, 're, 'tr, 'gs, 'ps) setup_lib"
    and c :: "('ai, 'h, 'dht, 'mdns, 're, 'tr, 'ps, 'top, 'sub, 'fn) Controller"
  assumes "routing_called lib" "\<And>d. nl_Bootstrap net d = None" "cfgPath \<noteq> []" "ReadConfig readFile yaml json cfgPath = Inr cfg"
    and "NewController lib cfg = (c, None)" "0 < cfg_MsgRouterQueueSize cfg" "0 \<le> cfg_MsgRouterWorkers cfg"
  obtains b :: "(('ai, 'h, 'dht, 'mdns, 're, 'tr, 'ps, 'top, 'sub, 'fn) Controller, ('ps option, 'top, 'sub, 'fn) ctrl) booted"
  where "boot lib net readFile yaml json V cfgPath = Ret (Serving b)" "rt_handler (bt_valRouter b) = val_handler V"
    "rt_loops (bt_valRouter b) = [Idle, Idle]" "rt_q (bt_valRouter b) = [None]"
    "rt_loops (bt_msgRouter b) = [Idle, Idle]" "rt_q (bt_msgRouter b) = [None]" "4 \<le> running (nd_threadControl (bt_ctrl b))"
proof -
  let ?q = "cfg_MsgRouterQueueSize cfg" and ?w = "cfg_MsgRouterWorkers cfg"
  obtain mr vr where mv: "NewMsgRouter ?q ?w msg_handler = Ret mr" "NewMsgRouter ?q ?w accept_handler = Ret vr"
    using assms(6,7) by (simp add: NewMsgRouter_def)
  obtain sv where sv: "NewServices (pubsub_view c (nd_pubsub c) :: ('ps option, 'top, 'sub, 'fn) ctrl) 128 = Ret sv"
    by (simp add: NewServices_def NewMsgRouterServer_def)
  obtain mr' vr' where ref': "refresh_router mr msg_handler = Some mr'" "rt_loops mr' = [Idle]"
      "rt_q mr' = [None]" "refresh_router vr (val_handler V) = Some vr'" "rt_loops vr' = [Idle]" "rt_q vr' = [None]"
      "rt_handler vr' = val_handler V"
    using refresh_new_router(2) [OF mv(1) assms(6)] refresh_new_router(2) [OF mv(2) assms(6)] by metis
  from start_ready [OF assms(1,5,2), of "Go (Go (nd_threadControl c))"] obtain c' ev where
    st: "Ctrl_Life.Start net (sl_AddrInfoFromString lib) True True (c\<lparr>nd_threadControl := Go (Go (nd_threadControl c))\<rparr>) = Ret (c', ev)"
      "4 \<le> running (nd_threadControl c')"
    by auto
  show thesis
    by (rule that [of "\<lparr>bt_ctrl = c', bt_msgRouter = Msg_Router.Start mr', bt_valRouter = Msg_Router.Start vr', bt_services = sv\<rparr>"])
      (use assms(3-5) mv sv ref' st in \<open>simp_all add: boot_unfold RefreshRouters_def Msg_Router.Start_def\<close>)
qed

section \<open>Properties\<close>

text \<open>C25: the outcome of the boot.  When the configuration is read and the controller is made, the sizes of the
  configuration file, taken as they are, decide: a negative one panics; a queue size of zero, which is
  what a file that does not name it gives, hangs the process before it serves; and otherwise the command
  serves with a handler that asks the validation service, two loops for each router and one nil in
  each queue that will end one of them.\<close>

theorem boot_outcome:
  fixes lib :: "('sk, 'cm, 'ai, 'h, 'dht, 'mdns, 're, 'tr, 'gs, 'ps) setup_lib"
    and c :: "('ai, 'h, 'dht, 'mdns, 're, 'tr, 'ps, 'top, 'sub, 'fn) Controller"
  assumes "routing_called lib" and "\<And>d. nl_Bootstrap net d = None" and "cfgPath \<noteq> []" and "ReadConfig readFile yaml json cfgPath = Inr cfg"
    and "NewController lib cfg = (c, None)"
    and "cfg_MsgRouterQueueSize cfg = q" and "cfg_MsgRouterWorkers cfg = w"
    and "boot lib net readFile yaml json V cfgPath = (r ::
      (('ai, 'h, 'dht, 'mdns, 're, 'tr, 'ps, 'top, 'sub, 'fn) Controller, ('ps option, 'top, 'sub, 'fn) ctrl) booted outcome go)"
  shows "(q < 0 \<or> w < 0 \<longrightarrow> r = Panic (Explicit ''makechan: size out of range''))
    \<and> (q = 0 \<and> 0 \<le> w \<longrightarrow> r = Ret Hangs)
    \<and> (0 < q \<and> 0 \<le> w \<longrightarrow> (\<exists>b. r = Ret (Serving b) \<and> rt_handler (bt_valRouter b) = val_handler V
        \<and> rt_loops (bt_valRouter b) = [Idle, Idle] \<and> rt_q (bt_valRouter b) = [None]
        \<and> rt_loops (bt_msgRouter b) = [Idle, Idle] \<and> rt_q (bt_msgRouter b) = [None]
        \<and> 4 \<le> running (nd_threadControl (bt_ctrl b))))"
proof -
  note r = boot_unfold [OF assms(3-7), of net V, unfolded assms(8)]
  show ?thesis
  proof (cases "q < 0 \<or> w < 0")
    case True
    then show ?thesis by (auto simp: r NewMsgRouter_def)
  next
    case False
    then obtain mr vr where mv: "NewMsgRouter q w msg_handler = Ret mr" "NewMsgRouter q w accept_handler = Ret vr"
      by (simp add: NewMsgRouter_def)
    show ?thesis
    proof (cases "q = 0")
      case True
      obtain sv where "NewServices (pubsub_view c (nd_pubsub c) :: ('ps option, 'top, 'sub, 'fn) ctrl) 128 = Ret sv"
        by (simp add: NewServices_def NewMsgRouterServer_def)
      with False True mv refresh_new_router(1) [OF mv(2) True, of "val_handler V"] show ?thesis by (simp add: r RefreshRouters_def)
    next
      case q: False
      then have "0 < cfg_MsgRouterQueueSize cfg" "0 \<le> cfg_MsgRouterWorkers cfg" using False assms(6,7) by simp_all
      from boot_serves [OF assms(1-5) this, of V] obtain b :: "(('ai, 'h, 'dht, 'mdns, 're, 'tr, 'ps, 'top, 'sub, 'fn) Controller, ('ps option, 'top, 'sub, 'fn) ctrl) booted"
        where "r = Ret (Serving b)" "rt_handler (bt_valRouter b) = val_handler V" "rt_loops (bt_valRouter b) = [Idle, Idle]"
          "rt_q (bt_valRouter b) = [None]" "rt_loops (bt_msgRouter b) = [Idle, Idle]" "rt_q (bt_msgRouter b) = [None]"
          "4 \<le> running (nd_threadControl (bt_ctrl b))" unfolding assms(8) by metis
      with False q show ?thesis by auto
    qed
  qed
qed

theorem boot_outcome_witness:
  "(boot demo_lib demo_net (\<lambda>_. Inr []) (\<lambda>_. Inr (demo_config ''x'')) (\<lambda>_. Inr (demo_config ''x'')) (NewValidationRouterServer 1) ''p2pmq.json'' ::
      (demo_ctrl, (nat option, unit, unit, unit) ctrl) booted outcome go) = Ret Hangs
    \<and> cfg_MsgRouterQueueSize (demo_config ''x'') = 0"
proof (rule demo_ready)
  fix c :: demo_ctrl
  assume n: "NewController demo_lib (demo_config ''x'') = (c, None)"
  have "nl_Bootstrap demo_net d = None" for d by (simp add: demo_net_def)
  moreover have "ReadConfig (\<lambda>_. Inr []) (\<lambda>_. Inr (demo_config ''x'')) (\<lambda>_. Inr (demo_config ''x'')) ''p2pmq.json''
      = Inr (demo_config ''x'')" by (simp add: ReadConfig_def)
  moreover have "cfg_MsgRouterQueueSize (demo_config ''x'') = 0" "cfg_MsgRouterWorkers (demo_config ''x'') = 0"
    by (simp_all add: demo_config_def)
  ultimately show ?thesis using boot_outcome [OF demo_routing _ _ _ n _ _ refl, of demo_net] by auto
qed

end
