(* ===== verification/Bls_Gen.thy ===== *)
theory Bls_Gen
  imports Go_Strings
begin

text \<open>
  The split of a BLS key (\<open>examples/bls/gen.go\<close>): \<open>GenShares\<close> takes the secret and random coefficients as a
  polynomial and evaluates it at the identifiers 1 to \<open>count\<close>.  The BLS library is a parameter; its random
  source is the list of keys it returns.  The loop over the identifiers is on \<open>uint64\<close> and need not
  end, so it is a partial function: \<open>None\<close> is a call that does not return.
\<close>

section \<open>GenShares\<close>

record ('sk, 'pk, 'id) bls_lib =
  bl_SetDecString :: "string \<Rightarrow> string + 'id"
  bl_Set :: "'sk list \<Rightarrow> 'id \<Rightarrow> string + 'sk"
  bl_GetPublicKey :: "'sk \<Rightarrow> 'pk"

type_synonym ('sk, 'pk) shares = "(u64 \<Rightarrow> 'sk option) \<times> (u64 \<Rightarrow> 'pk option)"

text \<open>The key and its public key; \<open>k\<close> is what \<open>SetByCSPRNG\<close> draws.\<close>

definition GenBlsKey :: "('sk, 'pk, 'id) bls_lib \<Rightarrow> 'sk \<Rightarrow> 'sk \<times> 'pk" where
  "GenBlsKey lib k = (k, bl_GetPublicKey lib k)"

text \<open>
  \<open>make([]bls.SecretKey, threshold)\<close>, the secret at index 0 and the coefficients from index 1 on; \<open>rnd i\<close> is
  the i-th draw.  The memory that a large threshold below the limit of \<open>make\<close> would need is not modelled.
\<close>

definition gen_poly :: "('sk, 'pk, 'id) bls_lib \<Rightarrow> (nat \<Rightarrow> 'sk) \<Rightarrow> 'sk \<Rightarrow> u64 \<Rightarrow> 'sk list go" where
  "gen_poly lib rnd sk threshold =
     (if 2 ^ 63 \<le> unat threshold then Panic MakesliceLenOutOfRange
      else if threshold = 0 then Panic IndexOutOfRange
      else Ret (sk # map (\<lambda>i. fst (GenBlsKey lib (rnd i))) [1..<unat threshold]))"

text \<open>One iteration of the second loop.\<close>

definition gen_share :: "('sk, 'pk, 'id) bls_lib \<Rightarrow> 'sk list \<Rightarrow> u64 \<Rightarrow> string + 'sk" where
  "gen_share lib msk i =
     (case bl_SetDecString lib (show_u64 i) of
        Inl e \<Rightarrow> Inl e
      | Inr blsID \<Rightarrow> bl_Set lib msk blsID)"

partial_function (option) shares_loop :: "('sk, 'pk, 'id) bls_lib \<Rightarrow> 'sk list \<Rightarrow> u64 \<Rightarrow> u64 \<Rightarrow> ('sk, 'pk) shares
    \<Rightarrow> (string + ('sk, 'pk) shares) option" where
  "shares_loop lib msk count i s =
     (if i \<le> count then
        (case gen_share lib msk i of
           Inl e \<Rightarrow> Some (Inl e)
         | Inr sk \<Rightarrow> shares_loop lib msk count (i + 1) ((fst s)(i \<mapsto> sk), (snd s)(i \<mapsto> bl_GetPublicKey lib sk)))
      else Some (Inr s))"

definition GenShares :: "('sk, 'pk, 'id) bls_lib \<Rightarrow> (nat \<Rightarrow> 'sk) \<Rightarrow> 'sk \<Rightarrow> u64 \<Rightarrow> u64
    \<Rightarrow> ((string + ('sk, 'pk) shares) go) option" where
  "GenShares lib rnd sk threshold count =
     (case gen_poly lib rnd sk threshold of
        Panic p \<Rightarrow> Some (Panic p)
      | Ret msk \<Rightarrow> map_option Ret (shares_loop lib msk count 1 (\<lambda>_. None, \<lambda>_. None)))"

section \<open>Lemmas\<close>

lemma unat_next: "i \<le> (count :: u64) \<Longrightarrow> count \<noteq> - 1 \<Longrightarrow> unat (i + 1) = Suc (unat i)"
proof -
  assume a: "i \<le> count" "count \<noteq> - 1"
  have "1 + i \<noteq> 0"
  proof
    assume "1 + i = 0"
    then have "i = - 1" by (simp add: eq_neg_iff_add_eq_0 add.commute)
    with a show False by (simp add: word_order.extremum_unique)
  qed
  then show ?thesis using unatSuc [of i] by (simp add: add.commute)
qed

lemma next_le: "i \<le> (count :: u64) \<Longrightarrow> count \<noteq> - 1 \<Longrightarrow> i + 1 \<le> j \<longleftrightarrow> i < j"
  using unat_next [of i count] by (simp add: word_le_nat_alt word_less_nat_alt Suc_le_eq)

text \<open>What the loop makes of the maps \<open>s\<close> when it ends: the first error, or all shares from \<open>i\<close> on.\<close>

definition shares_result :: "('sk, 'pk, 'id) bls_lib \<Rightarrow> 'sk list \<Rightarrow> u64 \<Rightarrow> u64 \<Rightarrow> ('sk, 'pk) shares
    \<Rightarrow> string + ('sk, 'pk) shares \<Rightarrow> bool" where
  "shares_result lib msk count i s r \<longleftrightarrow> (case r of
      Inl e \<Rightarrow> \<exists>j. i \<le> j \<and> j \<le> count \<and> gen_share lib msk j = Inl e \<and> (\<forall>l. i \<le> l \<and> l < j \<longrightarrow> \<not> isl (gen_share lib msk l))
    | Inr t \<Rightarrow> \<forall>j. if i \<le> j \<and> j \<le> count
        then (\<exists>sk. gen_share lib msk j = Inr sk \<and> fst t j = Some sk \<and> snd t j = Some (bl_GetPublicKey lib sk))
        else fst t j = fst s j \<and> snd t j = snd s j)"

lemma shares_result_step:
  assumes "i \<le> count" "count \<noteq> - 1" "gen_share lib msk i = Inr sk"
    and "shares_result lib msk count (i + 1) ((fst s)(i \<mapsto> sk), (snd s)(i \<mapsto> bl_GetPublicKey lib sk)) r"
  shows "shares_result lib msk count i s r"
proof (cases r)
  case (Inl e)
  with assms(4) obtain j where j: "i < j" "j \<le> count" "gen_share lib msk j = Inl e"
      "\<forall>l. i < l \<and> l < j \<longrightarrow> \<not> isl (gen_share lib msk l)"
    by (auto simp: shares_result_def next_le [OF assms(1,2)])
  have "\<not> isl (gen_share lib msk l)" if "i \<le> l" "l < j" for l
    using that j(4) assms(3) by (cases "l = i") auto
  with j Inl show ?thesis by (auto simp: shares_result_def intro!: exI [of _ j])
next
  case (Inr t)
  have t: "if i < j \<and> j \<le> count
        then (\<exists>sk. gen_share lib msk j = Inr sk \<and> fst t j = Some sk \<and> snd t j = Some (bl_GetPublicKey lib sk))
        else fst t j = ((fst s)(i \<mapsto> sk)) j \<and> snd t j = ((snd s)(i \<mapsto> bl_GetPublicKey lib sk)) j" for j
    using assms(4) Inr by (simp add: shares_result_def next_le [OF assms(1,2)])
  have "if i \<le> j \<and> j \<le> count
        then (\<exists>sk. gen_share lib msk j = Inr sk \<and> fst t j = Some sk \<and> snd t j = Some (bl_GetPublicKey lib sk))
        else fst t j = fst s j \<and> snd t j = snd s j" for j
    using t [of j] assms(1,3) by (cases "j = i") (auto split: if_splits)
  with Inr show ?thesis by (simp add: shares_result_def)
qed

text \<open>With a count below the largest number the loop ends.\<close>

lemma shares_loop_ends:
  assumes "count \<noteq> - 1"
  shows "\<exists>r. shares_loop lib msk count i s = Some r \<and> shares_result lib msk count i s r"
proof (induction "Suc (unat count) - unat i" arbitrary: i s rule: less_induct)
  case less
  show ?case
  proof (cases "i \<le> count")
    case False
    then show ?thesis by (subst shares_loop.simps) (auto simp: shares_result_def)
  next
    case True
    show ?thesis
    proof (cases "gen_share lib msk i")
      case (Inl e)
      with True show ?thesis
        by (subst shares_loop.simps) (auto simp: shares_result_def intro!: exI [of _ i])
    next
      case (Inr sk)
      have "Suc (unat count) - unat (i + 1) < Suc (unat count) - unat i"
        using True unat_next [OF True assms] by (simp add: word_le_nat_alt)
      from less [OF this] obtain r where
        "shares_loop lib msk count (i + 1) ((fst s)(i \<mapsto> sk), (snd s)(i \<mapsto> bl_GetPublicKey lib sk)) = Some r"
        "shares_result lib msk count (i + 1) ((fst s)(i \<mapsto> sk), (snd s)(i \<mapsto> bl_GetPublicKey lib sk)) r" by blast
      with shares_result_step [OF True assms Inr] True Inr show ?thesis
        by (subst shares_loop.simps) auto
    qed
  qed
qed

text \<open>With the largest count the condition of the loop never fails, so only an error ends it.\<close>

lemma shares_loop_max:
  assumes "shares_loop lib msk count i s = Some r"
  shows "count = - 1 \<longrightarrow> (\<exists>j e. gen_share lib msk j = Inl e)"
  by (rule shares_loop.raw_induct [OF _ assms]) (auto split: sum.splits if_splits)

section \<open>Properties\<close>

text \<open>C31: the split of a key ends and gives a share to every identifier.  With a positive threshold that can be
  allocated and a count below the largest \<open>uint64\<close>, \<open>GenShares\<close> returns: either the error of the first
  identifier that the library refuses, or maps whose keys are exactly 1 to \<open>count\<close>, each share being the value
  of one polynomial with the secret at index 0, next to its public key.\<close>

theorem gen_shares_total:
  assumes "0 < threshold" and "unat threshold < 2 ^ 63" and "count \<noteq> - 1"
  shows "\<exists>msk r. msk ! 0 = sk \<and> length msk = unat threshold \<and> GenShares lib rnd sk threshold count = Some (Ret r)
    \<and> (case r of
         Inl e \<Rightarrow> \<exists>j. 1 \<le> j \<and> j \<le> count \<and> gen_share lib msk j = Inl e
           \<and> (\<forall>l. 1 \<le> l \<and> l < j \<longrightarrow> \<not> isl (gen_share lib msk l))
       | Inr (shares, sharesPK) \<Rightarrow> dom shares = {1..count} \<and> dom sharesPK = {1..count}
           \<and> (\<forall>j \<in> {1..count}. gen_share lib msk j = Inr (the (shares j))
               \<and> sharesPK j = Some (bl_GetPublicKey lib (the (shares j)))))"
proof -
  define msk where "msk = sk # map (\<lambda>i. fst (GenBlsKey lib (rnd i))) [1..<unat threshold]"
  have p: "gen_poly lib rnd sk threshold = Ret msk"
    using assms(1,2) by (auto simp: gen_poly_def msk_def)
  from assms(1) have "0 < unat threshold" by (simp add: word_less_nat_alt)
  then have m: "msk ! 0 = sk" "length msk = unat threshold" by (simp_all add: msk_def)
  from shares_loop_ends [OF assms(3), of lib msk 1 "(\<lambda>_. None, \<lambda>_. None)"] obtain r where
    r: "shares_loop lib msk count 1 (\<lambda>_. None, \<lambda>_. None) = Some r" "shares_result lib msk count 1 (\<lambda>_. None, \<lambda>_. None) r"
    by blast
  have g: "GenShares lib rnd sk threshold count = Some (Ret r)" using p r(1) by (simp add: GenShares_def)
  show ?thesis
  proof (intro exI [of _ msk] exI [of _ r] conjI m g)
    show "case r of
         Inl e \<Rightarrow> \<exists>j. 1 \<le> j \<and> j \<le> count \<and> gen_share lib msk j = Inl e
           \<and> (\<forall>l. 1 \<le> l \<and> l < j \<longrightarrow> \<not> isl (gen_share lib msk l))
       | Inr (shares, sharesPK) \<Rightarrow> dom shares = {1..count} \<and> dom sharesPK = {1..count}
           \<and> (\<forall>j \<in> {1..count}. gen_share lib msk j = Inr (the (shares j))
               \<and> sharesPK j = Some (bl_GetPublicKey lib (the (shares j))))"
      using r(2) by (cases r) (force simp: shares_result_def dom_def set_eq_iff split: if_splits)+
  qed
qed

text \<open>the split of a key for the largest count never returns.  With \<open>count\<close> the largest \<open>uint64\<close> the loop
  variable wraps around to zero, so unless the library refuses an identifier the call does not end; a zero
  threshold panics instead.\<close>

theorem gen_shares_wraps:
  assumes "\<forall>msk j. \<not> isl (gen_share lib msk j)"
  shows "GenShares lib rnd sk threshold (- 1) =
    (if threshold = 0 then Some (Panic IndexOutOfRange)
     else if 2 ^ 63 \<le> unat threshold then Some (Panic MakesliceLenOutOfRange) else None)"
proof -
  have "shares_loop lib msk (- 1) 1 s = None" for msk s
  proof (cases "shares_loop lib msk (- 1) 1 s")
    case (Some r)
    with shares_loop_max [OF Some] obtain j e where "gen_share lib msk j = Inl e" by blast
    with assms have "\<not> isl (Inl e :: string + 'a)" by metis
    then show ?thesis by simp
  qed
  then show ?thesis by (simp add: GenShares_def gen_poly_def)
qed

text \<open>A library for examples: the keys are numbers and an identifier is its decimal text.\<close>

definition toy_bls :: "(nat, nat, string) bls_lib" where
  "toy_bls = \<lparr>bl_SetDecString = Inr, bl_Set = (\<lambda>msk i. Inr (sum_list msk + length i)), bl_GetPublicKey = Suc\<rparr>"

theorem gen_shares_total_witness:
  "\<exists>shares pks. GenShares toy_bls (\<lambda>_. 7) 5 2 3 = Some (Ret (Inr (shares, pks))) \<and> dom shares = {1..3}"
proof -
  have n: "gen_share toy_bls msk j \<noteq> Inl e" for msk j e by (simp add: gen_share_def toy_bls_def)
  from gen_shares_total [of 2 3 5 toy_bls "\<lambda>_. 7"] obtain msk r where
    r: "GenShares toy_bls (\<lambda>_. 7) 5 2 3 = Some (Ret r)" "case r of
         Inl e \<Rightarrow> \<exists>j. 1 \<le> j \<and> j \<le> 3 \<and> gen_share toy_bls msk j = Inl e
           \<and> (\<forall>l. 1 \<le> l \<and> l < j \<longrightarrow> \<not> isl (gen_share toy_bls msk l))
       | Inr (shares, sharesPK) \<Rightarrow> dom shares = {1..3} \<and> dom sharesPK = {1..3}
           \<and> (\<forall>j \<in> {1..3}. gen_share toy_bls msk j = Inr (the (shares j))
               \<and> sharesPK j = Some (bl_GetPublicKey toy_bls (the (shares j))))" by auto
  then obtain t where "r = Inr t" "dom (fst t) = {1..3}" using n by (cases r) auto
  with r(1) show ?thesis by (cases t) auto
qed

theorem gen_shares_wraps_witness: "GenShares toy_bls (\<lambda>_. 7) 5 2 (- 1) = None"
  using gen_shares_wraps [of toy_bls "\<lambda>_. 7" 5 2] by (simp add: gen_share_def toy_bls_def)

end
