(* ===== verification/Message_Path.thy ===== *)
theory Message_Path
  imports Grpc_Services Grpc_Clients
begin

text \<open>
  The way of a message from the engine to the handler of a client: \<open>Push\<close> into the queue of the message
  service (\<open>api/grpc/msg_router.go\<close>), \<open>Listen\<close> into the stream, \<open>Recv\<close> into the queue of the consumer and
  its handler (\<open>api/grpc/client/consumer.go\<close>).  The stream between the two processes is a FIFO list; one
  consumer is connected.  \<open>pt_accepted\<close> and \<open>pt_sent\<close> record the run.
\<close>

section \<open>The path\<close>

record 'e path =
  pt_router :: MsgRouterImpl
  pt_wire :: "Message list"
  pt_consumer :: "'e msgConsumer"
  pt_accepted :: "Message list"
  pt_sent :: "(Message \<times> bool) list"

text \<open>\<open>Push\<close> returns no error when the message was queued, or handed to a waiting \<open>Listen\<close> without a buffer.\<close>

definition path_push :: "'e path \<Rightarrow> Message \<Rightarrow> 'e path" where
  "path_push p m =
     (let (r, e) = mr_put (pt_router p) m
      in p\<lparr>pt_router := r, pt_accepted := pt_accepted p @ (if e then [m] else [])\<rparr>)"

text \<open>One iteration of \<open>Listen\<close>: a failed \<open>Send\<close> loses the message and ends that call; the client may listen again.\<close>

definition path_send :: "'e path \<Rightarrow> (Message \<Rightarrow> stream_err option) \<Rightarrow> 'e path option" where
  "path_send p send =
     (case listen_next (pt_router p) send of
        None \<Rightarrow> None
      | Some (r, m, e) \<Rightarrow> Some (p\<lparr>pt_router := r, pt_sent := pt_sent p @ [(m, e = None)],
          pt_wire := pt_wire p @ (if e = None then [m] else [])\<rparr>))"

definition path_recv :: "'e path \<Rightarrow> 'e path option" where
  "path_recv p =
     (case pt_wire p of
        [] \<Rightarrow> None
      | m # w \<Rightarrow> (case consumer_recv (pt_consumer p) False (Some m) None of
            None \<Rightarrow> None
          | Some c \<Rightarrow> Some (p\<lparr>pt_wire := w, pt_consumer := c\<rparr>)))"

definition path_handle :: "'e path \<Rightarrow> ('e \<Rightarrow> Message \<Rightarrow> 'e \<times> err) \<Rightarrow> 'e path option" where
  "path_handle p handler = map_option (\<lambda>c. p\<lparr>pt_consumer := c\<rparr>) (consumer_next handler (pt_consumer p))"

inductive path_step :: "('e \<Rightarrow> Message \<Rightarrow> 'e \<times> err) \<Rightarrow> 'e path \<Rightarrow> 'e path \<Rightarrow> bool" for handler where
  push: "path_step handler p (path_push p m)"
| send: "path_send p send = Some p' \<Longrightarrow> path_step handler p p'"
| recv: "path_recv p = Some p' \<Longrightarrow> path_step handler p p'"
| handle: "path_handle p handler = Some p' \<Longrightarrow> path_step handler p p'"

text \<open>A service that was just made and a consumer that has just connected.\<close>

definition new_path :: "MsgRouterImpl \<Rightarrow> 'e msgConsumer \<Rightarrow> 'e path" where
  "new_path r c = \<lparr>pt_router = r, pt_wire = [], pt_consumer = c, pt_accepted = [], pt_sent = []\<rparr>"

section \<open>Invariant\<close>

text \<open>
  Each stage hands on what the one before let through.  The consumer drops a message only behind 128
  others it was given.
\<close>

definition path_inv :: "('e \<Rightarrow> Message \<Rightarrow> 'e \<times> err) \<Rightarrow> 'e \<Rightarrow> nat \<Rightarrow> 'e path \<Rightarrow> bool" where
  "path_inv handler e0 n p \<longleftrightarrow>
     pt_accepted p = map fst (pt_sent p) @ mr_q (pt_router p) \<and> mr_qSize (pt_router p) = n
     \<and> length (mr_q (pt_router p)) \<le> n
     \<and> map fst (filter snd (pt_sent p)) = map fst (mc_received (pt_consumer p)) @ pt_wire p
     \<and> mc_inv handler e0 (pt_consumer p)
     \<and> (False \<in> snd ` set (mc_received (pt_consumer p)) \<longrightarrow> 128 < length (mc_received (pt_consumer p)))"

lemma path_push_inv:
  assumes "path_inv handler e0 n p"
  shows "path_inv handler e0 n (path_push p m)"
proof -
  obtain r e where r: "mr_put (pt_router p) m = (r, e)" by fastforce
  then have "mr_q r = mr_q (pt_router p) @ (if e then [m] else [])" "mr_qSize r = mr_qSize (pt_router p)"
    "length (mr_q (pt_router p)) \<le> mr_qSize (pt_router p) \<longrightarrow> length (mr_q r) \<le> mr_qSize (pt_router p)"
    by (auto simp: mr_put_def Push_def split: if_splits)
  with assms r show ?thesis by (simp add: path_push_def path_inv_def)
qed

lemma path_send_inv:
  assumes "path_send p send = Some p'" "path_inv handler e0 n p"
  shows "path_inv handler e0 n p'"
  using assms by (auto simp: path_send_def listen_next_def path_inv_def split: list.splits)

text \<open>A message is kept or dropped by \<open>consumer_enqueue\<close>; a drop means that 128 kept ones are still waiting.\<close>

lemma path_recv_inv:
  assumes "path_recv p = Some p'" "path_inv handler e0 n p"
  shows "path_inv handler e0 n p'"
proof -
  from assms(1) obtain m w c where w: "pt_wire p = m # w" "consumer_recv (pt_consumer p) False (Some m) None = Some c"
      "p' = p\<lparr>pt_wire := w, pt_consumer := c\<rparr>"
    by (auto simp: path_recv_def split: list.splits option.splits)
  from w(2) obtain q kept where c: "consumer_enqueue (pt_consumer p) m = (q, kept)"
      "c = q\<lparr>mc_received := mc_received q @ [(m, kept)]\<rparr>"
    by (auto simp: consumer_recv_def split: if_splits prod.splits)
  have i: "mc_inv handler e0 (pt_consumer p)" using assms(2) by (simp add: path_inv_def)
  have "mc_step handler (pt_consumer p) c" using w(2) by (rule mc_step.recv)
  then have i': "mc_inv handler e0 c" using i by (rule mc_step_inv)
  have full: "128 < length (mc_received c)" if "\<not> kept"
  proof -
    from c(1) that have "128 \<le> length (mc_msgQ (pt_consumer p))" by (auto simp: consumer_enqueue_def split: if_splits)
    also have "\<dots> \<le> length (map fst (filter snd (mc_received (pt_consumer p))))"
      using i unfolding mc_inv_def by (metis le_add2 length_append)
    also have "\<dots> \<le> length (mc_received (pt_consumer p))" by simp
    finally show ?thesis using c by (auto simp: consumer_enqueue_def split: if_splits)
  qed
  have "mc_received c = mc_received (pt_consumer p) @ [(m, kept)]"
    using c by (auto simp: consumer_enqueue_def split: if_splits)
  with assms(2) w(1,3) i' full show ?thesis by (auto simp: path_inv_def)
qed

lemma path_handle_inv:
  assumes "path_handle p handler = Some p'" "path_inv handler e0 n p"
  shows "path_inv handler e0 n p'"
proof -
  from assms(1) obtain c where c: "consumer_next handler (pt_consumer p) = Some c" "p' = p\<lparr>pt_consumer := c\<rparr>"
    by (auto simp: path_handle_def)
  have "mc_received c = mc_received (pt_consumer p)"
    using c(1) by (auto simp: consumer_next_def consumer_dequeue_def split: if_splits list.splits)
  with assms(2) c mc_step_inv [OF mc_step.handle [OF c(1)]] show ?thesis by (simp add: path_inv_def)
qed

lemma path_reachable:
  assumes "NewMsgRouterServer n = Ret r" "consumer_Start cn ls e0 = Inr c"
    and "(path_step handler)\<^sup>*\<^sup>* (new_path r c) p"
  shows "path_inv handler e0 (nat n) p"
  using assms(3)
proof (induction rule: rtranclp_induct)
  case base
  from assms(1,2) show ?case
    by (auto simp: NewMsgRouterServer_def consumer_Start_def new_path_def path_inv_def mc_inv_def
        split: if_splits option.splits)
next
  case (step p p')
  from step(2) step(3) show ?case
    by (cases rule: path_step.cases) (auto intro: path_push_inv path_send_inv path_recv_inv path_handle_inv)
qed

lemma subseq_kept: "subseq (map fst (filter snd xs)) (map fst xs)"
  by (induction xs) auto

section \<open>Properties\<close>

text \<open>C17: messages reach a client in order.  In every interleaving of pushes, stream iterations, receptions and
  handler calls, the client's handler has seen a subsequence of the accepted messages in the order of
  acceptance, each at most once.  Nothing is lost before 128 messages were received: if moreover no \<open>Send\<close>
  failed, the accepted messages are the handled ones, followed by those still on their way.\<close>

theorem client_sees_accepted_order:
  assumes "NewMsgRouterServer n = Ret r" and "consumer_Start cn ls e0 = Inr c"
    and "(path_step handler)\<^sup>*\<^sup>* (new_path r c) p"
  shows "subseq (mc_handled (pt_consumer p)) (pt_accepted p)
    \<and> mc_env (pt_consumer p) = foldl (\<lambda>e m. fst (handler e m)) e0 (mc_handled (pt_consumer p))
    \<and> (length (mc_received (pt_consumer p)) \<le> 128 \<longrightarrow> False \<notin> snd ` set (pt_sent p) \<longrightarrow>
        pt_accepted p = mc_handled (pt_consumer p) @ mc_msgQ (pt_consumer p) @ pt_wire p @ mr_q (pt_router p))"
proof -
  define c' where "c' = pt_consumer p"
  have i: "path_inv handler e0 (nat n) p" using assms by (rule path_reachable)
  then have acc: "pt_accepted p = map fst (pt_sent p) @ mr_q (pt_router p)"
    and sent: "map fst (filter snd (pt_sent p)) = map fst (mc_received c') @ pt_wire p"
    and kept: "mc_handled c' @ mc_msgQ c' = map fst (filter snd (mc_received c'))"
    and env: "mc_env c' = foldl (\<lambda>e m. fst (handler e m)) e0 (mc_handled c')"
    and full: "False \<in> snd ` set (mc_received c') \<longrightarrow> 128 < length (mc_received c')"
    by (simp_all add: path_inv_def mc_inv_def c'_def)
  have "subseq (mc_handled c') (map fst (filter snd (mc_received c')))" 
    unfolding kept [symmetric] by (rule prefix_imp_subseq) simp
  also have "subseq \<dots> (map fst (mc_received c'))" by (rule subseq_kept)
  also have "subseq \<dots> (map fst (filter snd (pt_sent p)))" unfolding sent by (rule prefix_imp_subseq) simp
  also have "subseq \<dots> (map fst (pt_sent p))" by (rule subseq_kept)
  also have "subseq \<dots> (pt_accepted p)" unfolding acc by (rule prefix_imp_subseq) simp
  finally have s: "subseq (mc_handled c') (pt_accepted p)" .
  have "pt_accepted p = mc_handled c' @ mc_msgQ c' @ pt_wire p @ mr_q (pt_router p)"
    if "length (mc_received c') \<le> 128" "False \<notin> snd ` set (pt_sent p)"
  proof -
    from that full have "False \<notin> snd ` set (mc_received c')" by auto
    then have "filter snd (mc_received c') = mc_received c'" by (force simp: filter_id_conv)
    moreover have "filter snd (pt_sent p) = pt_sent p" using that(2) by (force simp: filter_id_conv)
    ultimately show ?thesis using acc sent kept by (metis append.assoc)
  qed
  with s env show ?thesis by (simp add: c'_def)
qed

theorem client_sees_accepted_order_witness:
  "\<exists>r c p. NewMsgRouterServer 4 = Ret r \<and> consumer_Start None None (0 :: nat) = Inr c
    \<and> (path_step (\<lambda>e m. (Suc e, None)))\<^sup>*\<^sup>* (new_path r c) p \<and> mc_handled (pt_consumer p) = [client_msg]
    \<and> subseq (mc_handled (pt_consumer p)) (pt_accepted p)"
proof -
  let ?h = "\<lambda>e (m :: Message). (Suc e, None :: err)"
  obtain r where r: "NewMsgRouterServer 4 = Ret r" by (simp add: NewMsgRouterServer_def)
  obtain c where c: "consumer_Start None None (0 :: nat) = Inr c" "mc_msgQ c = []" "mc_handled c = []" "\<not> mc_done c" "\<not> mc_recv_done c"
    by (simp add: consumer_Start_def)
  define p1 where "p1 = path_push (new_path r c) client_msg"
  obtain p2 where p2: "path_send p1 (\<lambda>_. None) = Some p2" "pt_wire p2 = [client_msg]" "pt_consumer p2 = c"
    using r by (auto simp: p1_def path_push_def new_path_def path_send_def mr_put_def Push_def listen_next_def
        NewMsgRouterServer_def)
  obtain p3 where p3: "path_recv p2 = Some p3" "mc_msgQ (pt_consumer p3) = [client_msg]"
      "mc_handled (pt_consumer p3) = []" "\<not> mc_done (pt_consumer p3)"
    using p2(2,3) c(2-) by (simp add: path_recv_def consumer_recv_def consumer_enqueue_def)
  obtain p4 where p4: "path_handle p3 ?h = Some p4" "mc_handled (pt_consumer p4) = [client_msg]"
    using p3 by (auto simp: path_handle_def consumer_next_def consumer_dequeue_def)
  have "(path_step ?h)\<^sup>*\<^sup>* (new_path r c) p3"
    using path_step.push [of ?h "new_path r c" client_msg, folded p1_def] path_step.send [OF p2(1)] path_step.recv [OF p3(1)]
    by (rule rtranclp_three)
  then have s: "(path_step ?h)\<^sup>*\<^sup>* (new_path r c) p4" using path_step.handle [OF p4(1)] by (rule rtranclp.rtrancl_into_rtrancl)
  from client_sees_accepted_order [OF r c(1) s] r c(1) s p4(2) show ?thesis by blast
qed

end
