(* ===== verification/Node_Life.thy ===== *)
theory Node_Life
  imports Thread_Control
begin

text \<open>
  Start and stop of the example nodes (\<open>examples/bls/node.go\<close>, \<open>examples/don/node.go\<close>): each node owns a
  group of two goroutines, one for each of its RPC clients, and each client owns a group with the
  goroutine that receives from its stream (\<open>api/grpc/client\<close>).  The groups are those of
  \<open>commons/utils\<close>.  What happens on the stream is left open here: a receiver may return at any time.
\<close>

section \<open>Clients\<close>

text \<open>The goroutine of the node that drives a client: not started, inside \<open>Start\<close> before its loop, in the loop,
  in a deferred \<open>Stop\<close>, or returned.\<close>

datatype stage = NotStarted | Dialing | Looping | Stopping | Returned

record rpc_client =
  rc_threadCtrl :: threadControl
  rc_stage :: stage

definition new_client :: rpc_client where
  "new_client = \<lparr>rc_threadCtrl = NewThreadControl, rc_stage = NotStarted\<rparr>"

text \<open>A connected client starts its receiver and enters its loop.\<close>

definition client_connected :: "rpc_client \<Rightarrow> rpc_client" where
  "client_connected c = c\<lparr>rc_threadCtrl := Go (rc_threadCtrl c), rc_stage := Looping\<rparr>"

definition client_Stop :: "rpc_client \<Rightarrow> rpc_client go" where
  "client_Stop c = go_bind (Close (rc_threadCtrl c)) (\<lambda>tc. Ret (c\<lparr>rc_threadCtrl := tc\<rparr>))"

definition client_stop_wait :: "rpc_client \<Rightarrow> rpc_client option" where
  "client_stop_wait c = map_option (\<lambda>tc. c\<lparr>rc_threadCtrl := tc\<rparr>) (close_wait (rc_threadCtrl c))"

text \<open>The loop of \<open>Start\<close> ends when its context is done or the receiver has closed the channel.\<close>

definition client_ends :: "rpc_client \<Rightarrow> bool \<Rightarrow> bool" where
  "client_ends c ctxDone \<longleftrightarrow> rc_stage c = Looping \<and> (ctxDone \<or> running (rc_threadCtrl c) = 0)"

section \<open>Nodes\<close>

text \<open>Nobody closes the node, \<open>Close\<close> waits for the node's goroutines, for the receiver of a client, or has
  returned.\<close>

datatype closer = NoCloser | WaitThreads | WaitClient nat | CloserDone

text \<open>Client \<open>i\<close> is driven by goroutine \<open>i\<close> of \<open>nd_threadC\<close>.  \<open>nd_late\<close> records that the node was started after
  it had been closed.\<close>

record node =
  nd_once :: StartStopOnce
  nd_threadC :: threadControl
  nd_clients :: "rpc_client list"
  nd_closer :: closer
  nd_late :: bool

definition new_node :: node where
  "new_node = \<lparr>nd_once = \<lparr>so_start = False, so_stop = False\<rparr>, nd_threadC = NewThreadControl,
     nd_clients = [new_client, new_client], nd_closer = NoCloser, nd_late = False\<rparr>"

definition node_Start :: "node \<Rightarrow> node" where
  "node_Start n =
     (let (o1, n') = StartOnce (nd_once n)
        (\<lambda>n. n\<lparr>nd_threadC := Go (Go (nd_threadC n)),
              nd_clients := map (\<lambda>c. c\<lparr>rc_stage := Dialing\<rparr>) (nd_clients n),
              nd_late := so_stop (nd_once n)\<rparr>) n
      in n'\<lparr>nd_once := o1\<rparr>)"

definition ctx_cancelled :: "node \<Rightarrow> nat \<Rightarrow> bool" where
  "ctx_cancelled n i = (tc_threads (nd_threadC n) ! i = Live True)"

text \<open>The function of goroutine \<open>i\<close> returns.\<close>

definition node_return :: "node \<Rightarrow> nat \<Rightarrow> rpc_client \<Rightarrow> node option" where
  "node_return n i c =
     map_option (\<lambda>tc. n\<lparr>nd_threadC := tc, nd_clients := (nd_clients n)[i := c\<lparr>rc_stage := Returned\<rparr>]\<rparr>)
       (thread_return (nd_threadC n) i)"

subsection \<open>BLS node\<close>

text \<open>\<open>Start\<close> of client \<open>i\<close> connects or fails; a failure is ignored once the context is done.\<close>

definition bls_dial :: "node \<Rightarrow> nat \<Rightarrow> err \<Rightarrow> node go option" where
  "bls_dial n i e =
     (if i < length (nd_clients n) \<and> rc_stage (nd_clients n ! i) = Dialing then
        (case e of
           None \<Rightarrow> Some (Ret (n\<lparr>nd_clients := (nd_clients n)[i := client_connected (nd_clients n ! i)]\<rparr>))
         | Some m \<Rightarrow> if ctx_cancelled n i then map_option Ret (node_return n i (nd_clients n ! i))
                   else Some (Panic (Explicit m)))
      else None)"

definition bls_loop_end :: "node \<Rightarrow> nat \<Rightarrow> node go option" where
  "bls_loop_end n i =
     (if i < length (nd_clients n) \<and> client_ends (nd_clients n ! i) (ctx_cancelled n i)
      then map_option Ret (node_return n i (nd_clients n ! i)) else None)"

text \<open>\<open>Close\<close>: the group of the node, then each client.  A second call does nothing; that it also waits for the
  first one is not modelled.\<close>

definition bls_Close :: "node \<Rightarrow> node go" where
  "bls_Close n =
     (let (o1, r) = StopOnce (nd_once n) (\<lambda>r. go_bind r (\<lambda>n.
          go_bind (Close (nd_threadC n)) (\<lambda>tc. Ret (n\<lparr>nd_threadC := tc, nd_closer := WaitThreads\<rparr>)))) (Ret n)
      in go_bind r (\<lambda>n'. Ret (n'\<lparr>nd_once := o1\<rparr>)))"

text \<open>\<open>Stop\<close> of client \<open>i\<close>, or the end of \<open>Close\<close> behind the last one.\<close>

definition bls_stop_client :: "node \<Rightarrow> nat \<Rightarrow> node go" where
  "bls_stop_client n i =
     (if i < length (nd_clients n)
      then go_bind (client_Stop (nd_clients n ! i))
             (\<lambda>c. Ret (n\<lparr>nd_clients := (nd_clients n)[i := c], nd_closer := WaitClient i\<rparr>))
      else Ret (n\<lparr>nd_closer := CloserDone\<rparr>))"

definition bls_close_next :: "node \<Rightarrow> node go option" where
  "bls_close_next n =
     (case nd_closer n of
        WaitThreads \<Rightarrow> map_option (\<lambda>tc. bls_stop_client (n\<lparr>nd_threadC := tc\<rparr>) 0) (close_wait (nd_threadC n))
      | WaitClient i \<Rightarrow> map_option (\<lambda>c. bls_stop_client (n\<lparr>nd_clients := (nd_clients n)[i := c]\<rparr>) (Suc i))
          (client_stop_wait (nd_clients n ! i))
      | _ \<Rightarrow> None)"

subsection \<open>DON node\<close>

text \<open>Here \<open>Stop\<close> of the client is deferred in its goroutine, and every error of \<open>Start\<close> panics behind it.\<close>

definition don_dial :: "node \<Rightarrow> nat \<Rightarrow> err \<Rightarrow> node go option" where
  "don_dial n i e =
     (if i < length (nd_clients n) \<and> rc_stage (nd_clients n ! i) = Dialing then
        (case e of
           None \<Rightarrow> Some (Ret (n\<lparr>nd_clients := (nd_clients n)[i := client_connected (nd_clients n ! i)]\<rparr>))
         | Some m \<Rightarrow> Some (go_bind (client_Stop (nd_clients n ! i)) (\<lambda>_. Panic (Explicit m))))
      else None)"

definition don_loop_end :: "node \<Rightarrow> nat \<Rightarrow> node go option" where
  "don_loop_end n i =
     (if i < length (nd_clients n) \<and> client_ends (nd_clients n ! i) (ctx_cancelled n i)
      then Some (go_bind (client_Stop (nd_clients n ! i))
             (\<lambda>c. Ret (n\<lparr>nd_clients := (nd_clients n)[i := c\<lparr>rc_stage := Stopping\<rparr>]\<rparr>)))
      else None)"

definition don_stop_end :: "node \<Rightarrow> nat \<Rightarrow> node go option" where
  "don_stop_end n i =
     (if i < length (nd_clients n) \<and> rc_stage (nd_clients n ! i) = Stopping
      then (case client_stop_wait (nd_clients n ! i) of
              None \<Rightarrow> None
            | Some c \<Rightarrow> map_option Ret (node_return n i c))
      else None)"

definition don_Stop :: "node \<Rightarrow> node go" where
  "don_Stop n =
     (let (o1, r) = StopOnce (nd_once n) (\<lambda>r. go_bind r (\<lambda>n.
          go_bind (Close (nd_threadC n)) (\<lambda>tc. Ret (n\<lparr>nd_threadC := tc, nd_closer := WaitThreads\<rparr>)))) (Ret n)
      in go_bind r (\<lambda>n'. Ret (n'\<lparr>nd_once := o1\<rparr>)))"

definition don_stop_next :: "node \<Rightarrow> node go option" where
  "don_stop_next n =
     (if nd_closer n = WaitThreads
      then map_option (\<lambda>tc. Ret (n\<lparr>nd_threadC := tc, nd_closer := CloserDone\<rparr>)) (close_wait (nd_threadC n))
      else None)"

subsection \<open>Steps\<close>

text \<open>What both nodes share: \<open>Start\<close>, the cancellation of a context, and the return of a receiver.\<close>

inductive shared_step :: "node \<Rightarrow> node go \<Rightarrow> bool" where
  start: "shared_step n (Ret (node_Start n))"
| cancel: "CtxCancel (nd_threadC n) i = Some tc \<Longrightarrow> shared_step n (Ret (n\<lparr>nd_threadC := tc\<rparr>))"
| client_cancel: "i < length (nd_clients n) \<Longrightarrow> CtxCancel (rc_threadCtrl (nd_clients n ! i)) j = Some tc \<Longrightarrow>
    shared_step n (Ret (n\<lparr>nd_clients := (nd_clients n)[i := (nd_clients n ! i)\<lparr>rc_threadCtrl := tc\<rparr>]\<rparr>))"
| recv_return: "i < length (nd_clients n) \<Longrightarrow> thread_return (rc_threadCtrl (nd_clients n ! i)) j = Some tc \<Longrightarrow>
    shared_step n (Ret (n\<lparr>nd_clients := (nd_clients n)[i := (nd_clients n ! i)\<lparr>rc_threadCtrl := tc\<rparr>]\<rparr>))"

inductive bls_life :: "node \<Rightarrow> node go \<Rightarrow> bool" where
  shared: "shared_step n r \<Longrightarrow> bls_life n r"
| dial: "bls_dial n i e = Some r \<Longrightarrow> bls_life n r"
| loop_end: "bls_loop_end n i = Some r \<Longrightarrow> bls_life n r"
| close: "bls_life n (bls_Close n)"
| close_next: "bls_close_next n = Some r \<Longrightarrow> bls_life n r"

inductive don_life :: "node \<Rightarrow> node go \<Rightarrow> bool" where
  shared: "shared_step n r \<Longrightarrow> don_life n r"
| dial: "don_dial n i e = Some r \<Longrightarrow> don_life n r"
| loop_end: "don_loop_end n i = Some r \<Longrightarrow> don_life n r"
| stop_end: "don_stop_end n i = Some r \<Longrightarrow> don_life n r"
| close: "don_life n (don_Stop n)"
| stop_next: "don_stop_next n = Some r \<Longrightarrow> don_life n r"

abbreviation bls_runs :: "node \<Rightarrow> node \<Rightarrow> bool" where
  "bls_runs \<equiv> (\<lambda>n n'. bls_life n (Ret n'))\<^sup>*\<^sup>*"

abbreviation don_runs :: "node \<Rightarrow> node \<Rightarrow> bool" where
  "don_runs \<equiv> (\<lambda>n n'. don_life n (Ret n'))\<^sup>*\<^sup>*"

section \<open>Invariants\<close>

text \<open>The node's group and the stages of its clients agree; \<open>P\<close> is what each client satisfies.\<close>

definition life_inv :: "(node \<Rightarrow> nat \<Rightarrow> rpc_client \<Rightarrow> bool) \<Rightarrow> node \<Rightarrow> bool" where
  "life_inv P n \<longleftrightarrow> tc_inv (nd_threadC n) \<and> length (nd_clients n) = 2
     \<and> length (tc_threads (nd_threadC n)) = (if so_start (nd_once n) then 2 else 0)
     \<and> (so_stop (nd_once n) \<longleftrightarrow> tc_stop (nd_threadC n)) \<and> (nd_late n \<longrightarrow> so_stop (nd_once n))
     \<and> (nd_closer n = NoCloser \<longleftrightarrow> tc_closing (nd_threadC n) = Open)
     \<and> (nd_closer n = WaitThreads \<longleftrightarrow> tc_closing (nd_threadC n) = Waiting)
     \<and> (tc_closing (nd_threadC n) = Closed \<longrightarrow> \<not> nd_late n \<longrightarrow> running (nd_threadC n) = 0)
     \<and> (\<forall>i<2. tc_inv (rc_threadCtrl (nd_clients n ! i))
          \<and> (rc_stage (nd_clients n ! i) \<in> {NotStarted, Dialing} \<longrightarrow> tc_threads (rc_threadCtrl (nd_clients n ! i)) = [])
          \<and> (rc_stage (nd_clients n ! i) = NotStarted \<longleftrightarrow> \<not> so_start (nd_once n))
          \<and> (so_start (nd_once n) \<longrightarrow> (tc_threads (nd_threadC n) ! i = Finished \<longleftrightarrow> rc_stage (nd_clients n ! i) = Returned))
          \<and> P n i (nd_clients n ! i))"

text \<open>BLS: the clients are stopped one after the other, behind the goroutines of the node.\<close>

definition bls_client :: "node \<Rightarrow> nat \<Rightarrow> rpc_client \<Rightarrow> bool" where
  "bls_client n i c \<longleftrightarrow>
     tc_closing (rc_threadCtrl c) = (case nd_closer n of NoCloser \<Rightarrow> Open | WaitThreads \<Rightarrow> Open
        | WaitClient j \<Rightarrow> if i < j then Closed else if i = j then Waiting else Open | CloserDone \<Rightarrow> Closed)
     \<and> (tc_closing (rc_threadCtrl c) = Closed \<longrightarrow> \<not> nd_late n \<longrightarrow> running (rc_threadCtrl c) = 0)
     \<and> (case nd_closer n of WaitClient j \<Rightarrow> j < 2 | _ \<Rightarrow> True)"

text \<open>DON: a client is stopped by its own goroutine.\<close>

definition don_client :: "node \<Rightarrow> nat \<Rightarrow> rpc_client \<Rightarrow> bool" where
  "don_client n i c \<longleftrightarrow>
     tc_closing (rc_threadCtrl c) = (case rc_stage c of Stopping \<Rightarrow> Waiting | Returned \<Rightarrow> Closed | _ \<Rightarrow> Open)
     \<and> (rc_stage c = Returned \<longrightarrow> running (rc_threadCtrl c) = 0)
     \<and> (case nd_closer n of WaitClient j \<Rightarrow> False | _ \<Rightarrow> True)"

lemma running_0_iff: "running tc = 0 \<longleftrightarrow> (\<forall>i<length (tc_threads tc). tc_threads tc ! i = Finished)"
  by (simp add: running_def filter_empty_conv all_set_conv_all_nth)

lemma running_0_set: "running tc = 0 \<longleftrightarrow> set (tc_threads tc) \<subseteq> {Finished}"
  by (auto simp: running_def filter_empty_conv)

lemma life_client:
  assumes "life_inv P n" "i < 2"
  shows "tc_inv (rc_threadCtrl (nd_clients n ! i))" "P n i (nd_clients n ! i)"
    "rc_stage (nd_clients n ! i) = NotStarted \<longleftrightarrow> \<not> so_start (nd_once n)"
    "rc_stage (nd_clients n ! i) \<in> {NotStarted, Dialing} \<Longrightarrow> tc_threads (rc_threadCtrl (nd_clients n ! i)) = []"
    "so_start (nd_once n) \<Longrightarrow> tc_threads (nd_threadC n) ! i = Finished \<longleftrightarrow> rc_stage (nd_clients n ! i) = Returned"
  using assms by (auto simp: life_inv_def)

text \<open>While a client's goroutine has not returned, the group of the node runs.\<close>

lemma life_busy:
  assumes "life_inv P n" "i < 2" "rc_stage (nd_clients n ! i) \<notin> {NotStarted, Returned}" "\<not> nd_late n"
  shows "tc_closing (nd_threadC n) \<noteq> Closed"
  using assms by (auto simp: life_inv_def running_0_iff)

lemma bls_client_new: "bls_client new_node i new_client"
  by (simp add: bls_client_def new_node_def new_client_def NewThreadControl_def)

lemma don_client_new: "don_client new_node i new_client"
  by (simp add: don_client_def new_node_def new_client_def NewThreadControl_def)

lemma life_new:
  assumes "\<And>i. P new_node i new_client"
  shows "life_inv P new_node"
  using assms
  by (auto simp: life_inv_def new_node_def new_client_def NewThreadControl_def tc_inv_def running_def less_2_cases_iff)

text \<open>One client changes.\<close>

lemma life_update_client:
  assumes "life_inv P n" "i < 2" "tc_inv (rc_threadCtrl c)" "rc_stage (nd_clients n ! i) = rc_stage c \<or>
      rc_stage (nd_clients n ! i) \<notin> {NotStarted, Returned} \<and> rc_stage c \<notin> {NotStarted, Returned}"
    "rc_stage c \<in> {NotStarted, Dialing} \<longrightarrow> tc_threads (rc_threadCtrl c) = []"
    "P (n\<lparr>nd_clients := (nd_clients n)[i := c]\<rparr>) i c"
    "\<And>j d. P n j d \<Longrightarrow> P (n\<lparr>nd_clients := (nd_clients n)[i := c]\<rparr>) j d"
  shows "life_inv P (n\<lparr>nd_clients := (nd_clients n)[i := c]\<rparr>)"
  using assms by (auto simp: life_inv_def nth_list_update)

text \<open>A goroutine of the node returns.\<close>

lemma life_return:
  assumes "life_inv P n" "i < 2" "rc_stage (nd_clients n ! i) \<notin> {NotStarted, Returned}" "tc_inv (rc_threadCtrl c)"
    "node_return n i c = Some n'"
    "P n' i (c\<lparr>rc_stage := Returned\<rparr>)" "\<And>j d. P n j d \<Longrightarrow> P n' j d"
  shows "life_inv P n'"
proof -
  from assms(5) obtain tc where tc: "thread_return (nd_threadC n) i = Some tc"
    and n': "n' = n\<lparr>nd_threadC := tc, nd_clients := (nd_clients n)[i := c\<lparr>rc_stage := Returned\<rparr>]\<rparr>"
    by (auto simp: node_return_def)
  have "tc_inv tc" using tc_step_inv [OF tc_step.ret [OF tc]] assms(1) by (simp add: life_inv_def)
  moreover have "running tc \<le> running (nd_threadC n)" using running_return [OF tc] by simp
  ultimately show ?thesis using assms(1-4,6,7) tc
    by (elim thread_return_SomeE) (auto simp: life_inv_def n' nth_list_update)
qed

text \<open>The group of the node changes by a cancellation.\<close>

lemma life_cancel:
  assumes "life_inv P n" "CtxCancel (nd_threadC n) i = Some tc"
    "\<And>j d. P n j d \<Longrightarrow> P (n\<lparr>nd_threadC := tc\<rparr>) j d"
  shows "life_inv P (n\<lparr>nd_threadC := tc\<rparr>)"
proof -
  have "tc_inv tc" using tc_step_inv [OF tc_step.cancel [OF assms(2)]] assms(1) by (simp add: life_inv_def)
  moreover have "tc_threads tc ! j = Finished \<longleftrightarrow> tc_threads (nd_threadC n) ! j = Finished" for j
    using assms(2) by (elim CtxCancel_SomeE) (cases "j = i", simp_all)
  moreover have "length (tc_threads tc) = length (tc_threads (nd_threadC n))" "tc_stop tc = tc_stop (nd_threadC n)"
    "tc_closing tc = tc_closing (nd_threadC n)" using assms(2) by (elim CtxCancel_SomeE, simp)+
  ultimately show ?thesis using assms(1,3) running_cancel [OF assms(2)] by (auto simp: life_inv_def)
qed

lemma life_start:
  assumes "life_inv P n" "\<And>j c. \<not> so_start (nd_once n) \<Longrightarrow> P n j c \<Longrightarrow> rc_stage c = NotStarted \<Longrightarrow>
      P (node_Start n) j (c\<lparr>rc_stage := Dialing\<rparr>)"
  shows "life_inv P (node_Start n)"
proof (cases "so_start (nd_once n)")
  case True
  then have "node_Start n = n" by (simp add: node_Start_def StartOnce_def)
  with assms(1) show ?thesis by simp
next
  case False
  let ?n = "node_Start n"
  have n: "nd_threadC ?n = Go (Go (nd_threadC n))" "nd_clients ?n = map (\<lambda>c. c\<lparr>rc_stage := Dialing\<rparr>) (nd_clients n)"
    "nd_late ?n = so_stop (nd_once n)" "so_start (nd_once ?n)" "so_stop (nd_once ?n) = so_stop (nd_once n)"
    "nd_closer ?n = nd_closer n"
    using False by (simp_all add: node_Start_def StartOnce_def)
  have t: "tc_threads (nd_threadC n) = []" "length (nd_clients n) = 2" using assms(1) False by (auto simp: life_inv_def)
  have g: "tc_threads (nd_threadC ?n) = [Live False, Live False]" "tc_stop (nd_threadC ?n) = tc_stop (nd_threadC n)"
    "tc_closing (nd_threadC ?n) = tc_closing (nd_threadC n)" using t by (simp_all add: n Go_def)
  have i: "tc_inv (nd_threadC ?n)" unfolding n using assms(1) by (auto simp: life_inv_def intro!: tc_step_inv [OF tc_step.start])
  have c: "tc_inv (rc_threadCtrl (nd_clients ?n ! i)) \<and> tc_threads (rc_threadCtrl (nd_clients ?n ! i)) = []
      \<and> rc_stage (nd_clients ?n ! i) = Dialing \<and> tc_threads (nd_threadC ?n) ! i = Live False \<and> P ?n i (nd_clients ?n ! i)"
    if "i < 2" for i
  proof -
    have "P ?n i ((nd_clients n ! i)\<lparr>rc_stage := Dialing\<rparr>)"
      using assms(2) [OF False] life_client(2,3) [OF assms(1) that] False by simp
    with life_client(1,3,4) [OF assms(1) that] False t(2) that show ?thesis
      unfolding g(1) by (auto simp: n(2) less_2_cases_iff)
  qed
  have "tc_closing (nd_threadC n) \<noteq> Open \<longleftrightarrow> tc_stop (nd_threadC n)" using assms(1) by (auto simp: life_inv_def tc_inv_def)
  with assms(1) i c n(3-6) show ?thesis
    unfolding life_inv_def g by (auto simp: n(2) t)
qed

lemma client_Stop_Ret: "client_Stop c = Ret c' \<longleftrightarrow> \<not> tc_stop (rc_threadCtrl c)
    \<and> c' = c\<lparr>rc_threadCtrl := (rc_threadCtrl c)\<lparr>tc_stop := True, tc_closing := Waiting\<rparr>\<rparr>"
  by (auto simp: client_Stop_def Close_def)

lemma client_Stop_Panic: "client_Stop c = Panic p \<longleftrightarrow> tc_stop (rc_threadCtrl c) \<and> p = CloseOfClosedChannel"
  by (auto simp: client_Stop_def Close_def)

lemma tc_inv_Close: "tc_inv tc \<Longrightarrow> tc_inv (tc\<lparr>tc_stop := True, tc_closing := Waiting\<rparr>)"
  by (auto simp: tc_inv_def running_def)

lemma tc_inv_wait: "close_wait tc = Some tc' \<Longrightarrow> tc_inv tc \<Longrightarrow> tc_inv tc' \<and> running tc' = 0 \<and> tc_closing tc' = Closed
    \<and> tc_closing tc = Waiting \<and> tc_threads tc' = tc_threads tc \<and> tc_stop tc' = tc_stop tc"
  by (auto simp: close_wait_def tc_inv_def running_def split: if_splits)

text \<open>The first close of the node.\<close>

lemma life_close:
  assumes "life_inv P n" "\<not> so_stop (nd_once n)"
    "n' = n\<lparr>nd_threadC := (nd_threadC n)\<lparr>tc_stop := True, tc_closing := Waiting\<rparr>, nd_closer := WaitThreads,
       nd_once := (nd_once n)\<lparr>so_stop := True\<rparr>\<rparr>"
    "\<And>j d. P n j d \<Longrightarrow> P n' j d"
  shows "life_inv P n'"
  using assms(1,2,4) tc_inv_Close [of "nd_threadC n"] by (auto simp: life_inv_def assms(3) running_def tc_inv_def)

text \<open>A client's group changes by a cancellation or the return of its receiver.\<close>

lemma life_client_group:
  assumes "life_inv P n" "i < 2"
    "CtxCancel (rc_threadCtrl (nd_clients n ! i)) j = Some tc \<or> thread_return (rc_threadCtrl (nd_clients n ! i)) j = Some tc"
    "\<And>c. P n i c \<Longrightarrow> tc_closing tc = tc_closing (rc_threadCtrl c) \<Longrightarrow> running tc \<le> running (rc_threadCtrl c) \<Longrightarrow>
       P (n\<lparr>nd_clients := (nd_clients n)[i := c\<lparr>rc_threadCtrl := tc\<rparr>]\<rparr>) i (c\<lparr>rc_threadCtrl := tc\<rparr>)"
    "\<And>c j d. P n j d \<Longrightarrow> P (n\<lparr>nd_clients := (nd_clients n)[i := c]\<rparr>) j d"
  shows "life_inv P (n\<lparr>nd_clients := (nd_clients n)[i := (nd_clients n ! i)\<lparr>rc_threadCtrl := tc\<rparr>]\<rparr>)"
proof -
  let ?tc = "rc_threadCtrl (nd_clients n ! i)"
  note c = life_client [OF assms(1,2)]
  have "tc_inv tc" using assms(3) c(1) tc_step.cancel tc_step.ret tc_step_inv by metis
  moreover have "running tc \<le> running ?tc" using assms(3) running_cancel running_return by fastforce
  moreover have "tc_closing tc = tc_closing ?tc" "tc_threads ?tc \<noteq> []"
    using assms(3) by (auto elim: CtxCancel_SomeE thread_return_SomeE)
  ultimately show ?thesis using c assms(4) [OF c(2)] assms(5)
    by (intro life_update_client [OF assms(1,2)]) auto
qed

lemma bls_shared:
  assumes "shared_step n r" "life_inv bls_client n"
  shows "\<exists>n'. r = Ret n' \<and> life_inv bls_client n'"
  using assms(1)
proof (cases rule: shared_step.cases)
  case start
  have "life_inv bls_client (node_Start n)"
  proof (rule life_start [OF assms(2)])
    fix j c
    assume s: "\<not> so_start (nd_once n)" and "bls_client n j c" "rc_stage c = NotStarted"
    moreover have "so_stop (nd_once n) \<longleftrightarrow> nd_closer n \<noteq> NoCloser" using assms(2) by (auto simp: life_inv_def tc_inv_def)
    ultimately show "bls_client (node_Start n) j (c\<lparr>rc_stage := Dialing\<rparr>)"
      by (auto simp: bls_client_def node_Start_def StartOnce_def split: closer.splits)
  qed
  with start show ?thesis by simp
next
  case (cancel i tc)
  with life_cancel [OF assms(2) cancel(2)] show ?thesis by (simp add: bls_client_def)
next
  case (client_cancel i j tc)
  then have "i < 2" using assms(2) by (simp add: life_inv_def)
  then show ?thesis using client_cancel
    by (auto intro!: life_client_group [OF assms(2), where j = j] simp: bls_client_def)
next
  case (recv_return i j tc)
  then have "i < 2" using assms(2) by (simp add: life_inv_def)
  then show ?thesis using recv_return
    by (auto intro!: life_client_group [OF assms(2), where j = j] simp: bls_client_def)
qed

lemma don_shared:
  assumes "shared_step n r" "life_inv don_client n"
  shows "\<exists>n'. r = Ret n' \<and> life_inv don_client n'"
  using assms(1)
proof (cases rule: shared_step.cases)
  case start
  have "life_inv don_client (node_Start n)"
    by (rule life_start [OF assms(2)]) (simp add: don_client_def node_Start_def StartOnce_def)
  with start show ?thesis by simp
next
  case (cancel i tc)
  with life_cancel [OF assms(2) cancel(2)] show ?thesis by (simp add: don_client_def)
next
  case (client_cancel i j tc)
  then have "i < 2" using assms(2) by (simp add: life_inv_def)
  then show ?thesis using client_cancel
    by (auto intro!: life_client_group [OF assms(2), where j = j] simp: don_client_def)
next
  case (recv_return i j tc)
  then have "i < 2" using assms(2) by (simp add: life_inv_def)
  then show ?thesis using recv_return
    by (auto intro!: life_client_group [OF assms(2), where j = j] simp: don_client_def)
qed

lemma client_connected_update:
  assumes "life_inv P n" "i < 2" "rc_stage (nd_clients n ! i) = Dialing"
    "\<And>c. P n i c \<Longrightarrow> c = nd_clients n ! i \<Longrightarrow>
       P (n\<lparr>nd_clients := (nd_clients n)[i := client_connected c]\<rparr>) i (client_connected c)"
    "\<And>c j d. P n j d \<Longrightarrow> P (n\<lparr>nd_clients := (nd_clients n)[i := c]\<rparr>) j d"
  shows "life_inv P (n\<lparr>nd_clients := (nd_clients n)[i := client_connected (nd_clients n ! i)]\<rparr>)"
  using life_client [OF assms(1,2)] assms(3-5) tc_step_inv [OF tc_step.start]
  by (intro life_update_client [OF assms(1,2)]) (auto simp: client_connected_def)

text \<open>The closer goes on behind the group of the node.\<close>

lemma life_closer:
  assumes "life_inv P n" "nd_once n' = nd_once n" "nd_late n' = nd_late n" "nd_closer n' \<notin> {NoCloser, WaitThreads}"
    "close_wait (nd_threadC n) = Some (nd_threadC n') \<or> nd_threadC n' = nd_threadC n \<and> tc_closing (nd_threadC n) = Closed"
    "length (nd_clients n') = 2"
    "\<And>i. i < 2 \<Longrightarrow> rc_stage (nd_clients n' ! i) = rc_stage (nd_clients n ! i)
       \<and> tc_threads (rc_threadCtrl (nd_clients n' ! i)) = tc_threads (rc_threadCtrl (nd_clients n ! i))
       \<and> tc_inv (rc_threadCtrl (nd_clients n' ! i)) \<and> P n' i (nd_clients n' ! i)"
  shows "life_inv P n'"
proof -
  let ?tc = "nd_threadC n" and ?tc' = "nd_threadC n'"
  have i: "tc_inv ?tc" using assms(1) by (simp add: life_inv_def)
  have t: "tc_inv ?tc' \<and> tc_closing ?tc' = Closed \<and> tc_threads ?tc' = tc_threads ?tc \<and> tc_stop ?tc' = tc_stop ?tc
      \<and> (\<not> nd_late n \<longrightarrow> running ?tc' = 0)"
    using assms(5)
  proof
    assume "close_wait ?tc = Some ?tc'"
    from tc_inv_wait [OF this i] show ?thesis by simp
  next
    assume "?tc' = ?tc \<and> tc_closing ?tc = Closed"
    with assms(1) show ?thesis by (simp add: life_inv_def)
  qed
  have c: "\<forall>i<2. tc_inv (rc_threadCtrl (nd_clients n' ! i))
      \<and> (rc_stage (nd_clients n' ! i) \<in> {NotStarted, Dialing} \<longrightarrow> tc_threads (rc_threadCtrl (nd_clients n' ! i)) = [])
      \<and> (rc_stage (nd_clients n' ! i) = NotStarted \<longleftrightarrow> \<not> so_start (nd_once n'))
      \<and> (so_start (nd_once n') \<longrightarrow> (tc_threads (nd_threadC n') ! i = Finished \<longleftrightarrow> rc_stage (nd_clients n' ! i) = Returned))
      \<and> P n' i (nd_clients n' ! i)"
    using assms(7) life_client [OF assms(1)] assms(2) t by simp
  have "length (tc_threads ?tc) = (if so_start (nd_once n) then 2 else 0) \<and> (so_stop (nd_once n) \<longleftrightarrow> tc_stop ?tc)
      \<and> (nd_late n \<longrightarrow> so_stop (nd_once n))" using assms(1) by (auto simp: life_inv_def)
  with t assms(2,3,4,6) show ?thesis unfolding life_inv_def by (intro conjI c) auto
qed

lemma client_stop_wait_Some:
  assumes "client_stop_wait c = Some c'" "tc_inv (rc_threadCtrl c)"
  shows "rc_stage c' = rc_stage c" "tc_threads (rc_threadCtrl c') = tc_threads (rc_threadCtrl c)"
    "tc_inv (rc_threadCtrl c')" "tc_closing (rc_threadCtrl c') = Closed" "running (rc_threadCtrl c') = 0"
    "tc_closing (rc_threadCtrl c) = Waiting"
  using assms(1) tc_inv_wait [of "rc_threadCtrl c", OF _ assms(2)] by (auto simp: client_stop_wait_def)

lemma client_Stop_open:
  assumes "tc_inv (rc_threadCtrl c)" "tc_closing (rc_threadCtrl c) = Open"
  shows "\<exists>c'. client_Stop c = Ret c' \<and> rc_stage c' = rc_stage c \<and> tc_threads (rc_threadCtrl c') = tc_threads (rc_threadCtrl c)
    \<and> tc_inv (rc_threadCtrl c') \<and> tc_closing (rc_threadCtrl c') = Waiting \<and> running (rc_threadCtrl c') = running (rc_threadCtrl c)"
  using assms tc_inv_Close [of "rc_threadCtrl c"] by (auto simp: client_Stop_Ret tc_inv_def running_def)

lemma life_open:
  assumes "life_inv P n"
  shows "nd_closer n = NoCloser \<longleftrightarrow> \<not> so_stop (nd_once n)" "tc_stop (nd_threadC n) \<longleftrightarrow> so_stop (nd_once n)"
    "nd_closer n \<notin> {NoCloser, WaitThreads} \<longleftrightarrow> tc_closing (nd_threadC n) = Closed"
  using assms by (cases "tc_closing (nd_threadC n)"; auto simp: life_inv_def tc_inv_def)+

text \<open>The two closing functions are the same up to their names.\<close>

lemma don_Stop_eq: "don_Stop n = bls_Close n"
  by (simp add: don_Stop_def bls_Close_def)

lemma close_cases:
  assumes "life_inv P n"
  shows "bls_Close n = Ret n \<or> \<not> so_stop (nd_once n) \<and> bls_Close n =
    Ret (n\<lparr>nd_threadC := (nd_threadC n)\<lparr>tc_stop := True, tc_closing := Waiting\<rparr>, nd_closer := WaitThreads,
       nd_once := (nd_once n)\<lparr>so_stop := True\<rparr>\<rparr>)"
  using life_open(2) [OF assms] by (auto simp: bls_Close_def StopOnce_def Close_def)

lemma bls_stop_client_inv:
  assumes "life_inv bls_client n" "tc_closing (nd_threadC n0) \<noteq> Open"
    "nd_once n0 = nd_once n" "nd_late n0 = nd_late n" "length (nd_clients n0) = 2" "i \<le> 2"
    "close_wait (nd_threadC n) = Some (nd_threadC n0) \<or> nd_threadC n0 = nd_threadC n \<and> tc_closing (nd_threadC n) = Closed"
    "\<And>j. j < 2 \<Longrightarrow> rc_stage (nd_clients n0 ! j) = rc_stage (nd_clients n ! j)
       \<and> tc_threads (rc_threadCtrl (nd_clients n0 ! j)) = tc_threads (rc_threadCtrl (nd_clients n ! j))
       \<and> tc_inv (rc_threadCtrl (nd_clients n0 ! j))
       \<and> tc_closing (rc_threadCtrl (nd_clients n0 ! j)) = (if j < i then Closed else Open)
       \<and> (j < i \<longrightarrow> \<not> nd_late n \<longrightarrow> running (rc_threadCtrl (nd_clients n0 ! j)) = 0)"
  shows "\<exists>n'. bls_stop_client n0 i = Ret n' \<and> life_inv bls_client n'"
proof (cases "i < 2")
  case True
  from assms(8) [OF True] obtain c where c: "client_Stop (nd_clients n0 ! i) = Ret c" "rc_stage c = rc_stage (nd_clients n0 ! i)"
    "tc_threads (rc_threadCtrl c) = tc_threads (rc_threadCtrl (nd_clients n0 ! i))" "tc_inv (rc_threadCtrl c)"
    "tc_closing (rc_threadCtrl c) = Waiting"
    using client_Stop_open [of "nd_clients n0 ! i"] by auto
  let ?n = "n0\<lparr>nd_clients := (nd_clients n0)[i := c], nd_closer := WaitClient i\<rparr>"
  have "life_inv bls_client ?n"
    by (rule life_closer [OF assms(1)])
      (use assms(3-8) c True in \<open>auto simp: nth_list_update bls_client_def\<close>)
  with True assms(5) c(1) show ?thesis by (simp add: bls_stop_client_def)
next
  case False
  have "life_inv bls_client (n0\<lparr>nd_closer := CloserDone\<rparr>)"
    by (rule life_closer [OF assms(1)]) (use assms(3-8) False in \<open>auto simp: bls_client_def\<close>)
  with False assms(5) show ?thesis by (simp add: bls_stop_client_def)
qed

lemma bls_close_next_inv:
  assumes "bls_close_next n = Some r" "life_inv bls_client n"
  shows "\<exists>n'. r = Ret n' \<and> life_inv bls_client n'"
proof -
  have len: "length (nd_clients n) = 2" using assms(2) by (simp add: life_inv_def)
  note c = life_client [OF assms(2)]
  consider "nd_closer n = WaitThreads" | i where "nd_closer n = WaitClient i"
    using assms(1) by (auto simp: bls_close_next_def split: closer.splits)
  then show ?thesis
  proof cases
    case 1
    then obtain tc where tc: "close_wait (nd_threadC n) = Some tc" "r = bls_stop_client (n\<lparr>nd_threadC := tc\<rparr>) 0"
      using assms(1) by (auto simp: bls_close_next_def)
    show ?thesis unfolding tc(2)
      by (rule bls_stop_client_inv [OF assms(2)]) (use tc(1) len c(1) c(2) 1 in \<open>auto simp: bls_client_def close_wait_def split: if_splits\<close>)
  next
    case 2
    then obtain d where d: "client_stop_wait (nd_clients n ! i) = Some d"
      "r = bls_stop_client (n\<lparr>nd_clients := (nd_clients n)[i := d]\<rparr>) (Suc i)"
      using assms(1) by (auto simp: bls_close_next_def)
    have i: "i < 2" using c(2) [of 0] 2 by (simp add: bls_client_def)
    note d' = client_stop_wait_Some [OF d(1) c(1) [OF i]]
    have closed: "tc_closing (nd_threadC n) = Closed" using life_open(3) [OF assms(2)] 2 by simp
    show ?thesis unfolding d(2)
      by (rule bls_stop_client_inv [OF assms(2)])
        (use d' len c(1) c(2) 2 closed i in \<open>auto simp: bls_client_def nth_list_update less_Suc_eq\<close>)
  qed
qed

lemma node_return_Some:
  assumes "life_inv P n" "i < 2" "rc_stage (nd_clients n ! i) \<notin> {NotStarted, Returned}"
  shows "\<exists>n'. node_return n i c = Some n' \<and> nd_closer n' = nd_closer n \<and> nd_late n' = nd_late n"
proof -
  from life_client(3,5) [OF assms(1,2)] assms(3) have "so_start (nd_once n)" "tc_threads (nd_threadC n) ! i \<noteq> Finished" by auto
  moreover then have "i < length (tc_threads (nd_threadC n))" using assms(1,2) by (simp add: life_inv_def)
  ultimately show ?thesis by (auto simp: node_return_def thread_return_def)
qed

text \<open>Every step of a BLS node either keeps the invariant or is a failed \<open>Start\<close> of a client.\<close>

definition live_failure :: "node \<Rightarrow> go_panic \<Rightarrow> bool" where
  "live_failure n p \<longleftrightarrow> (\<exists>i m. i < 2 \<and> p = Explicit m \<and> rc_stage (nd_clients n ! i) = Dialing \<and> \<not> ctx_cancelled n i)"

lemma bls_life_step:
  assumes "bls_life n r" "life_inv bls_client n"
  shows "(\<exists>n'. r = Ret n' \<and> life_inv bls_client n') \<or> (\<exists>p. r = Panic p \<and> live_failure n p)"
proof -
  have len: "length (nd_clients n) = 2" using assms(2) by (simp add: life_inv_def)
  note c = life_client [OF assms(2)]
  have ret: "\<exists>n'. node_return n i (nd_clients n ! i) = Some n' \<and> life_inv bls_client n'"
    if i: "i < 2" "rc_stage (nd_clients n ! i) \<notin> {NotStarted, Returned}" for i
  proof -
    from node_return_Some [OF assms(2) i] obtain n' where n': "node_return n i (nd_clients n ! i) = Some n'"
      "nd_closer n' = nd_closer n" "nd_late n' = nd_late n" by blast
    have "life_inv bls_client n'"
      by (rule life_return [OF assms(2) i c(1) [OF i(1)] n'(1)])
        (use c(2) [OF i(1)] n'(2,3) in \<open>simp_all add: bls_client_def\<close>)
    with n'(1) show ?thesis by simp
  qed
  show ?thesis
    using assms(1)
  proof (cases rule: bls_life.cases)
    case shared
    with bls_shared assms(2) show ?thesis by blast
  next
    case (dial i e)
    then have i: "i < 2" "rc_stage (nd_clients n ! i) = Dialing" by (auto simp: bls_dial_def len split: if_splits)
    show ?thesis
    proof (cases e)
      case None
      have busy: "nd_late n \<or> nd_closer n \<in> {NoCloser, WaitThreads}"
        using life_busy [OF assms(2) i(1)] i(2) life_open(3) [OF assms(2)] by auto
      have "life_inv bls_client (n\<lparr>nd_clients := (nd_clients n)[i := client_connected (nd_clients n ! i)]\<rparr>)"
        by (rule client_connected_update [OF assms(2) i])
          (use busy in \<open>auto simp: bls_client_def client_connected_def Go_def\<close>)
      with None dial i len show ?thesis by (auto simp: bls_dial_def)
    next
      case (Some m)
      with dial i len ret [OF i(1)] show ?thesis
        by (auto simp: bls_dial_def live_failure_def split: if_splits)
    qed
  next
    case (loop_end i)
    then have "i < 2" "rc_stage (nd_clients n ! i) = Looping"
      by (auto simp: bls_loop_end_def client_ends_def len split: if_splits)
    with ret [of i] loop_end len show ?thesis by (auto simp: bls_loop_end_def split: if_splits)
  next
    case close
    from close_cases [OF assms(2)] show ?thesis
    proof
      assume "\<not> so_stop (nd_once n) \<and> bls_Close n = Ret (n\<lparr>nd_threadC := (nd_threadC n)\<lparr>tc_stop := True, tc_closing := Waiting\<rparr>,
          nd_closer := WaitThreads, nd_once := (nd_once n)\<lparr>so_stop := True\<rparr>\<rparr>)" (is "_ \<and> _ = Ret ?n")
      moreover then have "life_inv bls_client ?n" using life_open(1) [OF assms(2)]
        by (intro life_close [OF assms(2) _ refl]) (simp_all add: bls_client_def)
      ultimately show ?thesis using close by blast
    qed (use close assms(2) in simp)
  next
    case close_next
    with bls_close_next_inv assms(2) show ?thesis by blast
  qed
qed

lemma don_life_step:
  assumes "don_life n r" "life_inv don_client n"
  shows "(\<exists>n'. r = Ret n' \<and> life_inv don_client n')
    \<or> (\<exists>i m. i < 2 \<and> r = Panic (Explicit m) \<and> rc_stage (nd_clients n ! i) = Dialing)"
proof -
  have len: "length (nd_clients n) = 2" using assms(2) by (simp add: life_inv_def)
  note c = life_client [OF assms(2)]
  show ?thesis
    using assms(1)
  proof (cases rule: don_life.cases)
    case shared
    with don_shared assms(2) show ?thesis by blast
  next
    case (dial i e)
    then have i: "i < 2" "rc_stage (nd_clients n ! i) = Dialing" by (auto simp: don_dial_def len split: if_splits)
    show ?thesis
    proof (cases e)
      case None
      have "life_inv don_client (n\<lparr>nd_clients := (nd_clients n)[i := client_connected (nd_clients n ! i)]\<rparr>)"
        by (rule client_connected_update [OF assms(2) i]) (use i(2) in \<open>auto simp: don_client_def client_connected_def Go_def\<close>)
      with None dial i len show ?thesis by (auto simp: don_dial_def)
    next
      case (Some m)
      obtain d where "client_Stop (nd_clients n ! i) = Ret d"
        using client_Stop_open [OF c(1) [OF i(1)]] c(2) [OF i(1)] i(2) by (auto simp: don_client_def)
      with Some dial i len show ?thesis by (auto simp: don_dial_def)
    qed
  next
    case (loop_end i)
    then have i: "i < 2" "rc_stage (nd_clients n ! i) = Looping"
      by (auto simp: don_loop_end_def client_ends_def len split: if_splits)
    then obtain d where d: "client_Stop (nd_clients n ! i) = Ret d" "tc_inv (rc_threadCtrl d)"
      "tc_closing (rc_threadCtrl d) = closing.Waiting"
      using client_Stop_open [OF c(1) [OF i(1)]] c(2) [OF i(1)] by (auto simp: don_client_def)
    have "life_inv don_client (n\<lparr>nd_clients := (nd_clients n)[i := d\<lparr>rc_stage := Stopping\<rparr>]\<rparr>)"
      by (rule life_update_client [OF assms(2) i(1)]) (use i(2) d c(2) [OF i(1)] in \<open>auto simp: don_client_def\<close>)
    with loop_end d(1) show ?thesis by (auto simp: don_loop_end_def split: if_splits)
  next
    case (stop_end i)
    then obtain d n' where i: "i < 2" "rc_stage (nd_clients n ! i) = Stopping"
      and d: "client_stop_wait (nd_clients n ! i) = Some d" "node_return n i d = Some n'" "r = Ret n'"
      by (auto simp: don_stop_end_def len split: if_splits option.splits)
    note d' = client_stop_wait_Some [OF d(1) c(1) [OF i(1)]]
    have cl: "nd_closer n' = nd_closer n" using d(2) by (auto simp: node_return_def)
    have "life_inv don_client n'"
      by (rule life_return [OF assms(2) i(1) _ d'(3) d(2)])
        (use i(2) d' cl c(2) [OF i(1)] in \<open>auto simp: don_client_def\<close>)
    with d(3) show ?thesis by simp
  next
    case close
    from close_cases [OF assms(2)] show ?thesis
    proof
      assume "\<not> so_stop (nd_once n) \<and> bls_Close n = Ret (n\<lparr>nd_threadC := (nd_threadC n)\<lparr>tc_stop := True, tc_closing := Waiting\<rparr>,
          nd_closer := WaitThreads, nd_once := (nd_once n)\<lparr>so_stop := True\<rparr>\<rparr>)" (is "_ \<and> _ = Ret ?n")
      moreover then have "life_inv don_client ?n" using life_open(1) [OF assms(2)]
        by (intro life_close [OF assms(2) _ refl]) (simp_all add: don_client_def)
      ultimately show ?thesis using close don_Stop_eq by metis
    qed (use close assms(2) don_Stop_eq in simp)
  next
    case stop_next
    then obtain tc where tc: "nd_closer n = WaitThreads" "close_wait (nd_threadC n) = Some tc"
      "r = Ret (n\<lparr>nd_threadC := tc, nd_closer := CloserDone\<rparr>)" by (auto simp: don_stop_next_def split: if_splits)
    have "life_inv don_client (n\<lparr>nd_threadC := tc, nd_closer := CloserDone\<rparr>)"
      by (rule life_closer [OF assms(2)]) (use tc(2) len c(1,2) in \<open>auto simp: don_client_def\<close>)
    with tc(3) show ?thesis by simp
  qed
qed

lemma bls_life_reachable: "bls_runs new_node n \<Longrightarrow> life_inv bls_client n"
  by (induction rule: rtranclp_induct) (use life_new bls_client_new bls_life_step in blast)+

lemma don_life_reachable: "don_runs new_node n \<Longrightarrow> life_inv don_client n"
  by (induction rule: rtranclp_induct) (use life_new don_client_new don_life_step in blast)+

definition all_returned :: "node \<Rightarrow> bool" where
  "all_returned n \<longleftrightarrow> set (tc_threads (nd_threadC n)) \<subseteq> {Finished}
     \<and> (\<forall>c\<in>set (nd_clients n). set (tc_threads (rc_threadCtrl c)) \<subseteq> {Finished})"

lemma all_returned_running:
  "length (nd_clients n) = 2 \<Longrightarrow> all_returned n \<longleftrightarrow> running (nd_threadC n) = 0
     \<and> (\<forall>i<2. running (rc_threadCtrl (nd_clients n ! i)) = 0)"
  by (simp add: all_returned_def running_0_set all_set_conv_all_nth)

section \<open>Properties\<close>


lemmas life_eval = new_node_def new_client_def NewThreadControl_def Go_def Close_def close_wait_def
  CtxCancel_def thread_return_def ctx_cancelled_def node_return_def client_Stop_def client_stop_wait_def
  node_Start_def StartOnce_def StopOnce_def


text \<open>C39: a DON node stops, but not cleanly.  When \<open>Stop\<close> has returned and the node was not started after that,
  all goroutines have returned, and no group is closed twice; but a client whose \<open>Start\<close> fails because
  the node is being stopped panics all the same.\<close>

theorem don_node_stops:
  assumes "don_runs new_node n"
  shows "(don_life n (Panic p) \<longrightarrow> (\<exists>i m. i < 2 \<and> p = Explicit m \<and> rc_stage (nd_clients n ! i) = Dialing))
    \<and> (i < 2 \<longrightarrow> rc_stage (nd_clients n ! i) = Dialing \<longrightarrow> don_dial n i (Some m) = Some (Panic (Explicit m)))
    \<and> (nd_closer n = CloserDone \<longrightarrow> \<not> nd_late n \<longrightarrow> all_returned n)"
proof -
  have inv: "life_inv don_client n" using assms by (rule don_life_reachable)
  then have len: "length (nd_clients n) = 2" by (simp add: life_inv_def)
  have "\<exists>i m. i < 2 \<and> p = Explicit m \<and> rc_stage (nd_clients n ! i) = Dialing" if "don_life n (Panic p)"
    using don_life_step [OF that inv] by auto
  moreover have "don_dial n i (Some m) = Some (Panic (Explicit m))" if "i < 2" "rc_stage (nd_clients n ! i) = Dialing"
    using client_Stop_open [OF life_client(1) [OF inv that(1)]] life_client(2) [OF inv that(1)] that len
    by (auto simp: don_client_def don_dial_def)
  moreover have "all_returned n" if d: "nd_closer n = CloserDone" "\<not> nd_late n"
  proof -
    from d inv have r: "running (nd_threadC n) = 0" using life_open(3) [OF inv] by (simp add: life_inv_def)
    have "running (rc_threadCtrl (nd_clients n ! i)) = 0" if "i < 2" for i
    proof (cases "so_start (nd_once n)")
      case True
      with r that inv have "tc_threads (nd_threadC n) ! i = Finished" by (simp add: running_0_iff life_inv_def)
      with life_client(2,5) [OF inv that] True show ?thesis by (simp add: don_client_def)
    next
      case False
      with life_client(3,4) [OF inv that] show ?thesis by (simp add: running_def)
    qed
    with r show ?thesis by (simp add: all_returned_running [OF len])
  qed
  ultimately show ?thesis by blast
qed

theorem don_node_stops_witness:
  "\<exists>n. don_runs new_node n \<and> nd_closer n = WaitThreads \<and> ctx_cancelled n 0
    \<and> don_dial n 0 (Some ''cancelled'') = Some (Panic (Explicit ''cancelled''))"
proof -
  have "\<exists>n1 t2. don_Stop (node_Start new_node) = Ret n1 \<and> CtxCancel (nd_threadC n1) 0 = Some t2
      \<and> nd_closer n1 = WaitThreads \<and> tc_threads t2 ! 0 = Live True \<and> rc_stage (nd_clients n1 ! 0) = Dialing"
    by (simp add: life_eval don_Stop_def)
  then obtain n1 t2 where s: "don_Stop (node_Start new_node) = Ret n1" "CtxCancel (nd_threadC n1) 0 = Some t2"
    and n1: "nd_closer n1 = WaitThreads" "tc_threads t2 ! 0 = Live True" "rc_stage (nd_clients n1 ! 0) = Dialing" by blast
  have r: "don_runs new_node (n1\<lparr>nd_threadC := t2\<rparr>)"
    using don_life.shared [OF shared_step.start [of new_node]] don_life.close [of "node_Start new_node"]
      don_life.shared [OF shared_step.cancel [OF s(2)]] s(1)
    by simp (meson rtranclp.rtrancl_into_rtrancl rtranclp.rtrancl_refl)
  with don_node_stops [OF r, of _ 0 "''cancelled''"] n1 show ?thesis
    by (intro exI [of _ "n1\<lparr>nd_threadC := t2\<rparr>"]) (simp add: ctx_cancelled_def)
qed

end
