(* ===== verification/Test_Support.thy ===== *)
theory Test_Support
  imports Cmd_Boot
begin

text \<open>
  The helpers of the tests (\<open>core/testutils.go\<close>): a bootstrapper and \<open>n\<close> controllers with generated
  configurations, their start, and the loop that waits until they are connected.  The port and the identity
  of a host are parameters; sleeps are not modelled.
\<close>

section \<open>Configurations\<close>

record 'v DefaultGenerator =
  dg_BootAddr :: string
  dg_RoutingFn :: "ps_message \<Rightarrow> unit"
  dg_ValidationFn :: "string \<Rightarrow> ps_message \<Rightarrow> 'v"

definition test_config :: "string list \<Rightarrow> DiscoveryConfig option \<Rightarrow> PubsubConfig option \<Rightarrow> Config" where
  "test_config addrs dc p = \<lparr>cfg_PrivateKey = [], cfg_ListenAddrs = addrs, cfg_PSK = [], cfg_DialTimeout = 0,
     cfg_DisablePing = False, cfg_UserAgent = [], cfg_NatPortMap = False, cfg_AutoNat = False, cfg_ConnManager = None,
     cfg_Discovery = dc, cfg_Pubsub = p, cfg_MdnsTag = ''p2pmq/mdns/test'', cfg_MsgRouterQueueSize = 0,
     cfg_MsgRouterWorkers = 0, cfg_PProf = None\<rparr>"

definition test_pubsub :: PubsubConfig where
  "test_pubsub = \<lparr>psc_Topics = [], psc_Overlay = None, psc_SubFilter = None, psc_MaxMessageSize = 0,
     psc_MsgValidationTimeout = 0, psc_Scoring = None, psc_MsgValidator = Some \<lparr>mvc_Timeout = 0, mvc_Concurrency = 0\<rparr>,
     psc_MsgIDFnConfig = None, psc_Trace = None\<rparr>"

text \<open>
  The handlers call the functions of the generator.  A handler of the router model is not given the sender,
  so the verdict is one of those the function gives on the message.
\<close>

definition NextConfig :: "'v DefaultGenerator \<Rightarrow> nat
    \<Rightarrow> (Config \<times> (ps_message, err) msgRouter \<times> (ps_message, 'v) msgRouter \<times> string) go" where
  "NextConfig g i =
     (let cfg = test_config [''/ip4/127.0.0.1/tcp/0''] None (Some test_pubsub) in
      go_bind (NewMsgRouter 1024 4 (\<lambda>m r r'. r' = r)) (\<lambda>msgRouter.
      go_bind (NewMsgRouter 1024 4 (\<lambda>m r r'. \<exists>p. r' = dg_ValidationFn g p m)) (\<lambda>valRouter.
      Ret (cfg, msgRouter, valRouter, ''node-'' @ show_nat (i + 1)))))"

section \<open>Controllers\<close>

record ('c, 'v) test_node =
  tn_ctrl :: 'c
  tn_msgRouter :: "(ps_message, err) msgRouter"
  tn_valRouter :: "(ps_message, 'v) msgRouter"

text \<open>The first loop: an error of \<open>NewController\<close> returns the controllers made so far.\<close>

fun create_loop :: "('sk, 'cm, 'ai, 'h, 'dht, 'mdns, 're, 'tr, 'gs, 'ps) setup_lib \<Rightarrow> 'v DefaultGenerator \<Rightarrow> nat list
    \<Rightarrow> ((('ai, 'h, 'dht, 'mdns, 're, 'tr, 'ps, 'top, 'sub, 'fn) Controller, 'v) test_node list \<times> err) go" where
  "create_loop lib g [] = Ret ([], None)"
| "create_loop lib g (i # is) =
     go_bind (NextConfig g i) (\<lambda>(cfg, msgRouter, valRouter, name).
       case NewController lib cfg of
         (c, Some e) \<Rightarrow> Ret ([], Some e)
       | (c, None) \<Rightarrow> go_bind (create_loop lib g is) (\<lambda>(cs, e).
           Ret (\<lparr>tn_ctrl = c, tn_msgRouter = msgRouter, tn_valRouter = valRouter\<rparr> # cs, e)))"

text \<open>The second loop; the routers are started by the controller's goroutines.\<close>

fun start_loop :: "('h, 'dht, 'ai) net_lib \<Rightarrow> (string \<Rightarrow> string + 'ai)
    \<Rightarrow> (('ai, 'h, 'dht, 'mdns, 're, 'tr, 'ps, 'top, 'sub, 'fn) Controller, 'v) test_node list
    \<Rightarrow> (('ai, 'h, 'dht, 'mdns, 're, 'tr, 'ps, 'top, 'sub, 'fn) Controller, 'v) test_node list go" where
  "start_loop net parse [] = Ret []"
| "start_loop net parse (t # ts) =
     go_bind (Ctrl_Life.Start net parse True True (tn_ctrl t)) (\<lambda>(c, ev).
     go_bind (start_loop net parse ts) (\<lambda>ts.
       Ret (\<lparr>tn_ctrl = c, tn_msgRouter = Msg_Router.Start (tn_msgRouter t),
             tn_valRouter = Msg_Router.Start (tn_valRouter t)\<rparr> # ts)))"

definition StartControllers :: "('sk, 'cm, 'ai, 'h, 'dht, 'mdns, 're, 'tr, 'gs, 'ps) setup_lib \<Rightarrow> ('h, 'dht, 'ai) net_lib
    \<Rightarrow> nat \<Rightarrow> 'v DefaultGenerator
    \<Rightarrow> ((('ai, 'h, 'dht, 'mdns, 're, 'tr, 'ps, 'top, 'sub, 'fn) Controller, 'v) test_node list \<times> err) go" where
  "StartControllers lib net n g =
     go_bind (create_loop lib g [0..<n]) (\<lambda>(cs, e).
       case e of
         Some m \<Rightarrow> Ret (cs, Some m)
       | None \<Rightarrow> go_bind (start_loop net (sl_AddrInfoFromString lib) cs) (\<lambda>cs. Ret (cs, None)))"

section \<open>Waiting for connections\<close>

text \<open>The loop for one controller.  \<open>polls k\<close> is what the host reports in iteration \<open>k\<close>; a run that does not
  end is \<open>None\<close>.\<close>

partial_function (option) wait_loop ::
    "int \<Rightarrow> (nat \<Rightarrow> (string \<times> Connectedness) list) \<Rightarrow> nat \<Rightarrow> string list \<Rightarrow> string list option" where
  "wait_loop n polls k seen =
     (if int (length seen) < n
      then wait_loop n polls (Suc k) (seen @ map fst (filter (\<lambda>(p, c). c = Connected) (polls k)))
      else Some seen)"

fun waitControllersConnected :: "int \<Rightarrow> (nat \<Rightarrow> (string \<times> Connectedness) list) list \<Rightarrow> unit option" where
  "waitControllersConnected n [] = Some ()"
| "waitControllersConnected n (polls # cs) =
     (case wait_loop n polls 0 [] of None \<Rightarrow> None | Some c \<Rightarrow> waitControllersConnected n cs)"

text \<open>
  The set-up of a test: it fails with the first error, and otherwise returns the controllers; the clean-up
  closes them and then the bootstrapper.  The call of \<open>waitControllersConnected\<close> names no controller.
\<close>

definition SetupTestControllers :: "('sk, 'cm, 'ai, 'h, 'dht, 'mdns, 're, 'tr, 'gs, 'ps) setup_lib \<Rightarrow> ('h, 'dht, 'ai) net_lib
    \<Rightarrow> ('h \<Rightarrow> string) \<Rightarrow> nat \<Rightarrow> nat \<Rightarrow> (ps_message \<Rightarrow> unit) \<Rightarrow> (string \<Rightarrow> ps_message \<Rightarrow> 'v)
    \<Rightarrow> (string + ('ai, 'h, 'dht, 'mdns, 're, 'tr, 'ps, 'top, 'sub, 'fn) Controller
        \<times> (('ai, 'h, 'dht, 'mdns, 're, 'tr, 'ps, 'top, 'sub, 'fn) Controller, 'v) test_node list) go option" where
  "SetupTestControllers lib net hostID port n routingFn valFn =
     (let bootAddr = ''/ip4/127.0.0.1/tcp/'' @ show_nat (5000 + port);
          dc = \<lparr>dc_Mode = ModeBootstrapper, dc_Bootstrappers = [], dc_ProtocolPrefix = ''p2pmq/kad/test''\<rparr> in
      case NewController lib (test_config [bootAddr] (Some dc) None) of
        (bt, Some e) \<Rightarrow> Some (Ret (Inl e))
      | (bt, None) \<Rightarrow>
          (let g = \<lparr>dg_BootAddr = bootAddr @ ''/p2p/'' @ hostID (the (nd_host bt)), dg_RoutingFn = routingFn, dg_ValidationFn = valFn\<rparr> in
           case go_bind (Ctrl_Life.Start net (sl_AddrInfoFromString lib) False False bt) (\<lambda>(bt, ev).
                  go_bind (StartControllers lib net n g) (\<lambda>(cs, e). Ret (bt, cs, e))) of
             Panic p \<Rightarrow> Some (Panic p)
           | Ret (bt, cs, Some m) \<Rightarrow> Some (Ret (Inl m))
           | Ret (bt, cs, None) \<Rightarrow>
               map_option (\<lambda>_. Ret (Inr (bt, cs))) (waitControllersConnected (int n) [])))"

section \<open>Lemmas\<close>

text \<open>The wait ends if every poll reports a connected peer, however few: a peer counts once in each poll.\<close>

lemma wait_loop_ends:
  assumes "\<And>k. \<exists>p. (p, Connected) \<in> set (polls k)"
  shows "\<exists>c. wait_loop n polls k seen = Some c \<and> n \<le> int (length c)"
proof (induction "nat (n - int (length seen))" arbitrary: k seen rule: less_induct)
  case less
  show ?case
  proof (cases "int (length seen) < n")
    case True
    let ?new = "map fst (filter (\<lambda>(p, c). c = Connected) (polls k))"
    have "?new \<noteq> []" using assms [of k] by (auto simp: filter_empty_conv)
    then have "0 < length ?new" by blast
    then have "nat (n - int (length (seen @ ?new))) < nat (n - int (length seen))" using True by simp
    from less [OF this] True show ?thesis by (subst wait_loop.simps) simp
  next
    case False
    then show ?thesis by (subst wait_loop.simps) simp
  qed
qed

lemma wait_loop_one_peer:
  assumes "length seen \<le> n"
  shows "wait_loop (int n) (\<lambda>_. [(p, Connected)]) k seen = Some (seen @ replicate (n - length seen) p)"
  using assms
proof (induction "n - length seen" arbitrary: k seen)
  case 0
  then show ?case by (subst wait_loop.simps) simp
next
  case (Suc d)
  then have "wait_loop (int n) (\<lambda>_. [(p, Connected)]) (Suc k) (seen @ [p])
      = Some ((seen @ [p]) @ replicate (n - length (seen @ [p])) p)"
    by (intro Suc(1)) simp_all
  moreover have "replicate (n - length seen) p = p # replicate (n - Suc (length seen)) p"
    using Suc(2) by (simp flip: Suc_diff_Suc replicate_Suc)
  ultimately show ?case using Suc(2) by (subst wait_loop.simps) simp
qed

text \<open>The set-up itself waits for nobody.\<close>

lemma setup_waits_for_nobody: "waitControllersConnected n [] = Some ()"
  by simp

text \<open>
  With a library that builds the generated configuration, \<open>StartControllers\<close> returns exactly \<open>n\<close> controllers,
  each started with a loop of its own for each router.
\<close>

lemma create_loop_ok:
  assumes "NewController lib (test_config [''/ip4/127.0.0.1/tcp/0''] None (Some test_pubsub)) = (c, None)"
  shows "\<exists>ts. create_loop lib g is = Ret (ts, None) \<and> length ts = length is
    \<and> (\<forall>t \<in> set ts. tn_ctrl t = c \<and> rt_loops (tn_msgRouter t) = [] \<and> rt_loops (tn_valRouter t) = [])"
proof (induction "is")
  case (Cons i is')
  moreover obtain mr vr name where "NextConfig g i = Ret (test_config [''/ip4/127.0.0.1/tcp/0''] None (Some test_pubsub), mr, vr, name)"
      "rt_loops mr = []" "rt_loops vr = []"
    by (auto simp: NextConfig_def NewMsgRouter_def)
  ultimately show ?case using assms by auto
qed simp

lemma start_loop_ok:
  assumes "\<And>t. t \<in> set ts \<Longrightarrow> (\<exists>c ev. Ctrl_Life.Start net parse True True (tn_ctrl t) = Ret (c, ev) \<and> P c)
    \<and> rt_loops (tn_msgRouter t) = [] \<and> rt_loops (tn_valRouter t) = []"
  shows "\<exists>ts'. start_loop net parse ts = Ret ts' \<and> length ts' = length ts
    \<and> (\<forall>t \<in> set ts'. P (tn_ctrl t) \<and> rt_loops (tn_msgRouter t) = [Idle] \<and> rt_loops (tn_valRouter t) = [Idle])"
  using assms
proof (induction ts)
  case (Cons t ts)
  from Cons.prems [of t] obtain c ev where c: "Ctrl_Life.Start net parse True True (tn_ctrl t) = Ret (c, ev)" "P c"
    "rt_loops (tn_msgRouter t) = []" "rt_loops (tn_valRouter t) = []" by auto
  from Cons.IH Cons.prems obtain ts' where "start_loop net parse ts = Ret ts'" "length ts' = length ts"
    "\<forall>t \<in> set ts'. P (tn_ctrl t) \<and> rt_loops (tn_msgRouter t) = [Idle] \<and> rt_loops (tn_valRouter t) = [Idle]" by auto
  with c show ?case by (simp add: Msg_Router.Start_def)
qed simp

lemma StartControllers_ok:
  fixes c :: "('ai, 'h, 'dht, 'mdns, 're, 'tr, 'ps, 'top, 'sub, 'fn) Controller"
  assumes "routing_called lib" "\<And>d. nl_Bootstrap net d = None"
    "NewController lib (test_config [''/ip4/127.0.0.1/tcp/0''] None (Some test_pubsub)) = (c, None)"
  shows "\<exists>ts :: (('ai, 'h, 'dht, 'mdns, 're, 'tr, 'ps, 'top, 'sub, 'fn) Controller, 'v) test_node list.
    StartControllers lib net n g = Ret (ts, None) \<and> length ts = n
    \<and> (\<forall>t \<in> set ts. 2 \<le> running (nd_threadControl (tn_ctrl t)) \<and> rt_loops (tn_msgRouter t) = [Idle]
        \<and> rt_loops (tn_valRouter t) = [Idle])"
proof -
  obtain ts where ts: "create_loop lib g [0..<n] = Ret (ts, None)" "length ts = n"
    "\<forall>t \<in> set ts. tn_ctrl t = c \<and> rt_loops (tn_msgRouter t) = [] \<and> rt_loops (tn_valRouter t) = []"
    using create_loop_ok [OF assms(3), of g "[0..<n]"] by auto
  have "\<exists>c' ev. Ctrl_Life.Start net (sl_AddrInfoFromString lib) True True c = Ret (c', ev)
      \<and> 2 \<le> running (nd_threadControl c')"
    using start_ready [OF assms(1,3,2), of "nd_threadControl c"] by auto
  with ts(3) have "(\<exists>c' ev. Ctrl_Life.Start net (sl_AddrInfoFromString lib) True True (tn_ctrl t) = Ret (c', ev)
      \<and> 2 \<le> running (nd_threadControl c')) \<and> rt_loops (tn_msgRouter t) = [] \<and> rt_loops (tn_valRouter t) = []"
    if "t \<in> set ts" for t using that by auto
  from start_loop_ok [where P = "\<lambda>c. 2 \<le> running (nd_threadControl c)", of ts, OF this] ts(1,2)
  show ?thesis by (auto simp: StartControllers_def)
qed

end
