(* ===== verification/Router_Drain.thy ===== *)
theory Router_Drain
  imports Msg_Router
begin

text \<open>
  Progress of the message router (\<open>core/router.go\<close>): what its loops and goroutines do when nothing new is
  submitted and no handler is refreshed.
\<close>

section \<open>Steps of the router's own goroutines\<close>

inductive rt_quiet :: "('m, 'r) msgRouter \<Rightarrow> ('m, 'r) msgRouter \<Rightarrow> bool" where
  receive: "loop_receive s i = Some s' \<Longrightarrow> rt_quiet s s'"
| dispatch: "dispatchMsg s i = Some s' \<Longrightarrow> rt_quiet s s'"
| handler: "run_handler s j res = Some s' \<Longrightarrow> rt_quiet s s'"
| call_back: "run_callback s j = Some s' \<Longrightarrow> rt_quiet s s'"
| release: "run_release s j = Some s' \<Longrightarrow> rt_quiet s s'"

lemma quiet_rt_step: "rt_quiet s s' \<Longrightarrow> rt_step zr s s'"
  by (cases rule: rt_quiet.cases) (auto intro: rt_step.intros)

lemma quiet_run_steps: "rt_quiet\<^sup>*\<^sup>* s s' \<Longrightarrow> (rt_step zr)\<^sup>*\<^sup>* s s'"
  by (induction rule: rtranclp_induct) (auto intro: rtranclp.rtrancl_into_rtrancl quiet_rt_step)

section \<open>Work\<close>

text \<open>The steps still ahead of a message: five from the queue, one of which takes it out, and so on.\<close>

definition loop_work :: "('m, 'r) start_loop \<Rightarrow> nat" where
  "loop_work l = (case l of Dispatching w \<Rightarrow> 4 | _ \<Rightarrow> 0)"

definition task_work :: "stage \<times> ('m, 'r) MsgWrapper \<Rightarrow> nat" where
  "task_work t = (case fst t of Running \<Rightarrow> 3 | CallingBack \<Rightarrow> 2 | Releasing \<Rightarrow> 1)"

definition rt_work :: "('m, 'r) msgRouter \<Rightarrow> nat" where
  "rt_work s = 5 * length (rt_q s) + sum_list (map loop_work (rt_loops s)) + sum_list (map task_work (rt_tasks s))"

lemma sum_map_update:
  fixes f :: "'a \<Rightarrow> nat"
  assumes "i < length xs"
  shows "sum_list (map f (xs[i := x])) + f (xs ! i) = sum_list (map f xs) + f x"
  using assms by (induction xs arbitrary: i) (auto split: nat.splits)

lemma sum_map_drop:
  fixes f :: "'a \<Rightarrow> nat"
  assumes "j < length xs"
  shows "sum_list (map f (take j xs @ drop (Suc j) xs)) + f (xs ! j) = sum_list (map f xs)"
proof -
  have "sum_list (map f xs) = sum_list (map f (take j xs @ xs ! j # drop (Suc j) xs))"
    using id_take_nth_drop [OF assms] by simp
  then show ?thesis by simp
qed

lemma drain_work:
  assumes "rt_quiet s s'"
  shows "rt_work s' < rt_work s"
  using assms
proof (cases rule: rt_quiet.cases)
  case (receive i)
  then show ?thesis
  proof (rule loop_receive_SomeE)
    fix x q
    assume a: "i < length (rt_loops s)" "rt_loops s ! i = Idle" "rt_q s = x # q"
      "s' = s\<lparr>rt_q := q, rt_loops := (rt_loops s)[i := received x]\<rparr>"
    have "loop_work (received x) \<le> 4" by (auto simp: loop_work_def received_def split: option.splits)
    with a sum_map_update [of i "rt_loops s" loop_work "received x"] show ?thesis by (simp add: rt_work_def loop_work_def)
  qed
next
  case (dispatch i)
  then show ?thesis
  proof (rule dispatchMsg_SomeE)
    fix w
    assume "i < length (rt_loops s)" "rt_loops s ! i = Dispatching w"
      "s' = s\<lparr>rt_workers := Suc (rt_workers s), rt_loops := (rt_loops s)[i := Idle],
        rt_tasks := rt_tasks s @ [(Running, w)], rt_dispatched := rt_dispatched s @ [mw_key w]\<rparr>"
    with sum_map_update [of i "rt_loops s" loop_work Idle] show ?thesis by (simp add: rt_work_def loop_work_def task_work_def)
  qed
next
  case (handler j res)
  then show ?thesis
  proof (rule run_handler_SomeE)
    fix w
    assume "j < length (rt_tasks s)" "rt_tasks s ! j = (Running, w)"
      "s' = s\<lparr>rt_tasks := (rt_tasks s)[j := (CallingBack, w\<lparr>mw_Result := res\<rparr>)], rt_handled := rt_handled s @ [(mw_key w, res)]\<rparr>"
    with sum_map_update [of j "rt_tasks s" task_work "(CallingBack, w\<lparr>mw_Result := res\<rparr>)"] show ?thesis
      by (simp add: rt_work_def task_work_def)
  qed
next
  case (call_back j)
  then show ?thesis
  proof (rule run_callback_SomeE)
    fix w
    assume "j < length (rt_tasks s)" "rt_tasks s ! j = (CallingBack, w)"
      "s' = s\<lparr>rt_tasks := (rt_tasks s)[j := (Releasing, w)], rt_waiters := callback (rt_waiters s) w\<rparr>"
    with sum_map_update [of j "rt_tasks s" task_work "(Releasing, w)"] show ?thesis by (simp add: rt_work_def task_work_def)
  qed
next
  case (release j)
  then show ?thesis
  proof (rule run_release_SomeE)
    fix w
    assume "j < length (rt_tasks s)" "rt_tasks s ! j = (Releasing, w)"
      "s' = s\<lparr>rt_tasks := take j (rt_tasks s) @ drop (Suc j) (rt_tasks s), rt_workers := rt_workers s - 1\<rparr>"
    with sum_map_drop [of j "rt_tasks s" task_work] show ?thesis by (simp add: rt_work_def task_work_def)
  qed
qed

lemma drain_run_work: "(rt_quiet ^^ n) s s' \<Longrightarrow> n + rt_work s' \<le> rt_work s"
proof (induction n arbitrary: s')
  case (Suc n)
  then obtain t where "(rt_quiet ^^ n) s t" "rt_quiet t s'" by auto
  with Suc.IH drain_work show ?case by fastforce
qed simp

lemma sum_map_le: "(\<And>x. f x \<le> k) \<Longrightarrow> sum_list (map f xs) \<le> k * length xs" for f :: "'a \<Rightarrow> nat"
  by (induction xs) (auto simp: add_le_mono)

lemma rt_work_le: "rt_work s \<le> 5 * length (rt_q s) + 4 * length (rt_loops s) + 3 * length (rt_tasks s)"
proof -
  have "sum_list (map loop_work (rt_loops s)) \<le> 4 * length (rt_loops s)"
    by (rule sum_map_le) (simp add: loop_work_def split: start_loop.splits)
  moreover have "sum_list (map task_work (rt_tasks s)) \<le> 3 * length (rt_tasks s)"
    by (rule sum_map_le) (simp add: task_work_def split: stage.splits)
  ultimately show ?thesis by (simp add: rt_work_def)
qed

section \<open>Progress\<close>

lemma quiet_same: "rt_quiet s s' \<Longrightarrow> rt_handler s' = rt_handler s \<and> rt_accepted s' = rt_accepted s"
  by (cases rule: rt_quiet.cases)
    (auto elim: loop_receive_SomeE dispatchMsg_SomeE run_handler_SomeE run_callback_SomeE run_release_SomeE)

lemma quiet_run_same: "rt_quiet\<^sup>*\<^sup>* s s' \<Longrightarrow> rt_handler s' = rt_handler s \<and> rt_accepted s' = rt_accepted s"
  by (induction rule: rtranclp_induct) (auto dest: quiet_same)

text \<open>A router with a worker slot whose handler always returns stops only when nothing is left to do.\<close>

lemma drain_progress:
  assumes "\<And>s'. \<not> rt_quiet s s'" "rt_bounds s" "0 < rt_workersCap s" "\<And>m r. \<exists>r'. rt_handler s m r r'"
  shows "rt_tasks s = [] \<and> (\<forall>l \<in> set (rt_loops s). \<forall>w. l \<noteq> Dispatching w) \<and> (Idle \<in> set (rt_loops s) \<longrightarrow> rt_q s = [])"
proof -
  have tasks: "rt_tasks s = []"
  proof (rule ccontr)
    assume t: "rt_tasks s \<noteq> []"
    then have l: "0 < length (rt_tasks s)" by simp
    obtain st w where w: "rt_tasks s ! 0 = (st, w)" by fastforce
    obtain r where "rt_handler s (mw_Msg w) (mw_Result w) r" using assms(4) by blast
    then have "run_handler s 0 r \<noteq> None \<or> run_callback s 0 \<noteq> None \<or> run_release s 0 \<noteq> None"
      using l w assms(2) by (cases st) (auto simp: run_handler_def run_callback_def run_release_def rt_bounds_def)
    then show False using assms(1) by (auto intro: rt_quiet.intros)
  qed
  have "l \<noteq> Dispatching w" if l: "l \<in> set (rt_loops s)" for l w
  proof
    assume d: "l = Dispatching w"
    from l obtain i where i: "i < length (rt_loops s)" "rt_loops s ! i = l" by (auto simp: in_set_conv_nth)
    with d tasks assms(2,3) have "dispatchMsg s i \<noteq> None" by (simp add: dispatchMsg_def rt_bounds_def)
    then show False using assms(1) by (auto intro: rt_quiet.intros)
  qed
  moreover have "rt_q s = []" if idle: "Idle \<in> set (rt_loops s)"
  proof (rule ccontr)
    assume "rt_q s \<noteq> []"
    moreover from idle obtain i where i: "i < length (rt_loops s)" "rt_loops s ! i = Idle" by (auto simp: in_set_conv_nth)
    ultimately have "loop_receive s i \<noteq> None" by (auto simp: loop_receive_def split: list.splits)
    then show False using assms(1) by (auto intro: rt_quiet.intros)
  qed
  ultimately show ?thesis using tasks by blast
qed

section \<open>Properties\<close>

text \<open>C7: the router drains.  From any reachable state of a router with a worker whose handler always returns,
  if nothing new is submitted, its goroutines take at most five steps for each queue place, four for each
  loop and three for each worker; when they can do nothing more, no goroutine and no loop holds a message,
  and if a loop is still waiting, the queue is empty and exactly the accepted messages have been handled,
  each once.\<close>

theorem router_drains:
  assumes "NewMsgRouter qSize workers h = Ret s0" and "(rt_step zr)\<^sup>*\<^sup>* s0 s"
    and "0 < workers" and "\<And>m r. \<exists>r'. rt_handler s m r r'"
  shows "(\<forall>n s'. (rt_quiet ^^ n) s s' \<longrightarrow> n \<le> 5 * nat qSize + 4 * length (rt_loops s) + 3 * nat workers)
    \<and> (\<forall>s'. rt_quiet\<^sup>*\<^sup>* s s' \<longrightarrow> (\<forall>s''. \<not> rt_quiet s' s'') \<longrightarrow>
        rt_tasks s' = [] \<and> (\<forall>l \<in> set (rt_loops s'). \<forall>w. l \<noteq> Dispatching w)
        \<and> (Idle \<in> set (rt_loops s') \<longrightarrow> rt_q s' = [] \<and> mset (map fst (rt_handled s')) = mset (rt_accepted s)))"
proof -
  note inv = reachable_inv [OF assms(1,2)]
  have "length (rt_q s) \<le> nat qSize" "length (rt_tasks s) \<le> nat workers"
    using inv(1,6,7) by (auto simp: rt_bounds_def)
  then have "rt_work s \<le> 5 * nat qSize + 4 * length (rt_loops s) + 3 * nat workers"
    using rt_work_le [of s] by linarith
  then have "n \<le> 5 * nat qSize + 4 * length (rt_loops s) + 3 * nat workers" if "(rt_quiet ^^ n) s s'" for n s'
    using drain_run_work [OF that] by linarith
  moreover have "rt_tasks s' = [] \<and> (\<forall>l \<in> set (rt_loops s'). \<forall>w. l \<noteq> Dispatching w)
      \<and> (Idle \<in> set (rt_loops s') \<longrightarrow> rt_q s' = [] \<and> mset (map fst (rt_handled s')) = mset (rt_accepted s))"
    if r: "rt_quiet\<^sup>*\<^sup>* s s'" and stuck: "\<forall>s''. \<not> rt_quiet s' s''" for s'
  proof -
    note inv' = reachable_inv [OF assms(1) rtranclp_trans [OF assms(2) quiet_run_steps [OF r]]]
    have p: "rt_tasks s' = []" "\<And>l w. l \<in> set (rt_loops s') \<Longrightarrow> l \<noteq> Dispatching w" "Idle \<in> set (rt_loops s') \<longrightarrow> rt_q s' = []"
      using drain_progress [of s'] stuck inv'(1,7) assms(3,4) quiet_run_same [OF r] by auto
    then have "task_keys s' = []" "loop_keys s' = []"
      by (auto simp: task_keys_def loop_keys_def loop_key_def split: start_loop.splits)
    with p(3) inv'(2) have "Idle \<in> set (rt_loops s') \<longrightarrow> mset (map fst (rt_handled s')) = mset (rt_accepted s')"
      by (auto simp: rt_conserved_def q_keys_def)
    with p quiet_run_same [OF r] show ?thesis by auto
  qed
  ultimately show ?thesis by blast
qed

theorem router_drains_witness:
  "\<exists>s s'. run_ops toy_ops toy_router = Some s \<and> rt_quiet\<^sup>*\<^sup>* s s' \<and> rt_tasks s' = []
    \<and> mset (map fst (rt_handled s')) = {#(0, 41)#} \<and> (\<forall>n t. (rt_quiet ^^ n) s t \<longrightarrow> n \<le> 12)"
proof -
  obtain s where s: "run_ops toy_ops toy_router = Some s"
    "rt_tasks s = [(CallingBack, \<lparr>mw_id = 0, mw_Peer = ''p'', mw_Msg = 41, mw_Result = 42, mw_callbackC = True\<rparr>)]"
    "rt_loops s = [Idle]" "rt_q s = []" "rt_accepted s = [(0, 41)]"
    using toy_run by auto
  have r: "(rt_step 0)\<^sup>*\<^sup>* toy_router s" using s(1) by (rule run_ops_steps) (auto intro: toy_ops_steps)
  note inv = reachable_inv [OF toy_router_new r]
  have h: "rt_handler s = (\<lambda>m r r'. r' = m + 1)"
    using s(1) by (auto simp: toy_ops_def toy_router_def Start_def HandleWait_def send_q_def loop_receive_def received_def
      dispatchMsg_def run_handler_def Let_def)
  obtain s1 s2 where q: "run_callback s 0 = Some s1" "run_release s1 0 = Some s2" "rt_tasks s2 = []" "rt_q s2 = []"
      "rt_loops s2 = [Idle]"
    using s(2-4) inv(1) by (auto simp: run_callback_def run_release_def rt_bounds_def)
  have q12: "rt_quiet\<^sup>*\<^sup>* s s2" using rt_quiet.call_back [OF q(1)] rt_quiet.release [OF q(2)] by (rule rtranclp_two)
  have stuck: "\<not> rt_quiet s2 t" for t
    using q(3-5) by (auto elim!: rt_quiet.cases simp: loop_receive_def dispatchMsg_def run_handler_def run_callback_def
        run_release_def split: if_splits)
  from router_drains [OF toy_router_new r] h q12 stuck q(5) s(3,5)
  have "rt_tasks s2 = [] \<and> mset (map fst (rt_handled s2)) = {#(0, 41)#} \<and> (\<forall>n t. (rt_quiet ^^ n) s t \<longrightarrow> n \<le> 12)"
    by auto
  with s(1) q12 show ?thesis by (intro exI [of _ s] exI [of _ s2] conjI) simp_all
qed

end
