(* ===== verification/Validation_Wire.thy ===== *)
theory Validation_Wire
  imports Val_Router Grpc_Clients
begin

text \<open>
  The validation service with its clients: \<open>PushWait\<close> and the streams of \<open>api/grpc/val_router.go\<close> on one side, the
  verifiers of \<open>api/grpc/client/verifier.go\<close> on the other.  A stream is a FIFO list in each direction; any number
  of clients connect, and a \<open>Send\<close> on either side may fail.  \<open>R i m v\<close> says that the validator of client \<open>i\<close> can
  give the verdict \<open>v\<close> on the message \<open>m\<close>.
\<close>

section \<open>The system\<close>

record vstream =
  vs_down :: "Message list"
  vs_client :: verifier
  vs_up :: "ValidatedMessage list"

record vwire =
  vw_router :: ValidationRouterImpl
  vw_streams :: "vstream list"

text \<open>The steps of \<open>PushWait\<close> and of a lookup under way, which do not touch a stream.\<close>

inductive vr_local :: "ValidationRouterImpl \<Rightarrow> ValidationRouterImpl \<Rightarrow> bool" where
  push: "vr_local r (pushWait_add r m)"
| queue: "pushWait_queue r c False = Some r' \<Longrightarrow> vr_local r r'"
| await: "pushWait_wait r c = Some r' \<Longrightarrow> vr_local r r'"
| timeout: "pushWait_timeout r c = Some r' \<Longrightarrow> vr_local r r'"
| return: "pushWait_return r c = Some r' \<Longrightarrow> vr_local r r'"
| resolve: "resolve_send r j = Some r' \<Longrightarrow> vr_local r r'"

text \<open>Without a buffer a message goes straight to a stream that waits for one.\<close>

definition hand_over :: "ValidationRouterImpl \<Rightarrow> nat \<Rightarrow> (Message \<Rightarrow> stream_err option)
    \<Rightarrow> (ValidationRouterImpl \<times> Message list) option" where
  "hand_over r c send =
     (if vr_qSize r = 0 \<and> vr_q r = []
      then (case vr_calls r c of
              None \<Rightarrow> None
            | Some k \<Rightarrow> map_option (\<lambda>r'. (r', if send (pw_msg k) = None then [pw_msg k] else [])) (pushWait_queue r c True))
      else None)"

definition stream_send :: "ValidationRouterImpl \<Rightarrow> (Message \<Rightarrow> stream_err option) \<Rightarrow> (ValidationRouterImpl \<times> Message list) option" where
  "stream_send r send =
     (case handle_next r send of
        None \<Rightarrow> None
      | Some (r', e) \<Rightarrow> Some (r', if e = None then take 1 (vr_q r) else []))"

definition client_recv :: "vstream \<Rightarrow> vstream option" where
  "client_recv st =
     (case vs_down st of
        [] \<Rightarrow> None
      | m # ms \<Rightarrow> map_option (\<lambda>v. st\<lparr>vs_down := ms, vs_client := v\<rparr>) (verifier_recv (vs_client st) False (Some m) None))"

text \<open>One reply; \<open>ok\<close> says whether \<open>Send\<close> delivers it.\<close>

definition client_reply :: "vstream \<Rightarrow> (Message \<Rightarrow> ValidationResult) \<Rightarrow> bool \<Rightarrow> vstream option" where
  "client_reply st validate ok =
     (case verifier_next (vs_client st) validate of
        None \<Rightarrow> None
      | Some v \<Rightarrow> Some (st\<lparr>vs_client := v,
          vs_up := vs_up st @ (if ok then drop (length (vf_sent (vs_client st))) (vf_sent v) else [])\<rparr>))"

inductive client_step :: "(Message \<Rightarrow> ValidationResult \<Rightarrow> bool) \<Rightarrow> vstream \<Rightarrow> vstream \<Rightarrow> bool" for V where
  recv: "client_recv st = Some st' \<Longrightarrow> client_step V st st'"
| put: "verifier_put (vs_client st) = Some v \<Longrightarrow> client_step V st (st\<lparr>vs_client := v\<rparr>)"
| reply: "client_reply st validate ok = Some st' \<Longrightarrow> (\<And>m. V m (validate m)) \<Longrightarrow> client_step V st st'"
| stop: "verifier_stop (vs_client st) = Some v \<Longrightarrow> client_step V st (st\<lparr>vs_client := v\<rparr>)"
| ctx_done: "verifier_ctxDone (vs_client st) = Some v \<Longrightarrow> client_step V st (st\<lparr>vs_client := v\<rparr>)"

inductive vw_step :: "(nat \<Rightarrow> Message \<Rightarrow> ValidationResult \<Rightarrow> bool) \<Rightarrow> vwire \<Rightarrow> vwire \<Rightarrow> bool" for R where
  local: "vr_local (vw_router w) r \<Longrightarrow> vw_step R w (w\<lparr>vw_router := r\<rparr>)"
| connect: "verifier_Start None None = Inr v \<Longrightarrow>
    vw_step R w (w\<lparr>vw_streams := vw_streams w @ [\<lparr>vs_down = [], vs_client = v, vs_up = []\<rparr>]\<rparr>)"
| hand_over: "hand_over (vw_router w) c send = Some (r, ms) \<Longrightarrow> i < length (vw_streams w) \<Longrightarrow> st = vw_streams w ! i \<Longrightarrow>
    vw_step R w (w\<lparr>vw_router := r, vw_streams := (vw_streams w)[i := st\<lparr>vs_down := vs_down st @ ms\<rparr>]\<rparr>)"
| send: "stream_send (vw_router w) send = Some (r, ms) \<Longrightarrow> i < length (vw_streams w) \<Longrightarrow> st = vw_streams w ! i \<Longrightarrow>
    vw_step R w (w\<lparr>vw_router := r, vw_streams := (vw_streams w)[i := st\<lparr>vs_down := vs_down st @ ms\<rparr>]\<rparr>)"
| client: "i < length (vw_streams w) \<Longrightarrow> client_step (R i) (vw_streams w ! i) st \<Longrightarrow>
    vw_step R w (w\<lparr>vw_streams := (vw_streams w)[i := st]\<rparr>)"
| reply: "i < length (vw_streams w) \<Longrightarrow> st = vw_streams w ! i \<Longrightarrow> vs_up st = x # xs \<Longrightarrow>
    receive_reply (vw_router w) (Inr (Some x)) = Some r \<Longrightarrow>
    vw_step R w (w\<lparr>vw_router := r, vw_streams := (vw_streams w)[i := st\<lparr>vs_up := xs\<rparr>]\<rparr>)"

definition new_wire :: "nat \<Rightarrow> vwire" where
  "new_wire n = \<lparr>vw_router = NewValidationRouterServer n, vw_streams = []\<rparr>"

section \<open>Invariant\<close>

definition pushed :: "ValidationRouterImpl \<Rightarrow> Message set" where
  "pushed r = {pw_msg k |c k. vr_calls r c = Some k}"

text \<open>Everything on its way to a validator was pushed; everything on its way back is a verdict on such a message.\<close>

definition stream_ok :: "Message set \<Rightarrow> (Message \<Rightarrow> ValidationResult \<Rightarrow> bool) \<Rightarrow> vstream \<Rightarrow> bool" where
  "stream_ok M V st \<longleftrightarrow> set (vs_down st) \<subseteq> M \<and> set (vf_valQ (vs_client st)) \<subseteq> M
     \<and> set_option (vf_hand (vs_client st)) \<subseteq> M
     \<and> (\<forall>x \<in> set (vs_up st). \<exists>m \<in> M. vm_Msg x = Some m \<and> V m (vm_Result x))"

definition vw_inv :: "(nat \<Rightarrow> Message \<Rightarrow> ValidationResult \<Rightarrow> bool) \<Rightarrow> vwire \<Rightarrow> bool" where
  "vw_inv R w \<longleftrightarrow> vr_inv (vw_router w) \<and> set (vr_q (vw_router w)) \<subseteq> pushed (vw_router w)
     \<and> (\<forall>i < length (vw_streams w). stream_ok (pushed (vw_router w)) (R i) (vw_streams w ! i))
     \<and> (\<forall>(mid, v) \<in> set (vr_replies (vw_router w)). \<exists>i < length (vw_streams w). \<exists>m \<in> pushed (vw_router w).
          msg_MessageId m = mid \<and> R i m v)"

lemma stream_ok_mono: "stream_ok M V st \<Longrightarrow> M \<subseteq> M' \<Longrightarrow> stream_ok M' V st"
  unfolding stream_ok_def by blast

lemma pushed_set_state [simp]: "pushed (set_state r c st) = pushed r"
  by (auto simp: pushed_def split: if_splits) (metis map_option_eq_Some option.map_disc_iff pw_call.select_convs(1) pw_call.surjective pw_call.update_convs(2))

lemma pushed_fields [simp]:
  "pushed (r\<lparr>vr_q := q\<rparr>) = pushed r" "pushed (r\<lparr>vr_replies := rs\<rparr>) = pushed r" "pushed (r\<lparr>vr_resolving := xs\<rparr>) = pushed r"
  by (simp_all add: pushed_def)

lemma vr_local_step: "vr_local r r' \<Longrightarrow> vr_step r r'"
  by (cases rule: vr_local.cases) (auto intro: vr_step.intros)

text \<open>What the operations of the router leave behind.\<close>

definition frame :: "ValidationRouterImpl \<Rightarrow> ValidationRouterImpl \<Rightarrow> bool" where
  "frame r r' \<longleftrightarrow> pushed r \<subseteq> pushed r' \<and> set (vr_q r') \<subseteq> set (vr_q r) \<union> pushed r' \<and> vr_replies r' = vr_replies r"

lemma frame_set_state [simp]: "frame r (set_state r c st)"
  by (simp add: frame_def)

lemma cancel_fields [simp]:
  "pushed (results_cancel r mid) = pushed r" "vr_q (results_cancel r mid) = vr_q r" "vr_replies (results_cancel r mid) = vr_replies r"
  by (simp_all add: results_cancel_def pushed_def split: option.splits)

lemma queue_frame: "pushWait_queue r c rx = Some r' \<Longrightarrow> frame r r'"
proof -
  assume q: "pushWait_queue r c rx = Some r'"
  then obtain k where k: "vr_calls r c = Some k" by (auto simp: pushWait_queue_def split: option.splits)
  then have "pw_msg k \<in> pushed r" by (auto simp: pushed_def)
  then show ?thesis using q k by (auto simp: pushWait_queue_def frame_def split: if_splits)
qed

lemma local_frame:
  assumes "vr_local r r'" "vr_inv r"
  shows "frame r r'"
  using assms(1)
proof (cases rule: vr_local.cases)
  case (push m)
  have new: "vr_calls r (vr_next r) = None" using assms(2) unfolding vr_inv_def by (metis less_irrefl not_Some_eq)
  have "pushed r \<subseteq> pushed r'"
  proof
    fix m' assume "m' \<in> pushed r"
    then obtain c k where "vr_calls r c = Some k" "m' = pw_msg k" by (auto simp: pushed_def)
    with new have "vr_calls r' c = Some k" using push by (auto simp: pushWait_add_def results_add_def Let_def)
    with \<open>m' = pw_msg k\<close> show "m' \<in> pushed r'" by (auto simp: pushed_def)
  qed
  with push show ?thesis by (auto simp: frame_def pushWait_add_def results_add_def Let_def)
next
  case (queue c)
  then show ?thesis by (rule queue_frame)
next
  case (resolve j)
  then obtain c res rest where "r' = (let t = r\<lparr>vr_resolving := rest\<rparr> in if call_in t c Awaiting then set_state t c (Cancelling res) else t)"
    by (rule resolve_send_cases)
  moreover have "frame r (r\<lparr>vr_resolving := rest\<rparr>)" by (simp add: frame_def)
  ultimately show ?thesis by (auto simp: frame_def Let_def split: if_splits)
qed (auto simp: frame_def pushWait_wait_def pushWait_timeout_def pushWait_return_def
    split: if_splits option.splits pw_state.splits)

lemma send_frame:
  assumes "stream_send r send = Some (r', ms)"
  shows "frame r r'" "vr_step r r'" "set ms \<subseteq> set (vr_q r)"
proof -
  obtain q e where h: "handle_next r send = Some (r', e)" "ms = (if e = None then take 1 (vr_q r) else [])"
    using assms by (auto simp: stream_send_def split: option.splits)
  then show "vr_step r r'" by (auto intro: vr_step.stream)
  from h(1) show "frame r r'" by (auto simp: handle_next_def frame_def split: list.splits)
  from h(2) show "set ms \<subseteq> set (vr_q r)" by (auto dest: in_set_takeD)
qed

lemma hand_over_frame:
  assumes "hand_over r c send = Some (r', ms)"
  shows "frame r r'" "vr_step r r'" "set ms \<subseteq> pushed r"
proof -
  obtain k where k: "vr_calls r c = Some k" "pushWait_queue r c True = Some r'" "set ms \<subseteq> {pw_msg k}"
    using assms by (auto simp: hand_over_def split: if_splits option.splits)
  from k(2) show "frame r r'" by (rule queue_frame)
  from k(2) show "vr_step r r'" by (rule vr_step.queue)
  from k(1,3) show "set ms \<subseteq> pushed r" by (auto simp: pushed_def)
qed

lemma client_step_ok:
  assumes "client_step V st st'" "stream_ok M V st"
  shows "stream_ok M V st'"
  using assms(1)
proof (cases rule: client_step.cases)
  case recv
  with assms(2) show ?thesis
    by (auto simp: client_recv_def verifier_recv_def stream_ok_def split: list.splits if_splits)
next
  case (reply validate ok)
  with assms(2) show ?thesis
    by (auto simp: client_reply_def verifier_next_def stream_ok_def split: option.splits if_splits list.splits)
next
  case (put v)
  with assms(2) show ?thesis by (auto simp: verifier_put_def stream_ok_def split: option.splits if_splits)
qed (use assms(2) in \<open>auto simp: verifier_stop_def verifier_ctxDone_def stream_ok_def split: if_splits\<close>)

lemma reply_frame:
  assumes "receive_reply r (Inr (Some x)) = Some r'" "vm_Msg x = Some m"
  shows "pushed r' = pushed r" "vr_q r' = vr_q r" "vr_replies r' = vr_replies r @ [(msg_MessageId m, vm_Result x)]"
  using assms by (auto simp: receive_reply_def Let_def results_resolve_def ValidatedMessage_GetMsg_def
      ValidatedMessage_GetResult_def Message_GetMessageId_def split: option.splits)


text \<open>The router changes, and perhaps the messages on the way down one stream.\<close>

lemma vw_inv_router:
  assumes "vw_inv R w" "frame (vw_router w) r" "vr_step (vw_router w) r"
  shows "vw_inv R (w\<lparr>vw_router := r\<rparr>)"
  unfolding vw_inv_def
proof (intro conjI allI impI ballI)
  have p: "pushed (vw_router w) \<subseteq> pushed r" "set (vr_q r) \<subseteq> set (vr_q (vw_router w)) \<union> pushed r"
    "vr_replies r = vr_replies (vw_router w)" using assms(2) by (auto simp: frame_def)
  show "vr_inv (vw_router (w\<lparr>vw_router := r\<rparr>))" using assms(1,3) vr_step_inv by (simp add: vw_inv_def)
  show "set (vr_q (vw_router (w\<lparr>vw_router := r\<rparr>))) \<subseteq> pushed (vw_router (w\<lparr>vw_router := r\<rparr>))"
    using assms(1) p by (auto simp: vw_inv_def)
  show "stream_ok (pushed (vw_router (w\<lparr>vw_router := r\<rparr>))) (R i) (vw_streams (w\<lparr>vw_router := r\<rparr>) ! i)"
    if "i < length (vw_streams (w\<lparr>vw_router := r\<rparr>))" for i
    using assms(1) that by (auto simp: vw_inv_def intro: stream_ok_mono [OF _ p(1)])
  show "case x of (mid, v) \<Rightarrow> \<exists>i<length (vw_streams (w\<lparr>vw_router := r\<rparr>)). \<exists>m\<in>pushed (vw_router (w\<lparr>vw_router := r\<rparr>)).
      msg_MessageId m = mid \<and> R i m v" if "x \<in> set (vr_replies (vw_router (w\<lparr>vw_router := r\<rparr>)))" for x
    using assms(1) that p(1,3) by (fastforce simp: vw_inv_def)
qed

lemma vw_inv_stream:
  assumes "vw_inv R w" "i < length (vw_streams w)" "stream_ok (pushed (vw_router w)) (R i) st"
  shows "vw_inv R (w\<lparr>vw_streams := (vw_streams w)[i := st]\<rparr>)"
  using assms by (auto simp: vw_inv_def nth_list_update)

lemma vw_inv_down:
  assumes "vw_inv R w" "frame (vw_router w) r" "vr_step (vw_router w) r" "i < length (vw_streams w)"
    "set ms \<subseteq> pushed (vw_router w)"
  shows "vw_inv R (w\<lparr>vw_router := r, vw_streams := (vw_streams w)[i := (vw_streams w ! i)\<lparr>vs_down := vs_down (vw_streams w ! i) @ ms\<rparr>]\<rparr>)"
proof -
  let ?w = "w\<lparr>vw_router := r\<rparr>" and ?st = "vw_streams w ! i"
  have w: "vw_inv R ?w" using assms(1-3) by (rule vw_inv_router)
  then have "stream_ok (pushed r) (R i) ?st" using assms(4) by (simp add: vw_inv_def)
  moreover have "pushed (vw_router w) \<subseteq> pushed r" using assms(2) by (simp add: frame_def)
  ultimately have "stream_ok (pushed r) (R i) (?st\<lparr>vs_down := vs_down ?st @ ms\<rparr>)" using assms(5) by (auto simp: stream_ok_def)
  with vw_inv_stream [OF w, of i] assms(4) show ?thesis by simp
qed

lemma vw_step_inv:
  assumes "vw_step R w w'" "vw_inv R w"
  shows "vw_inv R w'"
  using assms(1)
proof (cases rule: vw_step.cases)
  case (local r)
  have "vr_inv (vw_router w)" using assms(2) by (simp add: vw_inv_def)
  with local assms(2) show ?thesis by (auto intro: vw_inv_router local_frame vr_local_step)
next
  case (connect v)
  have "stream_ok M (R i) \<lparr>vs_down = [], vs_client = v, vs_up = []\<rparr>" for M i
    using connect(2) by (auto simp: verifier_Start_def stream_ok_def)
  with connect assms(2) show ?thesis by (fastforce simp: vw_inv_def nth_append less_Suc_eq)
next
  case (hand_over c send r ms i st)
  with hand_over_frame [OF hand_over(2)] vw_inv_down [OF assms(2), of r i ms] show ?thesis by simp
next
  case (send send r ms i st)
  moreover have "set ms \<subseteq> pushed (vw_router w)" using send_frame(3) [OF send(2)] assms(2) by (auto simp: vw_inv_def)
  ultimately show ?thesis using send_frame(1,2) [OF send(2)] vw_inv_down [OF assms(2), of r i ms] by simp
next
  case (client i st)
  moreover then have "stream_ok (pushed (vw_router w)) (R i) st"
    using assms(2) by (intro client_step_ok [OF client(3)]) (simp add: vw_inv_def)
  ultimately show ?thesis using vw_inv_stream [OF assms(2)] by simp
next
  case (reply i st x xs r)
  have ok: "stream_ok (pushed (vw_router w)) (R i) st" using assms(2) reply(2,3) by (simp add: vw_inv_def)
  then obtain m where m: "m \<in> pushed (vw_router w)" "vm_Msg x = Some m" "R i m (vm_Result x)"
    using reply(4) by (auto simp: stream_ok_def)
  note f = reply_frame [OF reply(5) m(2)]
  have inv: "vr_inv r" using vr_step_inv [OF vr_step.reply [OF reply(5)]] assms(2) by (simp add: vw_inv_def)
  have rep: "\<exists>j < length (vw_streams w). \<exists>m \<in> pushed r. msg_MessageId m = mid \<and> R j m v"
    if "(mid, v) \<in> set (vr_replies r)" for mid v
    using that assms(2) m reply(2) unfolding f by (fastforce simp: vw_inv_def)
  have st: "stream_ok (pushed r) (R i) (st\<lparr>vs_up := xs\<rparr>)" using ok reply(4) by (auto simp: stream_ok_def f(1))
  with inv rep assms(2) reply(2) show ?thesis unfolding reply(1) by (auto simp: vw_inv_def f(1,2) nth_list_update)
qed

lemma vw_reachable: "(vw_step R)\<^sup>*\<^sup>* (new_wire n) w \<Longrightarrow> vw_inv R w"
proof (induction rule: rtranclp_induct)
  case base
  have "vr_inv (NewValidationRouterServer n)" using vr_reachable_inv [OF rtranclp.rtrancl_refl] .
  then show ?case by (simp add: vw_inv_def new_wire_def NewValidationRouterServer_def)
qed (rule vw_step_inv)

lemma wire_decides:
  assumes "(vw_step R)\<^sup>*\<^sup>* (new_wire n) w" and "vr_calls (vw_router w) c = Some k"
    and "pw_st k = Returned res" and "res \<noteq> ValidationIgnore"
  shows "\<exists>i < length (vw_streams w). \<exists>m. R i m (if res = ValidationAccept then VR_ACCEPT else VR_REJECT)
    \<and> msg_MessageId m = msg_MessageId (pw_msg k) \<and> (\<exists>c' k'. vr_calls (vw_router w) c' = Some k' \<and> pw_msg k' = m)
    \<and> ((\<forall>c' k'. vr_calls (vw_router w) c' = Some k' \<longrightarrow> msg_MessageId (pw_msg k') = msg_MessageId (pw_msg k)
          \<longrightarrow> pw_msg k' = pw_msg k) \<longrightarrow> m = pw_msg k)"
proof -
  have inv: "vw_inv R w" using assms(1) by (rule vw_reachable)
  then have "verdict_ok (vr_replies (vw_router w)) (call_mid k) (Returned res)"
    using assms(2,3) unfolding vw_inv_def vr_inv_def by metis
  then obtain v where v: "(call_mid k, v) \<in> set (vr_replies (vw_router w))" "convertResult v = res"
    using assms(4) by (auto simp: verdict_ok_def backed_def)
  with inv obtain i m where "i < length (vw_streams w)" "m \<in> pushed (vw_router w)" "msg_MessageId m = call_mid k" "R i m v"
    unfolding vw_inv_def by fastforce
  moreover have "v = (if res = ValidationAccept then VR_ACCEPT else VR_REJECT)"
    using v(2) assms(4) by (auto simp: convertResult_def split: if_splits)
  ultimately show ?thesis unfolding pushed_def by blast
qed

text \<open>A run in which one client gives the verdict \<open>v\<close> on the message \<open>m\<close>, for the witnesses.\<close>

lemma wire_run:
  "\<exists>w k. (vw_step (\<lambda>i m x. x = v))\<^sup>*\<^sup>* (new_wire 1) w \<and> vr_calls (vw_router w) 0 = Some k
    \<and> pw_st k = Returned (convertResult v) \<and> pw_msg k = m \<and> vw_streams w \<noteq> []"
proof -
  let ?S = "vw_step (\<lambda>i m x. x = v)"
  let ?x = "\<lparr>vm_Result = v, vm_Msg = Some m\<rparr>"
  define r0 where "r0 = NewValidationRouterServer 1"
  define W where "W = (\<lambda>r st. \<lparr>vw_router = r, vw_streams = [st]\<rparr>)"
  obtain v0 where v0: "verifier_Start None None = Inr v0" by (simp add: verifier_Start_def)
  define st0 where "st0 = \<lparr>vs_down = [], vs_client = v0, vs_up = []\<rparr>"
  have "\<exists>r1. pushWait_queue (pushWait_add r0 m) 0 False = Some r1 \<and> (\<exists>r2. pushWait_wait r1 0 = Some r2
    \<and> (\<exists>r3. stream_send r2 (\<lambda>_. None) = Some (r3, [m]) \<and> (\<exists>r4. receive_reply r3 (Inr (Some ?x)) = Some r4
    \<and> (\<exists>r5. resolve_send r4 0 = Some r5 \<and> (\<exists>r6. pushWait_return r5 0 = Some r6
    \<and> (\<exists>k. vr_calls r6 0 = Some k \<and> pw_st k = Returned (convertResult v) \<and> pw_msg k = m))))))"
    by (simp add: r0_def NewValidationRouterServer_def stream_send_def handle_next_def vr_op_defs set_state_def call_in_def
        ValidatedMessage_GetMsg_def ValidatedMessage_GetResult_def Message_GetMessageId_def )
  then obtain r1 r2 r3 r4 r5 r6 k where r: "pushWait_queue (pushWait_add r0 m) 0 False = Some r1" "pushWait_wait r1 0 = Some r2"
    "stream_send r2 (\<lambda>_. None) = Some (r3, [m])" "receive_reply r3 (Inr (Some ?x)) = Some r4"
    "resolve_send r4 0 = Some r5" "pushWait_return r5 0 = Some r6"
    and k: "vr_calls r6 0 = Some k" "pw_st k = Returned (convertResult v)" "pw_msg k = m" by blast
  have "\<exists>st1. client_recv (st0\<lparr>vs_down := [m]\<rparr>) = Some st1 \<and> (\<exists>v2. verifier_put (vs_client st1) = Some v2
    \<and> (\<exists>st3. client_reply (st1\<lparr>vs_client := v2\<rparr>) (\<lambda>_. v) True = Some st3 \<and> vs_up st3 = [?x]))"
    using v0 by (auto simp: st0_def verifier_Start_def client_recv_def verifier_recv_def verifier_put_def client_reply_def
        verifier_next_def)
  then obtain st1 v2 st3 where c: "client_recv (st0\<lparr>vs_down := [m]\<rparr>) = Some st1" "verifier_put (vs_client st1) = Some v2"
    "client_reply (st1\<lparr>vs_client := v2\<rparr>) (\<lambda>_. v) True = Some st3" "vs_up st3 = [?x]" by blast
  have l: "?S\<^sup>*\<^sup>* (W r st) (W r' st)" if "vr_local r r'" for r r' st
    using vw_step.local [of "W r st" r'] that by (auto simp: W_def)
  have cl: "?S\<^sup>*\<^sup>* (W r st) (W r st')" if "client_step (\<lambda>m x. x = v) st st'" for r st st'
    using vw_step.client [of 0 "W r st" "\<lambda>i m x. x = v" st'] that by (auto simp: W_def)
  have "?S\<^sup>*\<^sup>* (new_wire 1) (W r0 st0)"
    using vw_step.connect [OF v0, of _ "new_wire 1"] by (auto simp: new_wire_def W_def r0_def st0_def)
  also have "?S\<^sup>*\<^sup>* (W r0 st0) (W (pushWait_add r0 m) st0)" by (rule l [OF vr_local.push])
  also have "?S\<^sup>*\<^sup>* \<dots> (W r1 st0)" by (rule l [OF vr_local.queue [OF r(1)]])
  also have "?S\<^sup>*\<^sup>* \<dots> (W r2 st0)" by (rule l [OF vr_local.await [OF r(2)]])
  also have "?S\<^sup>*\<^sup>* \<dots> (W r3 (st0\<lparr>vs_down := [m]\<rparr>))"
    using vw_step.send [of "W r2 st0" "\<lambda>_. None" r3 "[m]" 0 st0] r(3) by (auto simp: W_def st0_def)
  also have "?S\<^sup>*\<^sup>* \<dots> (W r3 st1)" by (rule cl [OF client_step.recv [OF c(1)]])
  also have "?S\<^sup>*\<^sup>* \<dots> (W r3 (st1\<lparr>vs_client := v2\<rparr>))" by (rule cl [OF client_step.put [OF c(2)]])
  also have "?S\<^sup>*\<^sup>* \<dots> (W r3 st3)" by (rule cl [OF client_step.reply [OF c(3)]]) simp
  also have "?S\<^sup>*\<^sup>* \<dots> (W r4 (st3\<lparr>vs_up := []\<rparr>))"
    using vw_step.reply [of 0 "W r3 st3" st3 ?x "[]" r4] r(4) c(4) by (auto simp: W_def)
  also have "?S\<^sup>*\<^sup>* \<dots> (W r5 (st3\<lparr>vs_up := []\<rparr>))" by (rule l [OF vr_local.resolve [OF r(5)]])
  also have "?S\<^sup>*\<^sup>* \<dots> (W r6 (st3\<lparr>vs_up := []\<rparr>))" by (rule l [OF vr_local.return [OF r(6)]])
  finally have s: "?S\<^sup>*\<^sup>* (new_wire 1) (W r6 (st3\<lparr>vs_up := []\<rparr>))" .
  have "vr_calls (vw_router (W r6 (st3\<lparr>vs_up := []\<rparr>))) 0 = Some k" using k(1) by (simp add: W_def)
  with s k(2,3) show ?thesis by (intro exI [of _ "W r6 (st3\<lparr>vs_up := []\<rparr>)"] exI [of _ k]) (auto simp: W_def)
qed

section \<open>Properties\<close>

text \<open>C5: a client's validator decides.  In every interleaving of calls, streams and clients, a call of \<open>PushWait\<close>
  that returns accept or reject does so because the validator of a connected client gave this verdict on a
  message with the same id that was pushed; when pushed messages with the same id are the same, on exactly
  the message of that call.\<close>

theorem validator_decides:
  assumes "(vw_step R)\<^sup>*\<^sup>* (new_wire n) w" and "vr_calls (vw_router w) c = Some k"
    and "pw_st k = Returned res" and "res \<noteq> ValidationIgnore"
  shows "\<exists>i < length (vw_streams w). \<exists>m. R i m (if res = ValidationAccept then VR_ACCEPT else VR_REJECT)
    \<and> msg_MessageId m = msg_MessageId (pw_msg k) \<and> (\<exists>c' k'. vr_calls (vw_router w) c' = Some k' \<and> pw_msg k' = m)
    \<and> ((\<forall>c' k'. vr_calls (vw_router w) c' = Some k' \<longrightarrow> msg_MessageId (pw_msg k') = msg_MessageId (pw_msg k)
          \<longrightarrow> pw_msg k' = pw_msg k) \<longrightarrow> m = pw_msg k)"
  using wire_decides [OF assms] .

theorem validator_decides_witness:
  "\<exists>w k i. (vw_step (\<lambda>i m v. v = VR_REJECT))\<^sup>*\<^sup>* (new_wire 1) w \<and> vr_calls (vw_router w) 0 = Some k
    \<and> pw_st k = Returned ValidationReject \<and> pw_msg k = demo_msg \<and> i < length (vw_streams w)"
proof -
  have r: "convertResult VR_REJECT = ValidationReject" by (simp add: convertResult_def VR_defs)
  obtain w k where w: "(vw_step (\<lambda>i m v. v = VR_REJECT))\<^sup>*\<^sup>* (new_wire 1) w" "vr_calls (vw_router w) 0 = Some k"
    "pw_st k = Returned ValidationReject" "pw_msg k = demo_msg"
    using wire_run [of VR_REJECT demo_msg] unfolding r by blast
  from validator_decides [OF w(1-3)] w show ?thesis by blast
qed

end
