(* ===== verification/Ctrl_Conc.thy ===== *)
theory Ctrl_Conc
  imports Pubsub_Props
begin

text \<open>
  Concurrent calls of the controller (\<open>core/pubsub.go\<close>, \<open>core/topic.go\<close>).  The control service runs each request
  in a goroutine of its own, so the operations of \<open>Pubsub_Ctrl\<close> interleave.  The lock of the topic manager makes
  each of its operations atomic against the others, but the fields of a wrapper are also read and stored without
  it, through the pointer that \<open>getTopicWrapper\<close> returned.  A call stops here before each operation of the
  manager, each access to a wrapper and each call of the library.
\<close>

section \<open>Calls in flight\<close>

text \<open>What a call does once it has joined the topic.\<close>

datatype goal = GPublish bytes | GSubscribe | GRelay

text \<open>
  Where a call is.  \<open>TryStore\<close> is between the two lines of \<open>upgradeTopic\<close>, with the lock; all others hold no lock.
  \<open>Back\<close> has returned.
\<close>

datatype ('top, 'sub, 'fn) cc =
    TryGet goal string
  | TryLoad goal string nat
  | TryTopic goal string nat
  | TryMark goal string
  | TryJoin goal string
  | TryCas goal string 'top
  | TryStore goal string 'top nat
  | TryVal goal string 'top
  | Pub string "'top option" bytes
  | SubName string "'top option"
  | SubGet string "'top option" string
  | SubCall string "'top option" string
  | SubAdd string string 'sub
  | SubListen string 'sub
  | RelCall string "'top option"
  | RelSet string 'fn
  | LeaveGet string
  | LeaveLoad nat
  | LeaveClose nat
  | LeaveStore nat "32 word" err
  | UnsubGet string
  | UnsubLoad nat
  | UnsubCancel nat
  | UnrelGet string
  | UnrelLoad nat
  | UnrelCall nat
  | Back err

fun cc_start :: "ctrl_call \<Rightarrow> ('top, 'sub, 'fn) cc" where
  "cc_start (CPublish n d) = TryGet (GPublish d) n"
| "cc_start (CSubscribe n) = TryGet GSubscribe n"
| "cc_start (CRelay n) = TryGet GRelay n"
| "cc_start (CLeave n) = LeaveGet n"
| "cc_start (CUnsubscribe n) = UnsubGet n"
| "cc_start (CUnrelay n) = UnrelGet n"

text \<open>The rest of a call behind \<open>tryJoin\<close>, which returned a handle.\<close>

fun cc_joined :: "goal \<Rightarrow> string \<Rightarrow> 'top option \<Rightarrow> ('top, 'sub, 'fn) cc" where
  "cc_joined (GPublish d) n t = Pub n t d"
| "cc_joined GSubscribe n t = SubName n t"
| "cc_joined GRelay n t = RelCall n t"

abbreviation set_tm :: "('ps, 'top, 'sub, 'fn) ctrl \<Rightarrow> ('top, 'sub, 'fn) topicManager \<Rightarrow> ('ps, 'top, 'sub, 'fn) ctrl" where
  "set_tm c tm \<equiv> c\<lparr>c_topicManager := tm\<rparr>"

abbreviation wrapper :: "('ps, 'top, 'sub, 'fn) ctrl \<Rightarrow> nat \<Rightarrow> ('top, 'sub, 'fn) topicWrapper" where
  "wrapper c a \<equiv> tm_heap (c_topicManager c) a"

text \<open>\<open>upgradeTopic\<close> in two parts: the compare-and-swap of the state, then the handle.\<close>

definition upgrade_cas :: "('top, 'sub, 'fn) topicManager \<Rightarrow> string \<Rightarrow> (('top, 'sub, 'fn) topicManager \<times> nat) option" where
  "upgrade_cas tm name =
     (case tm_topics tm name of
        None \<Rightarrow> None
      | Some a \<Rightarrow>
          if tw_state (tm_heap tm a) \<noteq> topicStateJoining then None
          else Some (tm_poke tm a ((tm_heap tm a)\<lparr>tw_state := topicStateJoined\<rparr>), a))"

definition upgrade_store :: "('top, 'sub, 'fn) topicManager \<Rightarrow> string \<Rightarrow> 'top \<Rightarrow> nat \<Rightarrow> ('top, 'sub, 'fn) topicManager" where
  "upgrade_store tm name topic a =
     (let tm' = tm_poke tm a ((tm_heap tm a)\<lparr>tw_topic := Some topic\<rparr>) in
      tm'\<lparr>tm_topics := (tm_topics tm')(name \<mapsto> a)\<rparr>)"

text \<open>The next operation of a call.\<close>

fun cc_step :: "('ps, 'top, 'sub, 'fn) pubsub_api \<Rightarrow> ('ps, 'top, 'sub, 'fn) ctrl \<Rightarrow> ('top, 'sub, 'fn) cc
    \<Rightarrow> (('ps, 'top, 'sub, 'fn) ctrl \<times> ('top, 'sub, 'fn) cc) go" where
  "cc_step api c (TryGet g n) =
     Ret (c, case getTopicWrapper (c_topicManager c) n of None \<Rightarrow> TryMark g n | Some a \<Rightarrow> TryLoad g n a)"
| "cc_step api c (TryLoad g n a) =
     Ret (c, if tw_state (wrapper c a) = topicStateJoining then Back (Some (''already tring to join topic '' @ n))
             else TryTopic g n a)"
| "cc_step api c (TryTopic g n a) = Ret (c, cc_joined g n (tw_topic (wrapper c a)))"
| "cc_step api c (TryMark g n) = Ret (set_tm c (joiningTopic (c_topicManager c) n), TryJoin g n)"
| "cc_step api c (TryJoin g n) =
     (case c_cfg_Pubsub c of
        None \<Rightarrow> Panic NilDeref
      | Some pcfg \<Rightarrow>
          (case api_Join api (c_pubsub c) n (join_opts (GetTopicConfig pcfg n)) of
             (ps, Inl e) \<Rightarrow> Ret (c\<lparr>c_pubsub := ps\<rparr>, Back (Some e))
           | (ps, Inr topic) \<Rightarrow> Ret (c\<lparr>c_pubsub := ps\<rparr>, TryCas g n topic)))"
| "cc_step api c (TryCas g n topic) =
     (case upgrade_cas (c_topicManager c) n of
        None \<Rightarrow> Ret (c, TryVal g n topic)
      | Some (tm, a) \<Rightarrow> Ret (set_tm c tm, TryStore g n topic a))"
| "cc_step api c (TryStore g n topic a) = Ret (set_tm c (upgrade_store (c_topicManager c) n topic a), TryVal g n topic)"
| "cc_step api c (TryVal g n topic) =
     (case c_cfg_Pubsub c of
        None \<Rightarrow> Panic NilDeref
      | Some pcfg \<Rightarrow>
          (let cfg = fst (GetTopicConfig pcfg n) in
           if tc_MsgValidator cfg \<noteq> None \<or> psc_MsgValidator pcfg \<noteq> None then
             (case api_RegisterTopicValidator api (c_pubsub c) n (val_config pcfg cfg) of
                (ps, Some e) \<Rightarrow> Ret (c\<lparr>c_pubsub := ps\<rparr>, Back (Some e))
              | (ps, None) \<Rightarrow> Ret (c\<lparr>c_pubsub := ps\<rparr>, cc_joined g n (Some topic)))
           else Ret (c, cc_joined g n (Some topic))))"
| "cc_step api c (Pub n topic d) =
     go_bind (api_Publish api (c_pubsub c) topic d) (\<lambda>(ps, e). Ret (c\<lparr>c_pubsub := ps\<rparr>, Back e))"
| "cc_step api c (SubName n topic) = go_bind (api_String api topic) (\<lambda>m. Ret (c, SubGet n topic m))"
| "cc_step api c (SubGet n topic m) =
     Ret (c, case getSub (c_topicManager c) m of Some _ \<Rightarrow> Back None | None \<Rightarrow> SubCall n topic m)"
| "cc_step api c (SubCall n topic m) =
     (case c_cfg_Pubsub c of
        None \<Rightarrow> Panic NilDeref
      | Some pcfg \<Rightarrow>
          (let (cfg, ok) = GetTopicConfig pcfg m;
               opts = (if ok \<and> tc_BufferSize cfg > 0 then [tc_BufferSize cfg] else []) in
           go_bind (api_Subscribe api (c_pubsub c) topic opts) (\<lambda>r.
             case r of
               (ps, Inl e) \<Rightarrow> Ret (c\<lparr>c_pubsub := ps\<rparr>, Back (Some e))
             | (ps, Inr s) \<Rightarrow> Ret (c\<lparr>c_pubsub := ps\<rparr>, SubAdd n m s))))"
| "cc_step api c (SubAdd n m s) = Ret (set_tm c (fst (addSub (c_topicManager c) m (Some s))), SubListen n s)"
| "cc_step api c (SubListen n s) = Ret (c\<lparr>c_listeners := (n, s) # c_listeners c\<rparr>, Back None)"
| "cc_step api c (RelCall n topic) =
     go_bind (api_Relay api (c_pubsub c) topic) (\<lambda>r.
       case r of
         (ps, Inl e) \<Rightarrow> Ret (c\<lparr>c_pubsub := ps\<rparr>, Back (Some e))
       | (ps, Inr fn) \<Rightarrow> Ret (c\<lparr>c_pubsub := ps\<rparr>, RelSet n fn))"
| "cc_step api c (RelSet n fn) = Ret (set_tm c (fst (setTopicRelayCancelFn (c_topicManager c) n (Some fn))), Back None)"
| "cc_step api c (LeaveGet n) =
     (case getTopicWrapper (c_topicManager c) n of None \<Rightarrow> Panic NilDeref | Some a \<Rightarrow> Ret (c, LeaveLoad a))"
| "cc_step api c (LeaveLoad a) =
     (let state = tw_state (wrapper c a) in
      Ret (c, if state = topicStateJoined \<or> state = topicStateErr then LeaveClose a else Back None))"
| "cc_step api c (LeaveClose a) =
     go_bind (api_Close api (c_pubsub c) (tw_topic (wrapper c a))) (\<lambda>(ps, e).
       Ret (c\<lparr>c_pubsub := ps\<rparr>, LeaveStore a (case e of Some _ \<Rightarrow> topicStateErr | None \<Rightarrow> topicStateUnknown) e))"
| "cc_step api c (LeaveStore a st e) =
     Ret (set_tm c (tm_poke (c_topicManager c) a ((wrapper c a)\<lparr>tw_state := st\<rparr>)), Back e)"
| "cc_step api c (UnsubGet n) =
     (case getTopicWrapper (c_topicManager c) n of None \<Rightarrow> Panic NilDeref | Some a \<Rightarrow> Ret (c, UnsubLoad a))"
| "cc_step api c (UnsubLoad a) =
     Ret (c, if tw_state (wrapper c a) = topicStateUnknown then Back None else UnsubCancel a)"
| "cc_step api c (UnsubCancel a) =
     go_bind (api_Cancel api (c_pubsub c) (tw_sub (wrapper c a))) (\<lambda>ps. Ret (c\<lparr>c_pubsub := ps\<rparr>, Back None))"
| "cc_step api c (UnrelGet n) =
     (case getTopicWrapper (c_topicManager c) n of None \<Rightarrow> Panic NilDeref | Some a \<Rightarrow> Ret (c, UnrelLoad a))"
| "cc_step api c (UnrelLoad a) =
     Ret (c, if tw_state (wrapper c a) = topicStateUnknown then Back None else UnrelCall a)"
| "cc_step api c (UnrelCall a) =
     (case tw_relayCancelFn (wrapper c a) of
        None \<Rightarrow> Panic NilFuncCall
      | Some fn \<Rightarrow> Ret (c\<lparr>c_pubsub := api_RelayCancel api (c_pubsub c) fn\<rparr>, Back None))"
| "cc_step api c (Back e) = Ret (c, Back e)"

text \<open>The steps that take the lock of the manager, and the one that has it.\<close>

fun locks :: "('top, 'sub, 'fn) cc \<Rightarrow> bool" where
  "locks (TryGet g n) = True" | "locks (TryMark g n) = True" | "locks (TryCas g n t) = True"
| "locks (SubGet n t m) = True" | "locks (SubAdd n m s) = True" | "locks (RelSet n fn) = True"
| "locks (LeaveGet n) = True" | "locks (UnsubGet n) = True" | "locks (UnrelGet n) = True"
| "locks x = False"

fun holds_lock :: "('top, 'sub, 'fn) cc \<Rightarrow> bool" where
  "holds_lock (TryStore g n t a) = True"
| "holds_lock x = False"

type_synonym ('ps, 'top, 'sub, 'fn) ctrl_sys = "('ps, 'top, 'sub, 'fn) ctrl \<times> ('top, 'sub, 'fn) cc list"

definition cc_run :: "('ps, 'top, 'sub, 'fn) pubsub_api \<Rightarrow> ('ps, 'top, 'sub, 'fn) ctrl_sys \<Rightarrow> nat
    \<Rightarrow> ('ps, 'top, 'sub, 'fn) ctrl_sys go option" where
  "cc_run api s i =
     (if (\<exists>e. snd s ! i = Back e) \<or> (locks (snd s ! i) \<and> list_ex holds_lock (snd s)) then None
      else Some (go_bind (cc_step api (fst s) (snd s ! i)) (\<lambda>(c, x). Ret (c, (snd s)[i := x]))))"

inductive sys_step :: "('ps, 'top, 'sub, 'fn) pubsub_api \<Rightarrow> ('ps, 'top, 'sub, 'fn) ctrl_sys
    \<Rightarrow> ('ps, 'top, 'sub, 'fn) ctrl_sys go \<Rightarrow> bool" for api where
  call: "sys_step api (c, cs) (Ret (c, cs @ [cc_start x]))"
| run: "i < length (snd s) \<Longrightarrow> cc_run api s i = Some r \<Longrightarrow> sys_step api s r"

abbreviation sys_runs :: "('ps, 'top, 'sub, 'fn) pubsub_api \<Rightarrow> ('ps, 'top, 'sub, 'fn) ctrl_sys
    \<Rightarrow> ('ps, 'top, 'sub, 'fn) ctrl_sys \<Rightarrow> bool" where
  "sys_runs api \<equiv> (\<lambda>s s'. sys_step api s (Ret s'))\<^sup>*\<^sup>*"

section \<open>The invariant\<close>

text \<open>Which wrapper a call is about to give a handle to.\<close>

fun pend :: "('top, 'sub, 'fn) cc \<Rightarrow> nat set" where
  "pend (TryStore g n t a) = {a}"
| "pend x = {}"

text \<open>
  A wrapper made for the topic \<open>n\<close>, \<open>p\<close> says that an upgrade is about to store its handle.  The ghost \<open>nm\<close>
  gives the topic of every wrapper, also of one that is not in the table any more.
\<close>

definition wr_ok :: "('top \<Rightarrow> string \<Rightarrow> bool) \<Rightarrow> string \<Rightarrow> bool \<Rightarrow> ('top, 'sub, 'fn) topicWrapper \<Rightarrow> bool" where
  "wr_ok is_topic n p tw \<longleftrightarrow>
     tw_state tw \<in> {topicStateUnknown, topicStateJoining, topicStateJoined, topicStateErr}
     \<and> (tw_state tw = topicStateJoining \<longrightarrow> tw_topic tw = None)
     \<and> (tw_topic tw = None \<longrightarrow> tw_state tw = topicStateJoining \<or> p)
     \<and> (\<forall>t. tw_topic tw = Some t \<longrightarrow> is_topic t n)"

definition table_ok :: "('top \<Rightarrow> string \<Rightarrow> bool) \<Rightarrow> (nat \<Rightarrow> string) \<Rightarrow> nat set \<Rightarrow> ('top, 'sub, 'fn) topicManager \<Rightarrow> bool" where
  "table_ok is_topic nm P tm \<longleftrightarrow>
     (\<forall>n a. tm_topics tm n = Some a \<longrightarrow> a < tm_next tm \<and> nm a = n)
     \<and> (\<forall>a<tm_next tm. wr_ok is_topic (nm a) (a \<in> P) (tm_heap tm a))"

abbreviation own :: "('top \<Rightarrow> string \<Rightarrow> bool) \<Rightarrow> string \<Rightarrow> 'top option \<Rightarrow> bool" where
  "own is_topic n t \<equiv> (\<forall>x. t = Some x \<longrightarrow> is_topic x n)"

abbreviation past :: "('top, 'sub, 'fn) topicManager \<Rightarrow> nat \<Rightarrow> bool" where
  "past tm a \<equiv> a < tm_next tm \<and> tw_state (tm_heap tm a) \<noteq> topicStateJoining"

fun cc_ok :: "('top \<Rightarrow> string \<Rightarrow> bool) \<Rightarrow> (nat \<Rightarrow> string) \<Rightarrow> ('top, 'sub, 'fn) topicManager \<Rightarrow> ('top, 'sub, 'fn) cc \<Rightarrow> bool" where
  "cc_ok is_topic nm tm (TryLoad g n a) = (a < tm_next tm \<and> nm a = n)"
| "cc_ok is_topic nm tm (TryTopic g n a) = (past tm a \<and> nm a = n)"
| "cc_ok is_topic nm tm (TryCas g n t) = (is_topic t n)"
| "cc_ok is_topic nm tm (TryStore g n t a) = (is_topic t n \<and> past tm a \<and> nm a = n)"
| "cc_ok is_topic nm tm (TryVal g n t) = (is_topic t n)"
| "cc_ok is_topic nm tm (Pub n t d) = own is_topic n t"
| "cc_ok is_topic nm tm (SubName n t) = own is_topic n t"
| "cc_ok is_topic nm tm (SubGet n t m) = own is_topic n t"
| "cc_ok is_topic nm tm (SubCall n t m) = own is_topic n t"
| "cc_ok is_topic nm tm (RelCall n t) = own is_topic n t"
| "cc_ok is_topic nm tm (LeaveLoad a) = (a < tm_next tm)"
| "cc_ok is_topic nm tm (LeaveClose a) = past tm a"
| "cc_ok is_topic nm tm (LeaveStore a st e) = (past tm a \<and> st \<in> {topicStateErr, topicStateUnknown})"
| "cc_ok is_topic nm tm (UnsubLoad a) = (a < tm_next tm)"
| "cc_ok is_topic nm tm (UnsubCancel a) = (a < tm_next tm)"
| "cc_ok is_topic nm tm (UnrelLoad a) = (a < tm_next tm)"
| "cc_ok is_topic nm tm (UnrelCall a) = (a < tm_next tm)"
| "cc_ok is_topic nm tm x = True"

text \<open>What the other calls see: wrappers are added, none goes back to joining.\<close>

definition tm_grows :: "(nat \<Rightarrow> string) \<Rightarrow> (nat \<Rightarrow> string) \<Rightarrow> ('top, 'sub, 'fn) topicManager \<Rightarrow> ('top, 'sub, 'fn) topicManager \<Rightarrow> bool" where
  "tm_grows nm nm' tm tm' \<longleftrightarrow> tm_next tm \<le> tm_next tm' \<and> (\<forall>a<tm_next tm. nm' a = nm a
     \<and> (tw_state (tm_heap tm a) \<noteq> topicStateJoining \<longrightarrow> tw_state (tm_heap tm' a) \<noteq> topicStateJoining))"

lemma tm_grows_refl [simp]: "tm_grows nm nm tm tm"
  by (simp add: tm_grows_def)

lemma cc_ok_grows: "tm_grows nm nm' tm tm' \<Longrightarrow> cc_ok is_topic nm tm x \<Longrightarrow> cc_ok is_topic nm' tm' x"
  by (cases x) (auto simp: tm_grows_def)

lemma table_ok_poke:
  assumes "table_ok is_topic nm P tm" "a < tm_next tm" "wr_ok is_topic (nm a) (a \<in> P') tw"
    and "\<And>b. b \<noteq> a \<Longrightarrow> b \<in> P \<Longrightarrow> b \<in> P'"
  shows "table_ok is_topic nm P' (tm_poke tm a tw)"
  using assms by (auto simp: table_ok_def tm_poke_def wr_ok_def)

lemma tm_grows_poke:
  "tw_state (tm_heap tm a) = topicStateJoining \<or> tw_state tw \<noteq> topicStateJoining \<Longrightarrow> tm_grows nm nm tm (tm_poke tm a tw)"
  by (auto simp: tm_grows_def tm_poke_def)

lemma table_ok_mono: "table_ok is_topic nm P tm \<Longrightarrow> P \<subseteq> P' \<Longrightarrow> table_ok is_topic nm P' tm"
  by (auto simp: table_ok_def wr_ok_def)

text \<open>A store that leaves state and handle of a wrapper.\<close>

lemma table_ok_field:
  assumes "table_ok is_topic nm P tm" "a < tm_next tm" "tw_state tw = tw_state (tm_heap tm a)" "tw_topic tw = tw_topic (tm_heap tm a)"
  shows "table_ok is_topic nm P (tm_poke tm a tw)" "tm_grows nm nm tm (tm_poke tm a tw)"
  using assms by (auto simp: table_ok_def tm_poke_def wr_ok_def tm_grows_def)

lemma addSub_table:
  assumes "table_ok is_topic nm P tm"
  shows "table_ok is_topic nm P (fst (addSub tm n s))" "tm_grows nm nm tm (fst (addSub tm n s))"
  using assms table_ok_field [OF assms]
  by (auto simp: addSub_def table_ok_def [of _ _ _ tm] split: option.splits)

lemma setTopicRelayCancelFn_table:
  assumes "table_ok is_topic nm P tm"
  shows "table_ok is_topic nm P (fst (setTopicRelayCancelFn tm n fn))" "tm_grows nm nm tm (fst (setTopicRelayCancelFn tm n fn))"
  using assms table_ok_field [OF assms]
  by (auto simp: setTopicRelayCancelFn_def Let_def table_ok_def [of _ _ _ tm] split: option.splits)

lemma joiningTopic_table:
  assumes "table_ok is_topic nm P tm"
  shows "table_ok is_topic (nm(tm_next tm := n)) P (joiningTopic tm n)" "tm_grows nm (nm(tm_next tm := n)) tm (joiningTopic tm n)"
  using assms by (fastforce simp: table_ok_def joiningTopic_def Let_def wr_ok_def zeroWrapper_def less_Suc_eq tm_grows_def split: if_splits)+

lemma upgrade_cas_table:
  assumes "table_ok is_topic nm P tm" "upgrade_cas tm n = Some (tm', a)"
  shows "table_ok is_topic nm (insert a P) tm'" "tm_grows nm nm tm tm'" "past tm' a" "nm a = n"
proof -
  from assms(2) have a: "tm_topics tm n = Some a" "tw_state (tm_heap tm a) = topicStateJoining"
    "tm' = tm_poke tm a ((tm_heap tm a)\<lparr>tw_state := topicStateJoined\<rparr>)"
    by (auto simp: upgrade_cas_def split: option.splits if_splits)
  then have l: "a < tm_next tm" "nm a = n" using assms(1) by (auto simp: table_ok_def)
  then have "wr_ok is_topic (nm a) True ((tm_heap tm a)\<lparr>tw_state := topicStateJoined\<rparr>)"
    using assms(1) by (auto simp: table_ok_def wr_ok_def topic_state_defs)
  then show "table_ok is_topic nm (insert a P) tm'" unfolding a(3) using assms(1) l by (intro table_ok_poke [of _ _ P]) auto
  show "tm_grows nm nm tm tm'" unfolding a(3) by (rule tm_grows_poke) (simp add: a(2))
  show "past tm' a" "nm a = n" using l a(3) by (simp_all add: tm_poke_def topic_state_defs)
qed

lemma upgrade_store_table:
  assumes "table_ok is_topic nm (insert a P) tm" "past tm a" "nm a = n" "is_topic t n"
  shows "table_ok is_topic nm P (upgrade_store tm n t a)" "tm_grows nm nm tm (upgrade_store tm n t a)"
proof -
  let ?tm = "tm_poke tm a ((tm_heap tm a)\<lparr>tw_topic := Some t\<rparr>)"
  have "wr_ok is_topic (nm a) (a \<in> P) ((tm_heap tm a)\<lparr>tw_topic := Some t\<rparr>)"
    using assms by (auto simp: table_ok_def wr_ok_def)
  then have "table_ok is_topic nm P ?tm" using assms(1,2) by (intro table_ok_poke [of _ _ "insert a P"]) auto
  then show "table_ok is_topic nm P (upgrade_store tm n t a)"
    using assms(2,3) unfolding table_ok_def upgrade_store_def Let_def by (auto simp: tm_poke_def)
  show "tm_grows nm nm tm (upgrade_store tm n t a)"
    using assms(2) by (auto simp: tm_grows_def upgrade_store_def tm_poke_def)
qed

text \<open>Every operation of a call keeps this; \<open>P\<close> are the upgrades of the other calls.\<close>

abbreviation of_api :: "('ps, 'top, 'sub, 'fn) pubsub_api \<Rightarrow> 'top \<Rightarrow> string \<Rightarrow> bool" where
  "of_api api \<equiv> (\<lambda>t n. api_String api (Some t) = Ret n)"

lemma cc_joined_ok: "own is_topic n t \<Longrightarrow> cc_ok is_topic nm tm (cc_joined g n t)" "pend (cc_joined g n t) = {}"
  by (cases g; simp)+

lemma cc_step_ok:
  assumes "cc_step api c x = Ret (c', x')" "Join_names api" "cc_ok (of_api api) nm (c_topicManager c) x"
    and "table_ok (of_api api) nm (P \<union> pend x) (c_topicManager c)"
  shows "\<exists>nm'. tm_grows nm nm' (c_topicManager c) (c_topicManager c') \<and> cc_ok (of_api api) nm' (c_topicManager c') x'
    \<and> table_ok (of_api api) nm' (P \<union> pend x') (c_topicManager c')"
proof -
  have known: "a < tm_next (c_topicManager c)" "nm a = n" if "getTopicWrapper (c_topicManager c) n = Some a" for n a
    using assms(4) that by (auto simp: getTopicWrapper_def table_ok_def split: option.splits)
  have same: ?thesis if "c_topicManager c' = c_topicManager c" "pend x = {}" "pend x' = {}" "cc_ok (of_api api) nm (c_topicManager c) x'"
    using that assms(4) by (intro exI [of _ nm]) simp
  note [simp] = go_bind_eq_Ret_iff Let_def
  show ?thesis
  proof (cases x)
  case (TryGet g n)
  with assms have "c' = c" "cc_ok (of_api api) nm (c_topicManager c) x'" "pend x' = {}"
    by (auto simp: getTopicWrapper_def table_ok_def split: option.splits)
  with TryGet assms(4) show ?thesis by (intro exI [of _ nm]) simp
next
  case (TryTopic g n a)
  with assms have "own (of_api api) n (tw_topic (wrapper c a))" by (auto simp: table_ok_def wr_ok_def)
  with TryTopic assms show ?thesis by (intro exI [of _ nm]) (auto simp: cc_joined_ok)
next
  case (TryMark g n)
  with assms(1,4) joiningTopic_table [of "of_api api" nm P "c_topicManager c" n] show ?thesis
    by (intro exI [of _ "nm(tm_next (c_topicManager c) := n)"]) auto
next
  case (TryJoin g n)
  with assms show ?thesis
    by (intro exI [of _ nm]) (auto simp: Join_names_def split: option.splits prod.splits sum.splits)
next
  case (TryCas g n t)
  with assms upgrade_cas_table [of "of_api api" nm P "c_topicManager c" n] show ?thesis
    by (intro exI [of _ nm]) (auto split: option.splits)
next
  case (TryStore g n t a)
  with assms upgrade_store_table [of "of_api api" nm a P "c_topicManager c" n t] show ?thesis
    by (intro exI [of _ nm]) auto
next
  case (TryVal g n t)
  with assms show ?thesis
    by (intro exI [of _ nm]) (auto simp: cc_joined_ok Let_def split: option.splits prod.splits if_splits)
next
  case (SubAdd n m s)
  with assms addSub_table [of "of_api api" nm P "c_topicManager c" m "Some s"] show ?thesis by (intro exI [of _ nm]) auto
next
  case (RelSet n fn)
  with assms setTopicRelayCancelFn_table [of "of_api api" nm P "c_topicManager c" n "Some fn"] show ?thesis by (intro exI [of _ nm]) auto
next
  case (LeaveStore a st e)
  let ?tw = "(wrapper c a)\<lparr>tw_state := st\<rparr>"
  from LeaveStore assms have a: "past (c_topicManager c) a" "st \<noteq> topicStateJoining" "st \<in> {topicStateErr, topicStateUnknown}"
    by (auto simp: topic_state_defs)
  with assms(4) LeaveStore have "wr_ok (of_api api) (nm a) (a \<in> P) ?tw" by (auto simp: table_ok_def wr_ok_def)
  with a LeaveStore assms table_ok_poke [of "of_api api" nm P "c_topicManager c" a P ?tw]
    tm_grows_poke [of "c_topicManager c" a ?tw nm] show ?thesis by (intro exI [of _ nm]) auto
next
  case (LeaveGet n)
  with assms(1) known(1) [of n] show ?thesis by (intro same) (auto split: option.splits)
next
  case (UnsubGet n)
  with assms(1) known(1) [of n] show ?thesis by (intro same) (auto split: option.splits)
next
  case (UnrelGet n)
  with assms(1) known(1) [of n] show ?thesis by (intro same) (auto split: option.splits)
next
  case (TryLoad g n a)
  with assms(1,3) show ?thesis by (intro same) (auto split: if_splits)
next
  case (LeaveLoad a)
  with assms(1,3) show ?thesis by (intro same) (auto simp: topic_state_defs split: if_splits)
next
  case (LeaveClose a)
  with assms(1,3) show ?thesis by (intro same) (auto split: option.splits)
next
  case (UnsubLoad a)
  with assms(1,3) show ?thesis by (intro same) (auto split: if_splits)
next
  case (UnrelLoad a)
  with assms(1,3) show ?thesis by (intro same) (auto split: if_splits)
next
  case (UnsubCancel a)
  with assms(1,3) show ?thesis by (intro same) auto
next
  case (UnrelCall a)
  with assms(1,3) show ?thesis by (intro same) (auto split: option.splits)
next
  case (Pub n t d)
  with assms(1,3) show ?thesis by (intro same) auto
next
  case (SubName n t)
  with assms(1,3) show ?thesis by (intro same) auto
next
  case (SubGet n t m)
  with assms(1,3) show ?thesis by (intro same) (auto split: option.splits)
next
  case (SubCall n t m)
  with assms(1,3) show ?thesis by (intro same) (auto simp: case_result_eq_iff split: option.splits prod.splits)
next
  case (SubListen n s)
  with assms(1,3) show ?thesis by (intro same) auto
next
  case (RelCall n t)
  with assms(1,3) show ?thesis by (intro same) (auto simp: case_result_eq_iff)
next
  case (Back e)
  with assms(1,3) show ?thesis by (intro same) auto
qed
qed

text \<open>A system of calls.\<close>

definition pending :: "('top, 'sub, 'fn) cc list \<Rightarrow> nat set" where
  "pending cs = (\<Union>x\<in>set cs. pend x)"

definition conc_inv :: "('ps, 'top, 'sub, 'fn) pubsub_api \<Rightarrow> ('ps, 'top, 'sub, 'fn) ctrl_sys \<Rightarrow> bool" where
  "conc_inv api s \<longleftrightarrow> (\<exists>nm. table_ok (of_api api) nm (pending (snd s)) (c_topicManager (fst s))
     \<and> (\<forall>x\<in>set (snd s). cc_ok (of_api api) nm (c_topicManager (fst s)) x))"

lemma pending_split: "pending (xs @ x # ys) = pending (xs @ ys) \<union> pend x" "pending (cs @ [x]) = pending cs \<union> pend x"
  by (auto simp: pending_def)

lemma cc_start_simps [simp]: "pend (cc_start x) = {}" "cc_ok is_topic nm tm (cc_start x)"
  by (cases x; simp)+

lemma sys_step_inv:
  assumes "sys_step api s (Ret s')" "Join_names api" "conc_inv api s"
  shows "conc_inv api s'"
  using assms(1)
proof (cases rule: sys_step.cases)
  case (call c cs x)
  with assms(3) show ?thesis by (auto simp: conc_inv_def pending_split)
next
  case (run i)
  obtain c cs where s: "s = (c, cs)" by fastforce
  from run s obtain c' x' where st: "cc_step api c (cs ! i) = Ret (c', x')" "s' = (c', cs[i := x'])"
    by (auto simp: cc_run_def go_bind_eq_Ret_iff split: if_splits)
  from id_take_nth_drop [of i cs] run(1) s obtain xs ys where cs: "cs = xs @ cs ! i # ys" "length xs = i" by fastforce
  then have cs': "cs[i := x'] = xs @ x' # ys" by (metis list_update_length)
  from assms(3) s obtain nm where nm: "table_ok (of_api api) nm (pending (xs @ ys) \<union> pend (cs ! i)) (c_topicManager c)"
    "\<forall>x\<in>set cs. cc_ok (of_api api) nm (c_topicManager c) x"
    unfolding conc_inv_def using cs(1) pending_split(1) by (metis fst_conv snd_conv)
  from run(1) s nm(2) have "cc_ok (of_api api) nm (c_topicManager c) (cs ! i)" by simp
  from cc_step_ok [OF st(1) assms(2) this nm(1)] obtain nm' where nm': "tm_grows nm nm' (c_topicManager c) (c_topicManager c')"
    "cc_ok (of_api api) nm' (c_topicManager c') x'" "table_ok (of_api api) nm' (pending (xs @ ys) \<union> pend x') (c_topicManager c')"
    by blast
  have "\<forall>x\<in>set (xs @ ys). cc_ok (of_api api) nm' (c_topicManager c') x"
    using nm(2) cs(1) cc_ok_grows [OF nm'(1)] by (metis Un_iff insert_iff list.set(2) set_append)
  with nm' show ?thesis unfolding conc_inv_def st(2) cs' snd_conv fst_conv pending_split(1) by (intro exI [of _ nm']) auto
qed

lemma sys_runs_inv:
  assumes "sys_runs api (new_ctrl cfg ps, []) s" "Join_names api"
  shows "conc_inv api s"
  using assms(1)
proof (induction rule: rtranclp_induct)
  case base
  show ?case by (auto simp: conc_inv_def table_ok_def pending_def new_ctrl_def newTopicManager_def)
next
  case (step s s')
  then show ?case using sys_step_inv assms(2) by blast
qed

text \<open>The handle a call uses next, and the topic it was asked for.\<close>

fun uses_handle :: "('top, 'sub, 'fn) cc \<Rightarrow> (string \<times> 'top) option" where
  "uses_handle (Pub n (Some t) d) = Some (n, t)"
| "uses_handle (SubName n (Some t)) = Some (n, t)"
| "uses_handle (SubGet n (Some t) m) = Some (n, t)"
| "uses_handle (SubCall n (Some t) m) = Some (n, t)"
| "uses_handle (RelCall n (Some t)) = Some (n, t)"
| "uses_handle x = None"

lemma uses_handle_ok: "cc_ok is_topic nm tm x \<Longrightarrow> uses_handle x = Some (n, t) \<Longrightarrow> is_topic t n"
  by (cases x rule: uses_handle.cases) auto

end
