(* ===== verification/Ctrl_Races.thy ===== *)
theory Ctrl_Races
  imports Ctrl_Conc
begin

text \<open>
  Runs of \<open>Ctrl_Conc\<close>.  A call that is not interrupted does what \<open>Pubsub_Ctrl\<close> says, so calls one after the other
  are one of the interleavings.  Then interleavings of two calls on one topic that go wrong.
\<close>

section \<open>Calls that are not interrupted\<close>

abbreviation unlocked :: "('top, 'sub, 'fn) cc list \<Rightarrow> bool" where
  "unlocked xs \<equiv> \<not> list_ex holds_lock xs"

fun returned :: "('top, 'sub, 'fn) cc \<Rightarrow> bool" where
  "returned (Back e) = True"
| "returned x = False"

lemma locks_holds: "locks x \<Longrightarrow> \<not> holds_lock x"
  by (cases x) simp_all

lemma returned_iff: "(\<exists>e. x = Back e) \<longleftrightarrow> returned x"
  by (cases x) simp_all

lemma cc_go:
  assumes "cc_step api c x = Ret (c1, x1)" "\<not> returned x" "locks x \<Longrightarrow> unlocked (pre @ post)"
  shows "sys_step api (c, pre @ x # post) (Ret (c1, pre @ x1 # post))"
proof -
  have "cc_run api (c, pre @ x # post) (length pre) = Some (Ret (c1, pre @ x1 # post))"
    using assms locks_holds by (auto simp: cc_run_def returned_iff)
  then show ?thesis by (intro sys_step.run [of "length pre"]) simp_all
qed

lemma cc_on:
  assumes "cc_step api c x = Ret (c1, x1)" "\<not> returned x" "locks x \<Longrightarrow> unlocked (pre @ post)"
    and "sys_runs api (c1, pre @ x1 # post) s"
  shows "sys_runs api (c, pre @ x # post) s"
  by (rule converse_rtranclp_into_rtranclp [OF cc_go [OF assms(1-3)] assms(4)])

lemma cc_end:
  "cc_step api c x = Ret (c', x') \<Longrightarrow> \<not> returned x \<Longrightarrow> (locks x \<Longrightarrow> unlocked (pre @ post))
     \<Longrightarrow> sys_runs api (c, pre @ x # post) (c', pre @ x' # post)"
  by (rule r_into_rtranclp [where r = "\<lambda>s s'. sys_step api s (Ret s')", OF cc_go])

lemma unlocked_back [simp]: "unlocked (map Back es)"
  by (induction es) simp_all

lemma upgrade_parts:
  "upgrade_cas tm n = None \<Longrightarrow> fst (upgradeTopic tm n (Some t)) = tm"
  "upgrade_cas tm n = Some (tm', a) \<Longrightarrow> upgrade_store tm' n t a = fst (upgradeTopic tm n (Some t))"
  by (auto simp: upgrade_cas_def upgradeTopic_def upgrade_store_def tm_poke_def Let_def fun_upd_idem split: option.splits if_splits)

lemma validate_alone:
  assumes "c_cfg_Pubsub c = Some pcfg" "unlocked (pre @ post)"
    and "(if tc_MsgValidator (fst (GetTopicConfig pcfg n)) \<noteq> None \<or> psc_MsgValidator pcfg \<noteq> None then
            (case api_RegisterTopicValidator api (c_pubsub c) n (val_config pcfg (fst (GetTopicConfig pcfg n))) of
               (ps, Some e) \<Rightarrow> Ret (c\<lparr>c_pubsub := ps\<rparr>, Some t, Some e)
             | (ps, None) \<Rightarrow> Ret (c\<lparr>c_pubsub := ps\<rparr>, Some t, None))
          else Ret (c, Some t, None)) = Ret (c', t', e)"
  shows "sys_runs api (c, pre @ TryVal g n t # post)
    (c', pre @ (case e of Some m \<Rightarrow> Back (Some m) | None \<Rightarrow> cc_joined g n t') # post)"
  using assms by (intro cc_end) (auto simp: Let_def split: if_splits option.splits prod.splits)

lemma tryJoin_alone:
  assumes "tryJoin api c n = Ret (c', t, e)" "unlocked (pre @ post)"
  shows "sys_runs api (c, pre @ TryGet g n # post)
    (c', pre @ (case e of Some m \<Rightarrow> Back (Some m) | None \<Rightarrow> cc_joined g n t) # post)" (is "sys_runs api _ ?end")
proof (cases "getTopicWrapper (c_topicManager c) n")
  case (Some a)
  have "sys_runs api (c, pre @ TryLoad g n a # post) ?end"
  proof (cases "tw_state (wrapper c a) = topicStateJoining")
    case True
    with assms Some show ?thesis by (intro cc_end) (auto simp: tryJoin_def Let_def)
  next
    case False
    with assms(1) Some have r: "c' = c" "t = tw_topic (wrapper c a)" "e = None" by (auto simp: tryJoin_def Let_def)
    have "sys_runs api (c, pre @ TryTopic g n a # post) ?end" unfolding r by (rule cc_end) simp_all
    with False show ?thesis by - (rule cc_on [of api c _ c "TryTopic g n a"], simp_all)
  qed
  with Some assms(2) show ?thesis by - (rule cc_on [of api c _ c "TryLoad g n a"], simp_all)
next
  case None
  let ?c1 = "set_tm c (joiningTopic (c_topicManager c) n)"
  obtain pcfg where p: "c_cfg_Pubsub c = Some pcfg" using assms(1) None by (cases "c_cfg_Pubsub c") (auto simp: tryJoin_def)
  obtain ps r where j: "api_Join api (c_pubsub c) n (join_opts (GetTopicConfig pcfg n)) = (ps, r)" by fastforce
  have "sys_runs api (?c1, pre @ TryJoin g n # post) ?end"
  proof (cases r)
    case (Inl m)
    with assms None p j show ?thesis by (intro cc_end) (auto simp: tryJoin_def Let_def)
  next
    case (Inr tp)
    let ?c2 = "?c1\<lparr>c_pubsub := ps\<rparr>"
    let ?c3 = "?c2\<lparr>c_topicManager := fst (upgradeTopic (c_topicManager ?c2) n (Some tp))\<rparr>"
    have "c\<lparr>c_pubsub := ps, c_topicManager := fst (upgradeTopic (joiningTopic (c_topicManager c) n) n (Some tp))\<rparr> = ?c3" by simp
    with assms(1) None p j Inr have v: "sys_runs api (?c3, pre @ TryVal g n tp # post) ?end"
      by (intro validate_alone [of _ pcfg]) (use assms(2) in \<open>auto simp: tryJoin_def Let_def\<close>)
    have "sys_runs api (?c2, pre @ TryCas g n tp # post) ?end"
    proof (cases "upgrade_cas (c_topicManager ?c2) n")
      case None
      with v upgrade_parts(1) [OF None, of tp] assms(2) show ?thesis by - (rule cc_on [of api ?c2 _ ?c3 "TryVal g n tp"], simp_all)
    next
      case (Some x)
      obtain tm a where x: "x = (tm, a)" by fastforce
      have "sys_runs api (set_tm ?c2 tm, pre @ TryStore g n tp a # post) ?end"
        using v upgrade_parts(2) [OF Some [unfolded x], of tp] by - (rule cc_on [of api _ _ ?c3 "TryVal g n tp"], simp_all)
      with Some x assms(2) show ?thesis by - (rule cc_on [of api ?c2 _ "set_tm ?c2 tm" "TryStore g n tp a"], simp_all)
    qed
    with p j Inr show ?thesis by - (rule cc_on [of api ?c1 _ ?c2 "TryCas g n tp"], simp_all)
  qed
  then have "sys_runs api (c, pre @ TryMark g n # post) ?end"
    using assms(2) by - (rule cc_on [of api c _ ?c1 "TryJoin g n"], simp_all)
  with None assms(2) show ?thesis by - (rule cc_on [of api c _ c "TryMark g n"], simp_all)
qed

lemma publish_alone:
  assumes "Publish api c n d = Ret (c', e)" "unlocked (pre @ post)"
  shows "sys_runs api (c, pre @ TryGet (GPublish d) n # post) (c', pre @ Back e # post)"
proof -
  from assms(1) obtain c1 t e1 where j: "tryJoin api c n = Ret (c1, t, e1)" by (auto simp: Publish_def go_bind_eq_Ret_iff)
  have "sys_runs api (c1, pre @ (case e1 of Some m \<Rightarrow> Back (Some m) | None \<Rightarrow> cc_joined (GPublish d) n t) # post) (c', pre @ Back e # post)"
  proof (cases e1)
    case None
    with assms(1) j show ?thesis by (auto simp: Publish_def go_bind_eq_Ret_iff intro!: cc_end)
  qed (use assms(1) j in \<open>auto simp: Publish_def\<close>)
  with tryJoin_alone [OF j assms(2)] show ?thesis by (rule rtranclp_trans)
qed

lemma relay_alone:
  assumes "Relay api c n = Ret (c', e)" "unlocked (pre @ post)"
  shows "sys_runs api (c, pre @ TryGet GRelay n # post) (c', pre @ Back e # post)"
proof -
  from assms(1) obtain c1 t e1 where j: "tryJoin api c n = Ret (c1, t, e1)" by (auto simp: Relay_def go_bind_eq_Ret_iff)
  have "sys_runs api (c1, pre @ (case e1 of Some m \<Rightarrow> Back (Some m) | None \<Rightarrow> cc_joined GRelay n t) # post) (c', pre @ Back e # post)"
  proof (cases e1)
    case None
    with assms(1) j obtain ps r where r: "api_Relay api (c_pubsub c1) t = Ret (ps, r)" by (fastforce simp: Relay_def go_bind_eq_Ret_iff)
    show ?thesis
    proof (cases r)
      case (Inl m)
      with assms(1) j None r show ?thesis by (auto simp: Relay_def intro!: cc_end)
    next
      case (Inr fn)
      let ?c2 = "c1\<lparr>c_pubsub := ps\<rparr>"
      from assms(1) j None r Inr have e: "e = None" "c' = set_tm ?c2 (fst (setTopicRelayCancelFn (c_topicManager ?c2) n (Some fn)))"
        by (auto simp: Relay_def)
      have "sys_runs api (?c2, pre @ RelSet n fn # post) (c', pre @ Back e # post)" by (rule cc_end) (use assms(2) e in simp_all)
      with None r Inr show ?thesis by - (simp, rule cc_on [of api c1 _ ?c2 "RelSet n fn"], simp_all)
    qed
  qed (use assms(1) j in \<open>auto simp: Relay_def\<close>)
  with tryJoin_alone [OF j assms(2)] show ?thesis by (rule rtranclp_trans)
qed

lemma subscribe_alone:
  assumes "Subscribe api c n = Ret (c', e)" "unlocked (pre @ post)"
  shows "sys_runs api (c, pre @ TryGet GSubscribe n # post) (c', pre @ Back e # post)"
proof -
  from assms(1) obtain c1 t e1 where j: "tryJoin api c n = Ret (c1, t, e1)" by (auto simp: Subscribe_def go_bind_eq_Ret_iff)
  have "sys_runs api (c1, pre @ (case e1 of Some m \<Rightarrow> Back (Some m) | None \<Rightarrow> cc_joined GSubscribe n t) # post) (c', pre @ Back e # post)"
  proof (cases e1)
    case None
    with assms(1) j obtain c2 s e2 where ts: "trySubscribe api c1 t = Ret (c2, s, e2)"
      by (auto simp: Subscribe_def go_bind_eq_Ret_iff)
    then obtain m where m: "api_String api t = Ret m" by (auto simp: trySubscribe_def go_bind_eq_Ret_iff)
    have "sys_runs api (c1, pre @ SubGet n t m # post) (c', pre @ Back e # post)"
    proof (cases "getSub (c_topicManager c1) m")
      case (Some x)
      with ts m assms j None have "c' = c1" "e = None" by (auto simp: trySubscribe_def Subscribe_def)
      with Some assms(2) show ?thesis by (intro cc_end) simp_all
    next
      case None
      note nosub = None
      from ts m nosub obtain pcfg where p: "c_cfg_Pubsub c1 = Some pcfg" by (cases "c_cfg_Pubsub c1") (auto simp: trySubscribe_def)
      obtain cfg ok where cfg: "GetTopicConfig pcfg m = (cfg, ok)" by fastforce
      let ?opts = "if ok \<and> tc_BufferSize cfg > 0 then [tc_BufferSize cfg] else []"
      from ts m nosub p cfg obtain ps r where r: "api_Subscribe api (c_pubsub c1) t ?opts = Ret (ps, r)"
        by (fastforce simp: trySubscribe_def go_bind_eq_Ret_iff)
      have "sys_runs api (c1, pre @ SubCall n t m # post) (c', pre @ Back e # post)"
      proof (cases r)
        case (Inl x)
        with ts m nosub p cfg r j assms(1) \<open>e1 = None\<close> have "c' = c1\<lparr>c_pubsub := ps\<rparr>" "e = Some x"
          by (auto simp: trySubscribe_def Subscribe_def)
        with Inl p cfg r show ?thesis by (intro cc_end) simp_all
      next
        case (Inr s)
        let ?c2 = "c1\<lparr>c_pubsub := ps\<rparr>" let ?c3 = "set_tm ?c2 (fst (addSub (c_topicManager ?c2) m (Some s)))"
        from Inr ts m nosub p cfg r j assms(1) \<open>e1 = None\<close>
        have e: "e = None" "c' = ?c3\<lparr>c_listeners := (n, s) # c_listeners ?c3\<rparr>"
          by (auto simp: trySubscribe_def Subscribe_def)
        have "sys_runs api (?c3, pre @ SubListen n s # post) (c', pre @ Back e # post)" by (rule cc_end) (use e in simp_all)
        with assms(2) have "sys_runs api (?c2, pre @ SubAdd n m s # post) (c', pre @ Back e # post)"
          by - (rule cc_on [of api ?c2 _ ?c3 "SubListen n s"], simp_all)
        with Inr p cfg r show ?thesis by - (rule cc_on [of api c1 _ ?c2 "SubAdd n m s"], simp_all)
      qed
      with nosub assms(2) show ?thesis by - (rule cc_on [of api c1 _ c1 "SubCall n t m"], simp_all)
    qed
    with m None show ?thesis by - (simp, rule cc_on [of api c1 _ c1 "SubGet n t m"], simp_all)
  qed (use assms(1) j in \<open>auto simp: Subscribe_def\<close>)
  with tryJoin_alone [OF j assms(2)] show ?thesis by (rule rtranclp_trans)
qed

lemma leave_alone:
  assumes "Leave api c n = Ret (c', e)" "unlocked (pre @ post)"
  shows "sys_runs api (c, pre @ LeaveGet n # post) (c', pre @ Back e # post)"
proof -
  from assms(1) obtain a where a: "getTopicWrapper (c_topicManager c) n = Some a" by (auto simp: Leave_def split: option.splits)
  have "sys_runs api (c, pre @ LeaveLoad a # post) (c', pre @ Back e # post)"
  proof (cases "tw_state (wrapper c a) = topicStateJoined \<or> tw_state (wrapper c a) = topicStateErr")
    case False
    with assms(1) a show ?thesis by (intro cc_end) (auto simp: Leave_def Let_def)
  next
    case True
    with assms(1) a obtain ps e1 where r: "api_Close api (c_pubsub c) (tw_topic (wrapper c a)) = Ret (ps, e1)"
      by (fastforce simp: Leave_def Let_def go_bind_eq_Ret_iff)
    let ?c1 = "c\<lparr>c_pubsub := ps\<rparr>" let ?st = "case e1 of Some _ \<Rightarrow> topicStateErr | None \<Rightarrow> topicStateUnknown"
    from assms(1) a True r have e: "e = e1" "c' = set_tm ?c1 (tm_poke (c_topicManager ?c1) a ((wrapper ?c1 a)\<lparr>tw_state := ?st\<rparr>))"
      by (auto simp: Leave_def Let_def split: option.splits)
    have "sys_runs api (?c1, pre @ LeaveStore a ?st e1 # post) (c', pre @ Back e # post)" by (rule cc_end) (use e in simp_all)
    with r have "sys_runs api (c, pre @ LeaveClose a # post) (c', pre @ Back e # post)"
      by - (rule cc_on [of api c _ ?c1 "LeaveStore a ?st e1"], simp_all)
    with True show ?thesis by - (rule cc_on [of api c _ c "LeaveClose a"], simp_all)
  qed
  with a assms(2) show ?thesis by - (rule cc_on [of api c _ c "LeaveLoad a"], simp_all)
qed

lemma unsubscribe_alone:
  assumes "Unsubscribe api c n = Ret (c', e)" "unlocked (pre @ post)"
  shows "sys_runs api (c, pre @ UnsubGet n # post) (c', pre @ Back e # post)"
proof -
  from assms(1) obtain a where a: "getTopicWrapper (c_topicManager c) n = Some a" by (auto simp: Unsubscribe_def split: option.splits)
  have "sys_runs api (c, pre @ UnsubLoad a # post) (c', pre @ Back e # post)"
  proof (cases "tw_state (wrapper c a) = topicStateUnknown")
    case True
    with assms(1) a show ?thesis by (intro cc_end) (auto simp: Unsubscribe_def Let_def)
  next
    case False
    with assms(1) a have "sys_runs api (c, pre @ UnsubCancel a # post) (c', pre @ Back e # post)"
      by (intro cc_end) (auto simp: Unsubscribe_def Let_def go_bind_eq_Ret_iff)
    with False show ?thesis by - (rule cc_on [of api c _ c "UnsubCancel a"], simp_all)
  qed
  with a assms(2) show ?thesis by - (rule cc_on [of api c _ c "UnsubLoad a"], simp_all)
qed

lemma unrelay_alone:
  assumes "Unrelay api c n = Ret (c', e)" "unlocked (pre @ post)"
  shows "sys_runs api (c, pre @ UnrelGet n # post) (c', pre @ Back e # post)"
proof -
  from assms(1) obtain a where a: "getTopicWrapper (c_topicManager c) n = Some a" by (auto simp: Unrelay_def split: option.splits)
  have "sys_runs api (c, pre @ UnrelLoad a # post) (c', pre @ Back e # post)"
  proof (cases "tw_state (wrapper c a) = topicStateUnknown")
    case True
    with assms(1) a show ?thesis by (intro cc_end) (auto simp: Unrelay_def Let_def)
  next
    case False
    with assms(1) a have "sys_runs api (c, pre @ UnrelCall a # post) (c', pre @ Back e # post)"
      by (intro cc_end) (auto simp: Unrelay_def Let_def split: option.splits)
    with False show ?thesis by - (rule cc_on [of api c _ c "UnrelCall a"], simp_all)
  qed
  with a assms(2) show ?thesis by - (rule cc_on [of api c _ c "UnrelLoad a"], simp_all)
qed

lemma exec_alone:
  assumes "exec api c x = Ret (c', e)" "unlocked (pre @ post)"
  shows "sys_runs api (c, pre @ cc_start x # post) (c', pre @ Back e # post)"
  using assms
  by (cases x) (simp_all add: publish_alone relay_alone subscribe_alone leave_alone unsubscribe_alone unrelay_alone)



text \<open>A library that refuses to join a topic twice.\<close>

definition once_api :: "(string list, string, string, unit) pubsub_api" where
  "once_api = (demo_api [] [])\<lparr>api_Join := (\<lambda>ps n opts.
     if (''join '' @ n) \<in> set ps then (ps, Inl ''topic already exists'') else ((''join '' @ n) # ps, Inr n))\<rparr>"

lemma once_Join_names: "Join_names once_api"
  using demo_Join_names [of "[]" "[]"] by (auto simp: Join_names_def once_api_def demo_api_def split: if_splits)

lemma once_publish:
  obtains c1 where "Publish once_api (new_ctrl (Some demo_cfg) []) ''a'' [1] = Ret (c1, None)"
    "\<And>os. api_Join once_api (c_pubsub c1) ''a'' os = (c_pubsub c1, Inl ''topic already exists'')" "c_cfg_Pubsub c1 = Some demo_cfg"
proof -
  have "(case Publish once_api (new_ctrl (Some demo_cfg) []) ''a'' [1] of Ret (c, e) \<Rightarrow>
      e = None \<and> c_pubsub c = [''publish a'', ''validator a'', ''join a''] \<and> c_cfg_Pubsub c \<noteq> None | Panic _ \<Rightarrow> False)" by code_simp
  then obtain c1 where c1: "Publish once_api (new_ctrl (Some demo_cfg) []) ''a'' [1] = Ret (c1, None)"
    "c_pubsub c1 = [''publish a'', ''validator a'', ''join a'']" by (auto split: go.splits prod.splits)
  have "api_Join once_api (c_pubsub c1) ''a'' os = (c_pubsub c1, Inl ''topic already exists'')" for os
    by (simp add: once_api_def c1(2))
  moreover have "c_cfg_Pubsub c1 = Some demo_cfg"
    using c1(1) by (auto simp: Publish_def tryJoin_def new_ctrl_def Let_def go_bind_eq_Ret_iff split: option.splits prod.splits sum.splits if_splits)
  ultimately show thesis by (rule that [OF c1(1)])
qed

section \<open>Two calls on one topic\<close>

lemma two_calls: "sys_runs api (c, []) (c, [cc_start x, cc_start y])"
  using sys_step.call [of api c "[]" x] sys_step.call [of api c "[cc_start x]" y]
    converse_rtranclp_into_rtranclp [of "\<lambda>s s'. sys_step api s (Ret s')"] by (metis append.simps rtranclp.rtrancl_refl)

text \<open>The second call has found no wrapper before the first one made its own, and makes another one.\<close>

lemma raced_join_overwrites:
  assumes "c_view c n = None" "c_cfg_Pubsub c = Some pcfg" "Publish api c n d = Ret (c1, None)"
    and "api_Join api (c_pubsub c1) n (join_opts (GetTopicConfig pcfg n)) = (ps', Inl m)" "c_cfg_Pubsub c1 = Some pcfg"
  shows "sys_runs api (c, []) ((set_tm c1 (joiningTopic (c_topicManager c1) n))\<lparr>c_pubsub := ps'\<rparr>, [Back None, Back (Some m)])"
proof -
  let ?g = "GPublish d" let ?c2 = "set_tm c1 (joiningTopic (c_topicManager c1) n)"
  have "sys_runs api (?c2, [Back None] @ TryJoin ?g n # []) (?c2\<lparr>c_pubsub := ps'\<rparr>, [Back None] @ Back (Some m) # [])"
    by (rule cc_end) (use assms(4,5) in simp_all)
  then have "sys_runs api (c1, [Back None] @ TryMark ?g n # []) (?c2\<lparr>c_pubsub := ps'\<rparr>, [Back None, Back (Some m)])"
    by - (rule cc_on [of api c1 _ ?c2 "TryJoin ?g n"], simp_all)
  moreover have "sys_runs api (c, [] @ TryGet ?g n # [TryMark ?g n]) (c1, [] @ Back None # [TryMark ?g n])"
    by (rule publish_alone [OF assms(3)]) simp
  ultimately have "sys_runs api (c, [TryGet ?g n] @ TryMark ?g n # []) (?c2\<lparr>c_pubsub := ps'\<rparr>, [Back None, Back (Some m)])"
    by (simp add: rtranclp_trans [of "\<lambda>s s'. sys_step api s (Ret s')"])
  then have "sys_runs api (c, [TryGet ?g n] @ TryGet ?g n # []) (?c2\<lparr>c_pubsub := ps'\<rparr>, [Back None, Back (Some m)])"
    using assms(1) by - (rule cc_on [of api c _ c "TryMark ?g n"], simp_all)
  then show ?thesis using two_calls [of api c "CPublish n d" "CPublish n d"] by (auto intro: rtranclp_trans)
qed

text \<open>The second call reads the wrapper between the two stores of the first one's upgrade.\<close>

lemma raced_join_nil_handle:
  assumes "c_view c n = None" "c_cfg_Pubsub c = Some pcfg"
    and "api_Join api (c_pubsub c) n (join_opts (GetTopicConfig pcfg n)) = (ps1, Inr t)"
    and "api_Publish api ps1 None d' = Panic NilDeref"
  shows "\<exists>s. sys_runs api (c, []) s \<and> sys_step api s (Panic NilDeref)"
proof -
  let ?g = "GPublish d'" and ?h = "GPublish d'" let ?a = "tm_next (c_topicManager c)"
  let ?c1 = "set_tm c (joiningTopic (c_topicManager c) n)" let ?c2 = "?c1\<lparr>c_pubsub := ps1\<rparr>"
  obtain tm where up: "upgrade_cas (c_topicManager ?c2) n = Some (tm, ?a)" "tw_state (tm_heap tm ?a) \<noteq> topicStateJoining"
    "tw_topic (tm_heap tm ?a) = None"
    by (simp add: upgrade_cas_def joiningTopic_def Let_def zeroWrapper_def tm_poke_def topic_state_defs)
  let ?c3 = "set_tm ?c2 tm"
  have "cc_run api (?c3, [TryStore ?g n t ?a, Pub n None d']) 1 = Some (Panic NilDeref)"
    using assms(4) by (simp add: cc_run_def)
  then have pan: "sys_step api (?c3, [TryStore ?g n t ?a, Pub n None d']) (Panic NilDeref)" by (intro sys_step.run [of 1]) simp_all
  have "sys_runs api (?c3, [TryStore ?g n t ?a] @ TryTopic ?h n ?a # []) (?c3, [TryStore ?g n t ?a, Pub n None d'])"
    using cc_end [of api ?c3 "TryTopic ?h n ?a" ?c3 "Pub n None d'" "[TryStore ?g n t ?a]" "[]"] up(3) by simp
  then have "sys_runs api (?c3, [TryStore ?g n t ?a] @ TryLoad ?h n ?a # []) (?c3, [TryStore ?g n t ?a, Pub n None d'])"
    using up(2) by - (rule cc_on [of api ?c3 _ ?c3 "TryTopic ?h n ?a"], simp_all)
  then have "sys_runs api (?c2, [] @ TryCas ?g n t # [TryLoad ?h n ?a]) (?c3, [TryStore ?g n t ?a, Pub n None d'])"
    using up(1) by - (rule cc_on [of api ?c2 _ ?c3 "TryStore ?g n t ?a"], simp_all)
  then have "sys_runs api (?c1, [] @ TryJoin ?g n # [TryLoad ?h n ?a]) (?c3, [TryStore ?g n t ?a, Pub n None d'])"
    using assms(2,3) by - (rule cc_on [of api ?c1 _ ?c2 "TryCas ?g n t"], simp_all)
  moreover have "getTopicWrapper (c_topicManager ?c1) n = Some ?a" by (simp add: getTopicWrapper_def joiningTopic_def Let_def)
  ultimately have "sys_runs api (?c1, [TryJoin ?g n] @ TryGet ?h n # []) (?c3, [TryStore ?g n t ?a, Pub n None d'])"
    by - (rule cc_on [of api ?c1 _ ?c1 "TryLoad ?h n ?a"], simp_all)
  then have "sys_runs api (c, [] @ TryMark ?g n # [TryGet ?h n]) (?c3, [TryStore ?g n t ?a, Pub n None d'])"
    by - (rule cc_on [of api c _ ?c1 "TryJoin ?g n"], simp_all)
  then have "sys_runs api (c, [] @ TryGet ?g n # [TryGet ?h n]) (?c3, [TryStore ?g n t ?a, Pub n None d'])"
    using assms(1) by - (rule cc_on [of api c _ c "TryMark ?g n"], simp_all)
  then have "sys_runs api (c, []) (?c3, [TryStore ?g n t ?a, Pub n None d'])"
    using two_calls [of api c "CPublish n d'" "CPublish n d'"] by (auto intro: rtranclp_trans)
  with pan show ?thesis by blast
qed



text \<open>
  Two subscribe calls on a joined topic: both find no subscription, both subscribe, and each starts a listener, so
  every message reaches the router twice; the table knows the second subscription only.
\<close>

lemma concurrent_subscribes_race:
  assumes "c_view c n = Some tw" "tw_state tw \<noteq> topicStateJoining" "tw_topic tw = Some t" "tw_sub tw = None"
    and "api_String api (Some t) = Ret n" "c_cfg_Pubsub c = Some pcfg" "c_inv c"
    and "\<And>os. api_Subscribe api (c_pubsub c) (Some t) os = Ret (ps1, Inr s1)"
    and "\<And>os. api_Subscribe api ps1 (Some t) os = Ret (ps2, Inr s2)"
  shows "\<exists>c'. sys_runs api (c, []) (c', [Back None, Back None]) \<and> c_listeners c' = (n, s2) # (n, s1) # c_listeners c
    \<and> getSub (c_topicManager c') n = Some s2"
proof -
  obtain a where a: "getTopicWrapper (c_topicManager c) n = Some a" "wrapper c a = tw" using assms(1) by (elim view_SomeE) simp
  let ?w = "\<lambda>c x y. (c, [x, y])"
  have first: "sys_runs api (?w c x y) s" if "cc_step api c x = Ret (c1, x1)" "\<not> returned x" "unlocked [y]" "sys_runs api (?w c1 x1 y) s"
    for c c1 x x1 y s using cc_on [OF that(1,2), of "[]" "[y]"] that(3,4) by simp
  have second: "sys_runs api (?w c x y) s" if "cc_step api c y = Ret (c1, y1)" "\<not> returned y" "unlocked [x]" "sys_runs api (?w c1 x y1) s"
    for c c1 x y y1 s using cc_on [OF that(1,2), of "[x]" "[]"] that(3,4) by simp
  have nosub: "getSub (c_topicManager c) n = None" using assms(1,4) by (simp add: tm.get_sub_view)
  let ?c1 = "c\<lparr>c_pubsub := ps1\<rparr>" let ?c2 = "?c1\<lparr>c_pubsub := ps2\<rparr>"
  let ?c3 = "set_tm ?c2 (fst (addSub (c_topicManager ?c2) n (Some s1)))"
  let ?c4 = "set_tm ?c3 (fst (addSub (c_topicManager ?c3) n (Some s2)))"
  let ?c5 = "?c4\<lparr>c_listeners := (n, s1) # c_listeners ?c4\<rparr>" let ?c6 = "?c5\<lparr>c_listeners := (n, s2) # c_listeners ?c5\<rparr>"
  have "sys_runs api (?w ?c4 (SubListen n s1) (SubListen n s2)) (?w ?c6 (Back None) (Back None))"
    by (rule first [of ?c4 _ ?c5], simp, simp, simp, rule second [of ?c5 _ ?c6], simp, simp, simp, rule rtranclp.rtrancl_refl)
  then have "sys_runs api (?w ?c2 (SubAdd n n s1) (SubAdd n n s2)) (?w ?c6 (Back None) (Back None))"
    by - (rule first [of ?c2 _ ?c3], simp, simp, simp, rule second [of ?c3 _ ?c4], simp_all)
  moreover have "sys_runs api (?w c (SubCall n (Some t) n) (SubCall n (Some t) n)) (?w ?c2 (SubAdd n n s1) (SubAdd n n s2))"
    by (rule first [of c _ ?c1], simp add: assms(6,8) split: prod.split, simp, simp,
        rule second [of ?c1 _ ?c2], simp add: assms(6,9) split: prod.split, simp, simp, rule rtranclp.rtrancl_refl)
  ultimately have "sys_runs api (?w c (SubCall n (Some t) n) (SubCall n (Some t) n)) (?w ?c6 (Back None) (Back None))" by (rule rtranclp_trans [rotated])
  then have "sys_runs api (?w c (SubGet n (Some t) n) (SubGet n (Some t) n)) (?w ?c6 (Back None) (Back None))"
    using nosub by - (rule first [of c _ c "SubCall n (Some t) n"], simp, simp, simp, rule second [of c _ c "SubCall n (Some t) n"], simp_all)
  then have "sys_runs api (?w c (SubName n (Some t)) (SubName n (Some t))) (?w ?c6 (Back None) (Back None))"
    using assms(5) by - (rule first [of c _ c "SubGet n (Some t) n"], simp, simp, simp, rule second [of c _ c "SubGet n (Some t) n"], simp_all)
  then have "sys_runs api (?w c (TryTopic GSubscribe n a) (TryTopic GSubscribe n a)) (?w ?c6 (Back None) (Back None))"
    using a(2) assms(3) by - (rule first [of c _ c "SubName n (Some t)"], simp, simp, simp, rule second [of c _ c "SubName n (Some t)"], simp_all)
  then have "sys_runs api (?w c (TryLoad GSubscribe n a) (TryLoad GSubscribe n a)) (?w ?c6 (Back None) (Back None))"
    using a(2) assms(2) by - (rule first [of c _ c "TryTopic GSubscribe n a"], simp, simp, simp, rule second [of c _ c "TryTopic GSubscribe n a"], simp_all)
  then have "sys_runs api (?w c (TryGet GSubscribe n) (TryGet GSubscribe n)) (?w ?c6 (Back None) (Back None))"
    using a(1) by - (rule first [of c _ c "TryLoad GSubscribe n a"], simp, simp, simp, rule second [of c _ c "TryLoad GSubscribe n a"], simp_all)
  then have "sys_runs api (c, []) (?c6, [Back None, Back None])"
    using two_calls [of api c "CSubscribe n" "CSubscribe n"] by (auto intro: rtranclp_trans)
  moreover have "getSub (c_topicManager ?c6) n = Some s2"
    using tm.get_sub_add_sub(1) [of "c_topicManager ?c3" n] assms(1,7) by (simp add: tm.add_sub_inv tm.add_sub_view tab_modify_def)
  ultimately show ?thesis by (intro exI [of _ ?c6]) simp
qed

text \<open>C2: concurrent calls.  In every interleaving of any number of calls of the controller, every entry of the topic
  table has a legal state, holds a handle of its own topic or none, and has none exactly while it is joining or an
  upgrade is between its two stores; every call uses a handle of the topic it was asked for; and whenever all calls
  have returned the table satisfies its invariant.\<close>

theorem concurrent_calls_keep_table:
  assumes "Join_names api" and "sys_runs api (new_ctrl cfg ps, []) (c, cs)"
  shows "(\<forall>n tw. c_view c n = Some tw \<longrightarrow>
        tw_state tw \<in> {topicStateUnknown, topicStateJoining, topicStateJoined, topicStateErr}
        \<and> (tw_state tw = topicStateJoining \<longrightarrow> tw_topic tw = None)
        \<and> (tw_topic tw = None \<longrightarrow> tw_state tw = topicStateJoining \<or> (\<exists>g t a. TryStore g n t a \<in> set cs))
        \<and> (\<forall>t. tw_topic tw = Some t \<longrightarrow> api_String api (Some t) = Ret n))
    \<and> (\<forall>x\<in>set cs. \<forall>n t. uses_handle x = Some (n, t) \<longrightarrow> api_String api (Some t) = Ret n)
    \<and> ((\<forall>x\<in>set cs. \<exists>e. x = Back e) \<longrightarrow> c_inv c)"
proof -
  from sys_runs_inv [OF assms(2,1)] obtain nm where nm: "table_ok (of_api api) nm (pending cs) (c_topicManager c)"
    "\<forall>x\<in>set cs. cc_ok (of_api api) nm (c_topicManager c) x" by (auto simp: conc_inv_def)
  have up: "\<exists>g t. TryStore g (nm a) t a \<in> set cs" if a: "a \<in> pending cs" for a
  proof -
    from a obtain x where x: "x \<in> set cs" "a \<in> pend x" by (auto simp: pending_def)
    from x(2) obtain g n t where "x = TryStore g n t a" by (cases x) auto
    with x(1) nm(2) show ?thesis by fastforce
  qed
  have w: "wr_ok (of_api api) n (a \<in> pending cs) (tm_heap (c_topicManager c) a)" "nm a = n" "a < tm_next (c_topicManager c)"
    if "tm_topics (c_topicManager c) n = Some a" for n a
    using nm(1) that by (auto simp: table_ok_def)
  have "c_inv c" if "\<forall>x\<in>set cs. \<exists>e. x = Back e"
  proof -
    have "pending cs = {}" using that by (auto simp: pending_def)
    with w show ?thesis unfolding tm_inv_def wrapper_ok_def wr_ok_def by (metis empty_iff)
  qed
  moreover have "\<forall>n tw. c_view c n = Some tw \<longrightarrow>
        tw_state tw \<in> {topicStateUnknown, topicStateJoining, topicStateJoined, topicStateErr}
        \<and> (tw_state tw = topicStateJoining \<longrightarrow> tw_topic tw = None)
        \<and> (tw_topic tw = None \<longrightarrow> tw_state tw = topicStateJoining \<or> (\<exists>g t a. TryStore g n t a \<in> set cs))
        \<and> (\<forall>t. tw_topic tw = Some t \<longrightarrow> api_String api (Some t) = Ret n)"
  proof (intro allI impI)
    fix n tw assume "c_view c n = Some tw"
    then obtain a where a: "tm_topics (c_topicManager c) n = Some a" "tw = tm_heap (c_topicManager c) a" by (auto simp: tm_view_def)
    have "\<exists>g t. TryStore g n t a \<in> set cs" if "a \<in> pending cs" using up [OF that] w(2) [OF a(1)] by simp
    with w(1) [OF a(1)] show "tw_state tw \<in> {topicStateUnknown, topicStateJoining, topicStateJoined, topicStateErr}
        \<and> (tw_state tw = topicStateJoining \<longrightarrow> tw_topic tw = None)
        \<and> (tw_topic tw = None \<longrightarrow> tw_state tw = topicStateJoining \<or> (\<exists>g t a. TryStore g n t a \<in> set cs))
        \<and> (\<forall>t. tw_topic tw = Some t \<longrightarrow> api_String api (Some t) = Ret n)"
      unfolding a(2) wr_ok_def by blast
  qed
  moreover have "\<forall>x\<in>set cs. \<forall>n t. uses_handle x = Some (n, t) \<longrightarrow> api_String api (Some t) = Ret n"
  proof (intro ballI allI impI)
    fix x n t assume "x \<in> set cs" "uses_handle x = Some (n, t)"
    with nm(2) uses_handle_ok [of "of_api api" nm "c_topicManager c" x n t] show "api_String api (Some t) = Ret n" by simp
  qed
  ultimately show ?thesis by (intro conjI) simp_all
qed

theorem concurrent_calls_keep_table_witness:
  "\<exists>c. sys_runs once_api (new_ctrl (Some demo_cfg) [], []) (c, [Back None, Back (Some ''topic already exists'')]) \<and> c_inv c"
proof -
  let ?c = "new_ctrl (Some demo_cfg) [] :: (string list, string, string, unit) ctrl"
  obtain c1 where "Publish once_api ?c ''a'' [1] = Ret (c1, None)"
    "\<And>os. api_Join once_api (c_pubsub c1) ''a'' os = (c_pubsub c1, Inl ''topic already exists'')" "c_cfg_Pubsub c1 = Some demo_cfg"
    using once_publish by metis
  then have "\<exists>c2. sys_runs once_api (?c, []) (c2, [Back None, Back (Some ''topic already exists'')])"
    using raced_join_overwrites [of ?c "''a''" demo_cfg once_api "[1]" c1] by (auto simp: new_ctrl_def)
  then obtain c2 where c2: "sys_runs once_api (?c, []) (c2, [Back None, Back (Some ''topic already exists'')])" by blast
  from concurrent_calls_keep_table [OF once_Join_names c2] have "c_inv c2" by simp
  with c2 show ?thesis by blast
qed

end
