(* ===== verification/Bls_Threads.thy ===== *)
theory Bls_Threads
  imports Bls_Node
begin

text \<open>
  The goroutines of the BLS node with their real grain (\<open>examples/bls/node_internalnet.go\<close>, \<open>TriggerReport\<close> in
  \<open>node.go\<close>).  \<open>Bls_Node\<close> runs the function given to \<open>threadC.Go\<close> in one go; here a goroutine is stopped
  between any two operations on a store or a buffer, and around each RPC call, so two goroutines can work on
  one network at the same time.  The lock of a buffer makes \<open>Add\<close> and \<open>Get\<close> atomic.  \<open>Lookup\<close> takes no lock:
  it may find the map while \<open>Add\<close> writes it, which ends the process.
\<close>

section \<open>Goroutines\<close>

text \<open>
  Where a goroutine is: in \<open>TriggerReport\<close>, in \<open>consumeInternalNet\<close>, or in the one that reconstructs.  The
  report is the local copy, which \<open>Sign\<close> changes; the address is the one of the buffer that was found or made.
\<close>

datatype ('pk, 'sk) gr =
    TrigStart SignedReport
  | TrigAdd "('pk, 'sk) Share" SignedReport
  | TrigSend "('pk, 'sk) Share" SignedReport
  | IntGet "('pk, 'sk) Share" SignedReport
  | IntMake "('pk, 'sk) Share" SignedReport
  | IntAdd "('pk, 'sk) Share" SignedReport nat
  | IntLook "('pk, 'sk) Share" SignedReport nat
  | IntLead "('pk, 'sk) Share" SignedReport nat "string list"
  | IntOwn "('pk, 'sk) Share" SignedReport nat "string list"
  | IntSend "('pk, 'sk) Share" SignedReport nat "string list"
  | IntQuorum "('pk, 'sk) Share" SignedReport nat "string list"
  | FinCollect nat SignedReport "string list" "(u64 \<times> bytes) list"
  | FinSend SignedReport

text \<open>The next operation of a goroutine: the node, where it is then, the goroutines it starts, its requests.\<close>

fun gr_step :: "('pk, 'sk, 'sig, 'id) bls_env \<Rightarrow> ('pk, 'sk) Node \<Rightarrow> ('pk, 'sk) gr
    \<Rightarrow> (('pk, 'sk) Node \<times> ('pk, 'sk) gr option \<times> ('pk, 'sk) gr list \<times> PublishRequest list) go" where
  "gr_step env n (TrigStart report) =
     (case store_Get (nd_Shares n) (bsr_Network report) of
        None \<Rightarrow> Ret (n, None, [], [])
      | Some share \<Rightarrow> go_bind (getLeader n (bsr_Network report) (bsr_SeqNumber report)) (\<lambda>leader.
          Ret (n, if leader = share_SignerID share then Some (TrigAdd share (Sign env share report)) else None, [], [])))"
| "gr_step env n (TrigAdd share report) =
     go_bind (Add (nd_reports n) (bsr_Network report) report) (\<lambda>(reports, _).
       Ret (n\<lparr>nd_reports := reports\<rparr>, Some (TrigSend share report), [], []))"
| "gr_step env n (TrigSend share report) = Ret (n, None, [], fst (Broadcast env report))"
| "gr_step env n (IntGet share sr) =
     (case store_Get (nd_internalReports n) (bsr_Network sr) of
        Some a \<Rightarrow> Ret (n, Some (IntAdd share sr a), [], [])
      | None \<Rightarrow> Ret (n, Some (IntMake share sr), [], []))"
| "gr_step env n (IntMake share sr) =
     (let a = length (nd_heap n) in
      Ret (n\<lparr>nd_heap := nd_heap n @ [NewReportBuffer reportBufferSize],
             nd_internalReports := store_Add (nd_internalReports n) (bsr_Network sr) a\<rparr>,
           Some (IntAdd share sr a), [], []))"
| "gr_step env n (IntAdd share sr a) =
     go_bind (Add (nd_heap n ! a) (show_u64 (bsr_SignerID sr)) sr) (\<lambda>(buf, ok).
       Ret (put_buffer n a buf, if ok then Some (IntLook share sr a) else None, [], []))"
| "gr_step env n (IntLook share sr a) =
     go_bind (Lookup (key_order env (nd_heap n ! a)) (nd_heap n ! a) (bsr_SeqNumber sr)) (\<lambda>signers.
       Ret (n, Some (IntLead share sr a signers), [], []))"
| "gr_step env n (IntLead share sr a signers) =
     go_bind (getLeader n (bsr_Network sr) (bsr_SeqNumber sr)) (\<lambda>leader.
       Ret (n, if isProcessable (show_u64 (share_SignerID share)) (show_u64 leader) signers
               then Some (IntOwn share (Sign env share sr) a signers) else Some (IntQuorum share sr a signers), [], []))"
| "gr_step env n (IntOwn share sr a signers) =
     go_bind (Add (nd_heap n ! a) (show_u64 (share_SignerID share)) sr) (\<lambda>(buf, _).
       Ret (put_buffer n a buf, Some (IntSend share sr a signers), [], []))"
| "gr_step env n (IntSend share sr a signers) =
     (case Broadcast env sr of
        (reqs, Some _) \<Rightarrow> Ret (n, None, [], reqs)
      | (reqs, None) \<Rightarrow> Ret (n, Some (IntQuorum share sr a (signers @ [show_u64 (share_SignerID share)])), [], reqs))"
| "gr_step env n (IntQuorum share sr a signers) =
     Ret (n, None, if hasQuorum n sr signers then [FinCollect a sr signers []] else [], [])"
| "gr_step env n (FinCollect a sr (s # xs) signatures) =
     go_bind (collect_loop env (bsr_SeqNumber sr) (nd_heap n ! a) [s] signatures) (\<lambda>signatures.
       Ret (n, Some (FinCollect a sr xs signatures), [], []))"
| "gr_step env n (FinCollect a sr [] signatures) =
     Ret (n, if int (length signatures) > quorumCount n (bsr_Network sr)
             then (case prepareReport env signatures sr of Inl _ \<Rightarrow> None | Inr rep \<Rightarrow> Some (FinSend rep)) else None, [], [])"
| "gr_step env n (FinSend rep) = Ret (n, None, [], fst (Broadcast env rep))"

fun gr_of_task :: "('pk, 'sk) task \<Rightarrow> ('pk, 'sk) gr" where
  "gr_of_task (TriggerTask report) = TrigStart report"
| "gr_of_task (InternalTask share sr) = IntGet share sr"
| "gr_of_task (FinishTask a sr signers) = FinCollect a sr signers []"

text \<open>Two goroutines that race on a map: one iterates over it in \<open>Lookup\<close>, the other writes it in \<open>Add\<close>.\<close>

fun looks_up :: "('pk, 'sk) gr \<Rightarrow> nat \<Rightarrow> bool" where
  "looks_up (IntLook share sr a) b = (a = b)"
| "looks_up g b = False"

fun writes :: "('pk, 'sk) gr \<Rightarrow> nat \<Rightarrow> bool" where
  "writes (IntAdd share sr a) b = (a = b)"
| "writes (IntOwn share sr a signers) b = (a = b)"
| "writes g b = False"

definition map_race :: go_panic where
  "map_race = Explicit ''fatal error: concurrent map iteration and map write''"

section \<open>A running node\<close>

text \<open>\<open>th_consumed\<close> records the internal reports that the consumer has handed to goroutines.\<close>

record ('pk, 'sk) bls_threads =
  th_node :: "('pk, 'sk) Node"
  th_grs :: "('pk, 'sk) gr list"
  th_out :: "PublishRequest list"
  th_consumed :: "SignedReport list"

definition th_new :: "('pk, 'sk) Node \<Rightarrow> ('pk, 'sk) bls_threads" where
  "th_new n = \<lparr>th_node = n, th_grs = [], th_out = [], th_consumed = []\<rparr>"

definition th_deliver :: "('pk, 'sk, 'sig, 'id) bls_env \<Rightarrow> ('pk, 'sk) bls_threads \<Rightarrow> Message option
    \<Rightarrow> ('pk, 'sk) bls_threads go" where
  "th_deliver env s msg =
     go_bind (Consume env (th_node s) msg) (\<lambda>(n, ts, e).
       Ret (s\<lparr>th_node := n, th_grs := th_grs s @ map gr_of_task ts,
              th_consumed := th_consumed s @ concat (map (\<lambda>t. case t of InternalTask share sr \<Rightarrow> [sr] | _ \<Rightarrow> []) ts)\<rparr>))"

definition th_trigger :: "('pk, 'sk) bls_threads \<Rightarrow> SignedReport \<Rightarrow> ('pk, 'sk) bls_threads" where
  "th_trigger s report = s\<lparr>th_grs := th_grs s @ map gr_of_task (TriggerReport report)\<rparr>"

definition th_run :: "('pk, 'sk, 'sig, 'id) bls_env \<Rightarrow> ('pk, 'sk) bls_threads \<Rightarrow> nat \<Rightarrow> ('pk, 'sk) bls_threads go" where
  "th_run env s i =
     go_bind (gr_step env (th_node s) (th_grs s ! i)) (\<lambda>(n, g, started, reqs).
       Ret (s\<lparr>th_node := n,
              th_grs := take i (th_grs s) @ (case g of None \<Rightarrow> [] | Some g \<Rightarrow> [g]) @ drop (Suc i) (th_grs s) @ started,
              th_out := th_out s @ reqs\<rparr>))"

definition races :: "('pk, 'sk) bls_threads \<Rightarrow> bool" where
  "races s \<longleftrightarrow> (\<exists>i<length (th_grs s). \<exists>j<length (th_grs s). \<exists>a<length (nd_heap (th_node s)).
     looks_up (th_grs s ! i) a \<and> writes (th_grs s ! j) a)"

inductive th_step :: "('pk, 'sk, 'sig, 'id) bls_env \<Rightarrow> ('pk, 'sk) bls_threads \<Rightarrow> ('pk, 'sk) bls_threads go \<Rightarrow> bool"
  for env where
  deliver: "th_step env s (th_deliver env s msg)"
| trigger: "th_step env s (Ret (th_trigger s report))"
| run: "i < length (th_grs s) \<Longrightarrow> th_step env s (th_run env s i)"
| race: "races s \<Longrightarrow> th_step env s (Panic map_race)"

abbreviation th_runs :: "('pk, 'sk, 'sig, 'id) bls_env \<Rightarrow> ('pk, 'sk) bls_threads \<Rightarrow> ('pk, 'sk) bls_threads \<Rightarrow> bool" where
  "th_runs env \<equiv> (\<lambda>s s'. th_step env s (Ret s'))\<^sup>*\<^sup>*"

section \<open>Well-formed goroutines\<close>

text \<open>The share is the one of the network in the store, the buffer exists, and what is about to be sent is
  signed with the share or reconstructed.\<close>

abbreviation has_share :: "('pk, 'sk) Node \<Rightarrow> ('pk, 'sk) Share \<Rightarrow> SignedReport \<Rightarrow> bool" where
  "has_share n share sr \<equiv> store_Get (nd_Shares n) (bsr_Network sr) = Some share"

fun gr_ok :: "('pk, 'sk, 'sig, 'id) bls_env \<Rightarrow> ('pk, 'sk) Node \<Rightarrow> ('pk, 'sk) gr \<Rightarrow> bool" where
  "gr_ok env n (TrigStart report) = True"
| "gr_ok env n (TrigAdd share report) = (has_share n share report \<and> own_signed env share report)"
| "gr_ok env n (TrigSend share report) = (has_share n share report \<and> own_signed env share report)"
| "gr_ok env n (IntGet share sr) = has_share n share sr"
| "gr_ok env n (IntMake share sr) = has_share n share sr"
| "gr_ok env n (IntAdd share sr a) = (has_share n share sr \<and> a < length (nd_heap n))"
| "gr_ok env n (IntLook share sr a) = (has_share n share sr \<and> a < length (nd_heap n))"
| "gr_ok env n (IntLead share sr a signers) = (has_share n share sr \<and> a < length (nd_heap n))"
| "gr_ok env n (IntOwn share sr a signers) = (has_share n share sr \<and> a < length (nd_heap n) \<and> own_signed env share sr)"
| "gr_ok env n (IntSend share sr a signers) = (has_share n share sr \<and> a < length (nd_heap n) \<and> own_signed env share sr)"
| "gr_ok env n (IntQuorum share sr a signers) = (has_share n share sr \<and> a < length (nd_heap n))"
| "gr_ok env n (FinCollect a sr signers signatures) =
     (store_Get (nd_Shares n) (bsr_Network sr) \<noteq> None \<and> a < length (nd_heap n) \<and> sigs_ok env (bsr_SeqNumber sr) signatures)"
| "gr_ok env n (FinSend rep) = (\<exists>share. has_share n share rep \<and> aggregated env share rep)"

definition th_ok :: "('pk, 'sk, 'sig, 'id) bls_env \<Rightarrow> ('pk, 'sk) bls_threads \<Rightarrow> bool" where
  "th_ok env s \<longleftrightarrow> node_ok (th_node s) \<and> (\<forall>g\<in>set (th_grs s). gr_ok env (th_node s) g)
     \<and> (\<forall>req\<in>set (th_out s). explained env (th_node s) req)"

lemma gr_ok_keeps: "keeps n n' \<Longrightarrow> gr_ok env n g \<Longrightarrow> gr_ok env n' g"
  by (cases g) (auto simp: keeps_def)

lemma task_gr_ok: "task_ok n t \<Longrightarrow> gr_ok env n (gr_of_task t)"
  by (cases t) (auto simp: sigs_ok_def)

text \<open>Every operation returns and keeps everything well formed, and what is sent is explained.\<close>

definition gr_good :: "('pk, 'sk, 'sig, 'id) bls_env \<Rightarrow> ('pk, 'sk) Node
    \<Rightarrow> (('pk, 'sk) Node \<times> ('pk, 'sk) gr option \<times> ('pk, 'sk) gr list \<times> PublishRequest list) go \<Rightarrow> bool" where
  "gr_good env n r \<longleftrightarrow> (\<exists>n' g gs reqs. r = Ret (n', g, gs, reqs) \<and> node_ok n' \<and> keeps n n'
     \<and> (\<forall>g'. g = Some g' \<longrightarrow> gr_ok env n' g') \<and> (\<forall>g'\<in>set gs. gr_ok env n' g') \<and> (\<forall>req\<in>set reqs. explained env n' req))"

lemma gr_goodI:
  "\<lbrakk>node_ok n'; keeps n n'; \<And>g'. g = Some g' \<Longrightarrow> gr_ok env n' g'; \<And>g'. g' \<in> set gs \<Longrightarrow> gr_ok env n' g';
    \<And>req. req \<in> set reqs \<Longrightarrow> explained env n' req\<rbrakk> \<Longrightarrow> gr_good env n (Ret (n', g, gs, reqs))"
  unfolding gr_good_def by blast

lemma sends_explained:
  "has_share n share r \<Longrightarrow> own_signed env share r \<or> aggregated env share r \<Longrightarrow> req \<in> set (fst (Broadcast env r))
     \<Longrightarrow> explained env n req"
  unfolding explained_def using Broadcast_req [of req env r] by metis

lemma buffer_Add:
  assumes "node_ok n" "a < length (nd_heap n)"
  obtains b ok where "Add (nd_heap n ! a) k r = Ret (b, ok)" "node_ok (put_buffer n a b)"
proof -
  have "buf_ok (nd_heap n ! a)" using assms by (simp add: node_ok_def)
  from Add_ok [OF this] obtain b ok where "Add (nd_heap n ! a) k r = Ret (b, ok)" "buf_ok b" by blast
  with node_ok_put [OF assms(1)] that show thesis by blast
qed

lemma node_ok_make:
  assumes "node_ok n"
  shows "node_ok (n\<lparr>nd_heap := nd_heap n @ [NewReportBuffer reportBufferSize],
      nd_internalReports := store_Add (nd_internalReports n) net (length (nd_heap n))\<rparr>)"
  using assms buf_ok_new by (auto simp: node_ok_def less_Suc_eq)

lemma prepare_aggregated:
  assumes "prepareReport env sigs sr = Inr rep" "sigs_ok env (bsr_SeqNumber sr) sigs" "has_share n share sr"
    "quorumCount n (bsr_Network sr) < int (length sigs)"
  shows "has_share n share rep \<and> aggregated env share rep"
  using assms by (auto simp: prepareReport_def aggregated_def quorumCount_def split: sum.splits)

lemma collect_one:
  assumes "bb_inv b" "sigs_ok env seq sigs"
  obtains sigs' where "collect_loop env seq b [s] sigs = Ret sigs'" "sigs_ok env seq sigs'"
  using collect_total [OF assms(1), of env seq "[s]" sigs] collect_loop_sigs [OF _ assms(2)] that by blast

lemma gr_step_ok:
  assumes "node_ok n" "visits_keys env" "gr_ok env n g"
  shows "gr_good env n (gr_step env n g)"
proof (cases g)
  case (TrigStart report)
  obtain l where "getLeader n (bsr_Network report) (bsr_SeqNumber report) = Ret l" using getLeader_total [OF assms(1)] by blast
  with TrigStart assms(1) show ?thesis by (auto split: option.splits intro!: gr_goodI)
next
  case (TrigAdd share report)
  have "buf_ok (nd_reports n)" using assms(1) by (simp add: node_ok_def)
  from Add_ok [OF this] obtain b ok where "Add (nd_reports n) (bsr_Network report) report = Ret (b, ok)" "buf_ok b" by blast
  with TrigAdd assms node_ok_reports show ?thesis by (auto intro!: gr_goodI)
next
  case (TrigSend share report)
  with assms show ?thesis by (auto intro!: gr_goodI intro: sends_explained)
next
  case (IntGet share sr)
  with assms show ?thesis by (auto simp: node_ok_def split: option.splits intro!: gr_goodI)
next
  case (IntMake share sr)
  with assms node_ok_make show ?thesis by (auto simp: Let_def keeps_def intro!: gr_goodI)
next
  case (IntAdd share sr a)
  with assms have a: "a < length (nd_heap n)" by simp
  obtain b ok where "Add (nd_heap n ! a) (show_u64 (bsr_SignerID sr)) sr = Ret (b, ok)" "node_ok (put_buffer n a b)"
    by (rule buffer_Add [OF assms(1) a])
  with IntAdd assms(3) show ?thesis by (auto intro!: gr_goodI)
next
  case (IntLook share sr a)
  with assms have "buf_ok (nd_heap n ! a)" by (simp add: node_ok_def)
  from Lookup_total [OF this assms(2)] obtain ids where
    "Lookup (key_order env (nd_heap n ! a)) (nd_heap n ! a) (bsr_SeqNumber sr) = Ret ids" by blast
  with IntLook assms show ?thesis by (auto intro!: gr_goodI)
next
  case (IntLead share sr a signers)
  obtain l where "getLeader n (bsr_Network sr) (bsr_SeqNumber sr) = Ret l" using getLeader_total [OF assms(1)] by blast
  with IntLead assms show ?thesis by (auto intro!: gr_goodI)
next
  case (IntOwn share sr a signers)
  with assms have a: "a < length (nd_heap n)" by simp
  obtain b ok where "Add (nd_heap n ! a) (show_u64 (share_SignerID share)) sr = Ret (b, ok)" "node_ok (put_buffer n a b)"
    by (rule buffer_Add [OF assms(1) a])
  with IntOwn assms(3) show ?thesis by (auto intro!: gr_goodI)
next
  case (IntSend share sr a signers)
  obtain reqs e where b: "Broadcast env sr = (reqs, e)" by fastforce
  have "explained env n req" if "req \<in> set reqs" for req
    using IntSend assms(3) b that by (intro sends_explained [of n sr share]) simp_all
  with IntSend b assms show ?thesis by (cases e) (auto intro!: gr_goodI)
next
  case (IntQuorum share sr a signers)
  with assms show ?thesis by (auto simp: sigs_ok_def intro!: gr_goodI)
next
  case (FinCollect a sr signers signatures)
  show ?thesis
  proof (cases signers)
    case Nil
    with FinCollect assms prepare_aggregated [of env signatures sr _ n] show ?thesis
      by (auto split: sum.splits intro!: gr_goodI)
  next
    case (Cons k ks)
    have "bb_inv (nd_heap n ! a)" "sigs_ok env (bsr_SeqNumber sr) signatures"
      using FinCollect assms by (simp_all add: node_ok_def buf_ok_def)
    then obtain sigs where "collect_loop env (bsr_SeqNumber sr) (nd_heap n ! a) [k] signatures = Ret sigs"
      "sigs_ok env (bsr_SeqNumber sr) sigs" by (rule collect_one)
    with FinCollect Cons assms show ?thesis by (auto simp del: collect_loop.simps intro!: gr_goodI)
  qed
next
  case (FinSend rep)
  with assms show ?thesis by (auto intro!: gr_goodI intro: sends_explained)
qed

lemma th_run_ok:
  assumes "th_ok env s" "visits_keys env" "i < length (th_grs s)"
  shows "\<exists>s'. th_run env s i = Ret s' \<and> th_ok env s' \<and> keeps (th_node s) (th_node s')"
proof -
  have "gr_ok env (th_node s) (th_grs s ! i)" "node_ok (th_node s)" using assms(1,3) by (simp_all add: th_ok_def)
  with gr_step_ok assms(2) obtain n g gs reqs where st: "gr_step env (th_node s) (th_grs s ! i) = Ret (n, g, gs, reqs)"
    "node_ok n" "keeps (th_node s) n" "\<forall>g'. g = Some g' \<longrightarrow> gr_ok env n g'" "\<forall>g'\<in>set gs. gr_ok env n g'"
    "\<forall>req\<in>set reqs. explained env n req" unfolding gr_good_def by metis
  have "set (take i (th_grs s)) \<union> set (drop (Suc i) (th_grs s)) \<subseteq> set (th_grs s)"
    using set_take_subset set_drop_subset by (metis Un_least)
  then have "\<forall>g\<in>set (take i (th_grs s)) \<union> set (drop (Suc i) (th_grs s)). gr_ok env n g"
    using assms(1) by (auto simp: th_ok_def intro!: gr_ok_keeps [OF st(3)])
  with st assms(1) show ?thesis
    by (auto simp: th_run_def th_ok_def intro: explained_keeps [OF st(3)] split: option.splits)
qed

lemma th_deliver_ok:
  assumes "th_ok env s"
  shows "\<exists>s'. th_deliver env s msg = Ret s' \<and> th_ok env s' \<and> keeps (th_node s) (th_node s')"
proof -
  have "node_ok (th_node s)" using assms by (simp add: th_ok_def)
  from Consume_ok [OF this] obtain n ts e where c: "Consume env (th_node s) msg = Ret (n, ts, e)" "node_ok n"
    "keeps (th_node s) n" "\<forall>t\<in>set ts. task_ok n t" by blast
  then show ?thesis using assms
    by (auto simp: th_deliver_def th_ok_def intro: gr_ok_keeps [OF c(3)] explained_keeps [OF c(3)] task_gr_ok)
qed

lemma th_step_ok:
  assumes "th_step env s r" "th_ok env s" "visits_keys env"
  shows "(\<exists>s'. r = Ret s' \<and> th_ok env s' \<and> keeps (th_node s) (th_node s')) \<or> (r = Panic map_race \<and> races s)"
  using assms(1)
proof (cases rule: th_step.cases)
  case (trigger report)
  with assms(2) show ?thesis by (simp add: th_trigger_def TriggerReport_def th_ok_def)
qed (use th_run_ok [OF assms(2,3)] th_deliver_ok [OF assms(2)] in auto)

lemma th_runs_ok:
  assumes "th_runs env (th_new n) s" "node_ok n" "visits_keys env"
  shows "th_ok env s \<and> keeps n (th_node s)"
  using assms(1)
proof (induction rule: rtranclp_induct)
  case base
  with assms(2) show ?case by (simp add: th_new_def th_ok_def)
next
  case (step s s')
  with th_step_ok [OF step.hyps(2) _ assms(3)] show ?case by (auto intro: keeps_trans)
qed

section \<open>The leader first\<close>

text \<open>A signer of round \<open>q\<close> in network \<open>net\<close>: its report was consumed, or it is this node.\<close>

definition signer_seen :: "('pk, 'sk) Node \<Rightarrow> SignedReport list \<Rightarrow> string \<Rightarrow> u64 \<Rightarrow> string \<Rightarrow> bool" where
  "signer_seen n log net q k \<longleftrightarrow>
     (\<exists>r\<in>set log. bsr_Network r = net \<and> bsr_SeqNumber r = q \<and> show_u64 (bsr_SignerID r) = k)
     \<or> (\<exists>share. store_Get (nd_Shares n) net = Some share \<and> k = show_u64 (share_SignerID share))"

text \<open>This node leads the round of a report, or the report of the leader was consumed.\<close>

definition led :: "('pk, 'sk) Node \<Rightarrow> SignedReport list \<Rightarrow> SignedReport \<Rightarrow> bool" where
  "led n log r \<longleftrightarrow> (\<exists>share l. has_share n share r \<and> getLeader n (bsr_Network r) (bsr_SeqNumber r) = Ret l
     \<and> (l = share_SignerID share
        \<or> (\<exists>r0\<in>set log. bsr_Network r0 = bsr_Network r \<and> bsr_SeqNumber r0 = bsr_SeqNumber r \<and> bsr_SignerID r0 = l)))"

text \<open>\<open>nets\<close> gives the network of each buffer, also of one that the store does not hold any more.\<close>

definition bufs_led :: "('pk, 'sk) Node \<Rightarrow> SignedReport list \<Rightarrow> string list \<Rightarrow> bool" where
  "bufs_led n log nets \<longleftrightarrow> length nets = length (nd_heap n)
     \<and> (\<forall>net a. store_Get (nd_internalReports n) net = Some a \<longrightarrow> nets ! a = net)
     \<and> (\<forall>a<length nets. \<forall>k q r. 0 < uint q \<longrightarrow> Get (nd_heap n ! a) k q = Ret (Some r) \<longrightarrow> signer_seen n log (nets ! a) q k)"

fun gr_led :: "('pk, 'sk) Node \<Rightarrow> SignedReport list \<Rightarrow> string list \<Rightarrow> ('pk, 'sk) gr \<Rightarrow> bool" where
  "gr_led n log nets (TrigAdd share r) = led n log r"
| "gr_led n log nets (TrigSend share r) = led n log r"
| "gr_led n log nets (IntGet share sr) = (sr \<in> set log)"
| "gr_led n log nets (IntMake share sr) = (sr \<in> set log)"
| "gr_led n log nets (IntAdd share sr a) = (sr \<in> set log \<and> a < length nets \<and> nets ! a = bsr_Network sr)"
| "gr_led n log nets (IntLook share sr a) = (a < length nets \<and> nets ! a = bsr_Network sr \<and> 0 < uint (bsr_SeqNumber sr))"
| "gr_led n log nets (IntLead share sr a signers) = (a < length nets \<and> nets ! a = bsr_Network sr
     \<and> (\<forall>k\<in>set signers. signer_seen n log (bsr_Network sr) (bsr_SeqNumber sr) k))"
| "gr_led n log nets (IntOwn share sr a signers) = (a < length nets \<and> nets ! a = bsr_Network sr \<and> led n log sr)"
| "gr_led n log nets (IntSend share sr a signers) = led n log sr"
| "gr_led n log nets g = True"

definition led_explained :: "('pk, 'sk, 'sig, 'id) bls_env \<Rightarrow> ('pk, 'sk) Node \<Rightarrow> SignedReport list \<Rightarrow> PublishRequest \<Rightarrow> bool" where
  "led_explained env n log req \<longleftrightarrow>
     (\<exists>r share. MarshalSignedReport env r = Inr (pr_Data req) \<and> pr_Topic req = bsr_Network r \<and> has_share n share r
        \<and> ((own_signed env share r \<and> led n log r) \<or> aggregated env share r))"

text \<open>Only the shares of the node matter here, the log grows, and buffers are added at the end.\<close>

lemma led_mono: "keeps n n' \<Longrightarrow> led n log r \<Longrightarrow> led n' (log @ ms) r"
  by (auto simp: led_def keeps_def getLeader_def)

lemma signer_seen_mono: "keeps n n' \<Longrightarrow> signer_seen n log net q k \<Longrightarrow> signer_seen n' (log @ ms) net q k"
  by (auto simp: signer_seen_def keeps_def)

lemma gr_led_mono: "keeps n n' \<Longrightarrow> gr_led n log nets g \<Longrightarrow> gr_led n' (log @ ms) (nets @ new) g"
  by (cases g) (auto simp: nth_append intro: led_mono signer_seen_mono)

lemma led_explained_mono: "keeps n n' \<Longrightarrow> led_explained env n log req \<Longrightarrow> led_explained env n' (log @ ms) req"
  unfolding led_explained_def by (metis keeps_def led_mono)

lemma bufs_led_frame:
  assumes "bufs_led n log nets" "keeps n n'" "nd_heap n' = nd_heap n" "nd_internalReports n' = nd_internalReports n"
  shows "bufs_led n' (log @ ms) nets"
  using assms signer_seen_mono [OF assms(2)] unfolding bufs_led_def by metis

lemma bufs_led_Add:
  assumes "bufs_led n log nets" "node_ok n" "a < length nets" "Add (nd_heap n ! a) k r = Ret (b, ok)"
    and "signer_seen n log (nets ! a) (bsr_SeqNumber r) k"
  shows "bufs_led (put_buffer n a b) log nets"
proof -
  have a: "a < length (nd_heap n)" "bb_inv (nd_heap n ! a)"
    using assms(1-3) by (auto simp: bufs_led_def node_ok_def buf_ok_def)
  have "signer_seen n log (nets ! c) q j" if "c < length nets" "0 < uint q" "Get (nd_heap (put_buffer n a b) ! c) j q = Ret (Some x)"
    for c j q x
  proof (cases "c = a")
    case True
    with that(3) a(1) have x: "Get b j q = Ret (Some x)" by simp
    then have "bsr_SeqNumber x = q" by (rule Get_seq)
    with bls_store.found_was_added [OF a(2) _ assms(4) that(2) x] assms(1,5) that True show ?thesis
      unfolding bufs_led_def by fastforce
  next
    case False
    with that assms(1) show ?thesis by (auto simp: bufs_led_def put_buffer_def)
  qed
  with assms(1) show ?thesis unfolding bufs_led_def signer_seen_def by (simp add: put_buffer_def)
qed

lemma Get_new [simp]: "Get (NewReportBuffer m) k q = Ret None"
  by (simp add: Get_def NewReportBuffer_def)

lemma bufs_led_make:
  assumes "bufs_led n log nets" "node_ok n"
  shows "bufs_led (n\<lparr>nd_heap := nd_heap n @ [NewReportBuffer reportBufferSize],
      nd_internalReports := store_Add (nd_internalReports n) net (length (nd_heap n))\<rparr>) log (nets @ [net])"
proof -
  have "a < length (nd_heap n)" if "store_Get (nd_internalReports n) m = Some a" for m a
    using assms(2) that by (simp add: node_ok_def)
  with assms(1) show ?thesis
    unfolding bufs_led_def signer_seen_def by (auto simp: nth_append less_Suc_eq)
qed

text \<open>Each operation of a goroutine keeps this, and what it sends was led.\<close>

definition led_good :: "('pk, 'sk, 'sig, 'id) bls_env \<Rightarrow> SignedReport list \<Rightarrow> string list
    \<Rightarrow> ('pk, 'sk) Node \<times> ('pk, 'sk) gr option \<times> ('pk, 'sk) gr list \<times> PublishRequest list \<Rightarrow> bool" where
  "led_good env log nets r \<longleftrightarrow> (case r of (n, g, gs, reqs) \<Rightarrow>
     (\<exists>new. bufs_led n log (nets @ new) \<and> (\<forall>g'. g = Some g' \<longrightarrow> gr_led n log (nets @ new) g')
        \<and> (\<forall>g'\<in>set gs. gr_led n log (nets @ new) g')) \<and> (\<forall>req\<in>set reqs. led_explained env n log req))"

lemma led_goodI:
  "\<lbrakk>bufs_led n log nets; \<And>g'. g = Some g' \<Longrightarrow> gr_led n log nets g'; \<And>g'. g' \<in> set gs \<Longrightarrow> gr_led n log nets g';
    \<And>req. req \<in> set reqs \<Longrightarrow> led_explained env n log req\<rbrakk> \<Longrightarrow> led_good env log nets (n, g, gs, reqs)"
  unfolding led_good_def by (auto intro!: exI [of _ "[]"])

lemma sends_led:
  "has_share n share r \<Longrightarrow> (own_signed env share r \<and> led n log r) \<or> aggregated env share r \<Longrightarrow> req \<in> set (fst (Broadcast env r))
     \<Longrightarrow> led_explained env n log req"
  unfolding led_explained_def using Broadcast_req [of req env r] by metis

lemma put_buffer_led: "led (put_buffer n a b) log r = led n log r" "signer_seen (put_buffer n a b) log net q k = signer_seen n log net q k"
  by (simp_all add: led_def signer_seen_def getLeader_def)

lemma Sign_led: "led n log (Sign env share r) = led n log r"
  by (simp add: led_def Sign_def)

lemma processable_led:
  assumes "has_share n share sr" "getLeader n (bsr_Network sr) (bsr_SeqNumber sr) = Ret l"
    and "isProcessable (show_u64 (share_SignerID share)) (show_u64 l) signers"
    and "\<forall>k\<in>set signers. signer_seen n log (bsr_Network sr) (bsr_SeqNumber sr) k"
  shows "led n log sr"
proof -
  have k: "show_u64 l \<in> set signers" "show_u64 (share_SignerID share) \<notin> set signers"
    using assms(3) by (simp_all add: isProcessable_iff)
  then have "show_u64 l \<noteq> show_u64 (share_SignerID share)" by auto
  with assms(1,4) k(1) obtain r where "r \<in> set log" "bsr_Network r = bsr_Network sr" "bsr_SeqNumber r = bsr_SeqNumber sr"
    "show_u64 (bsr_SignerID r) = show_u64 l" unfolding signer_seen_def by fastforce
  with assms(1,2) show ?thesis by (auto simp: led_def show_u64_inj)
qed

lemma Add_accepts_pos:
  assumes "Add b k r = Ret (b', True)"
  shows "0 < uint (bsr_SeqNumber r)"
proof -
  from assms obtain old :: SignedReport where "bsr_SeqNumber old < bsr_SeqNumber r"
    by (auto simp: Add_def Let_def go_bind_eq_Ret_iff split: if_splits)
  then show ?thesis using uint_ge_0 [of "bsr_SeqNumber old"] unfolding word_less_def by linarith
qed

lemma led_own_key: "has_share n share sr \<Longrightarrow> signer_seen n log (bsr_Network sr) q (show_u64 (share_SignerID share))"
  unfolding signer_seen_def by blast

lemma gr_step_led:
  assumes "node_ok n" "visits_keys env" "gr_ok env n g" "bufs_led n log nets" "gr_led n log nets g" "gr_step env n g = Ret r"
  shows "led_good env log nets r"
proof (cases g)
  case (TrigStart report)
  obtain l where l: "getLeader n (bsr_Network report) (bsr_SeqNumber report) = Ret l" using getLeader_total [OF assms(1)] by blast
  have "led n log report" if "has_share n share report" "l = share_SignerID share" for share
    using that l by (auto simp: led_def)
  with TrigStart assms(4,6) l show ?thesis by (auto simp: Sign_led split: option.splits if_splits intro!: led_goodI)
next
  case (TrigAdd share report)
  then obtain b ok where "r = (n\<lparr>nd_reports := b\<rparr>, Some (TrigSend share report), [], [])"
    using assms(6) by (auto simp: go_bind_eq_Ret_iff)
  moreover have "bufs_led (n\<lparr>nd_reports := b\<rparr>) log nets" for b using bufs_led_frame [OF assms(4), of "n\<lparr>nd_reports := b\<rparr>" "[]"] by simp
  ultimately show ?thesis using TrigAdd assms(5) by (auto simp: led_def getLeader_def intro!: led_goodI)
next
  case (TrigSend share report)
  with assms(3-6) show ?thesis by (auto intro!: led_goodI intro: sends_led)
next
  case (IntGet share sr)
  have "a < length nets \<and> nets ! a = net" if "store_Get (nd_internalReports n) net = Some a" for net a
    using assms(1,4) that by (simp add: node_ok_def bufs_led_def)
  with IntGet assms(4-6) show ?thesis by (auto split: option.splits intro!: led_goodI)
next
  case (IntMake share sr)
  then have r: "r = (n\<lparr>nd_heap := nd_heap n @ [NewReportBuffer reportBufferSize],
      nd_internalReports := store_Add (nd_internalReports n) (bsr_Network sr) (length (nd_heap n))\<rparr>,
      Some (IntAdd share sr (length (nd_heap n))), [], [])" using assms(6) by (simp add: Let_def)
  have len: "length (nd_heap n) = length nets" using assms(4) by (simp add: bufs_led_def)
  have "(nets @ [bsr_Network sr]) ! length (nd_heap n) = bsr_Network sr" unfolding len by simp
  with bufs_led_make [OF assms(4,1), of "bsr_Network sr"] IntMake assms(5) len show ?thesis
    unfolding r led_good_def by (auto intro!: exI [of _ "[bsr_Network sr]"])
next
  case (IntAdd share sr a)
  then obtain b ok where b: "Add (nd_heap n ! a) (show_u64 (bsr_SignerID sr)) sr = Ret (b, ok)"
    "r = (put_buffer n a b, if ok then Some (IntLook share sr a) else None, [], [])"
    using assms(6) by (auto simp: go_bind_eq_Ret_iff)
  from IntAdd assms(5) have a: "a < length nets" "nets ! a = bsr_Network sr" "sr \<in> set log" by simp_all
  then have "signer_seen n log (nets ! a) (bsr_SeqNumber sr) (show_u64 (bsr_SignerID sr))" by (auto simp: signer_seen_def)
  from bufs_led_Add [OF assms(4,1) a(1) b(1) this] a Add_accepts_pos [of _ _ sr b] b show ?thesis
    by (auto intro!: led_goodI)
next
  case (IntLook share sr a)
  then obtain ids where ids: "Lookup (key_order env (nd_heap n ! a)) (nd_heap n ! a) (bsr_SeqNumber sr) = Ret ids"
    "r = (n, Some (IntLead share sr a ids), [], [])" using assms(6) by (auto simp: go_bind_eq_Ret_iff)
  from IntLook assms(5) have a: "a < length nets" "nets ! a = bsr_Network sr" "0 < uint (bsr_SeqNumber sr)" by simp_all
  have "buf_ok (nd_heap n ! a)" using assms(1,4) a(1) by (simp add: node_ok_def bufs_led_def)
  from Lookup_total [OF this assms(2), of "bsr_SeqNumber sr"] ids(1)
  have "\<forall>k\<in>set ids. \<exists>x. Get (nd_heap n ! a) k (bsr_SeqNumber sr) = Ret (Some x)"
    by (cases "bb_reports (nd_heap n ! a)") (auto simp: Lookup_def)
  with assms(4) a have "\<forall>k\<in>set ids. signer_seen n log (bsr_Network sr) (bsr_SeqNumber sr) k"
    unfolding bufs_led_def by metis
  with a ids(2) assms(4) show ?thesis by (auto intro!: led_goodI)
next
  case (IntLead share sr a signers)
  obtain l where l: "getLeader n (bsr_Network sr) (bsr_SeqNumber sr) = Ret l" using getLeader_total [OF assms(1)] by blast
  have "led n log sr" if "isProcessable (show_u64 (share_SignerID share)) (show_u64 l) signers"
    using IntLead assms(3,5) by (intro processable_led [OF _ l that]) simp_all
  with IntLead assms(4-6) l show ?thesis by (auto simp: Sign_led Sign_own split: if_splits intro!: led_goodI)
next
  case (IntOwn share sr a signers)
  then obtain b ok where b: "Add (nd_heap n ! a) (show_u64 (share_SignerID share)) sr = Ret (b, ok)"
    "r = (put_buffer n a b, Some (IntSend share sr a signers), [], [])"
    using assms(6) by (auto simp: go_bind_eq_Ret_iff)
  from IntOwn assms(3,5) have a: "a < length nets" "nets ! a = bsr_Network sr" "has_share n share sr" "led n log sr" by simp_all
  from bufs_led_Add [OF assms(4,1) a(1) b(1)] led_own_key [OF a(3)] a b(2) show ?thesis
    by (auto simp: put_buffer_led intro!: led_goodI)
next
  case (IntSend share sr a signers)
  obtain reqs e where b: "Broadcast env sr = (reqs, e)" by fastforce
  have "led_explained env n log req" if "req \<in> set reqs" for req
    using IntSend assms(3,5) b that by (intro sends_led [of n sr share]) simp_all
  with IntSend b assms(4,6) show ?thesis by (cases e) (auto intro!: led_goodI)
next
  case (FinCollect a sr signers signatures)
  with assms(4,6) show ?thesis
    by (cases signers) (auto simp: go_bind_eq_Ret_iff simp del: collect_loop.simps split: sum.splits if_splits intro!: led_goodI)
next
  case (FinSend rep)
  with assms(3,4,6) show ?thesis by (auto intro!: led_goodI intro: sends_led)
qed (use assms(4,6) in \<open>auto intro!: led_goodI\<close>)

definition th_led :: "('pk, 'sk, 'sig, 'id) bls_env \<Rightarrow> ('pk, 'sk) bls_threads \<Rightarrow> bool" where
  "th_led env s \<longleftrightarrow> (\<exists>nets. bufs_led (th_node s) (th_consumed s) nets
       \<and> (\<forall>g\<in>set (th_grs s). gr_led (th_node s) (th_consumed s) nets g))
     \<and> (\<forall>req\<in>set (th_out s). led_explained env (th_node s) (th_consumed s) req)"

lemma th_run_led:
  assumes "th_run env s i = Ret s'" "i < length (th_grs s)" "th_ok env s" "visits_keys env" "th_led env s"
  shows "th_led env s'"
proof -
  obtain n g gs reqs where st: "gr_step env (th_node s) (th_grs s ! i) = Ret (n, g, gs, reqs)"
    and s': "th_node s' = n" "th_out s' = th_out s @ reqs" "th_consumed s' = th_consumed s"
      "th_grs s' = take i (th_grs s) @ (case g of None \<Rightarrow> [] | Some g \<Rightarrow> [g]) @ drop (Suc i) (th_grs s) @ gs"
    using assms(1) by (auto simp: th_run_def go_bind_eq_Ret_iff)
  obtain nets where nets: "bufs_led (th_node s) (th_consumed s) nets" "\<forall>g\<in>set (th_grs s). gr_led (th_node s) (th_consumed s) nets g"
    and out: "\<forall>req\<in>set (th_out s). led_explained env (th_node s) (th_consumed s) req" using assms(5) by (auto simp: th_led_def)
  have ok: "node_ok (th_node s)" "gr_ok env (th_node s) (th_grs s ! i)" using assms(2,3) by (simp_all add: th_ok_def)
  have k: "keeps (th_node s) n" using gr_step_ok [OF ok(1) assms(4) ok(2)] st by (auto simp: gr_good_def)
  have "led_good env (th_consumed s) nets (n, g, gs, reqs)"
    using nets assms(2) by (intro gr_step_led [OF ok(1) assms(4) ok(2) nets(1) _ st]) simp
  then obtain new where new: "bufs_led n (th_consumed s) (nets @ new)" "\<forall>g'. g = Some g' \<longrightarrow> gr_led n (th_consumed s) (nets @ new) g'"
    "\<forall>g'\<in>set gs. gr_led n (th_consumed s) (nets @ new) g'" "\<forall>req\<in>set reqs. led_explained env n (th_consumed s) req"
    by (auto simp: led_good_def)
  have old: "gr_led n (th_consumed s) (nets @ new) g'" if "g' \<in> set (take i (th_grs s)) \<union> set (drop (Suc i) (th_grs s))" for g'
    using that nets(2) gr_led_mono [OF k, of "th_consumed s" nets g' "[]" new] set_take_subset [of i "th_grs s"]
      set_drop_subset [of "Suc i" "th_grs s"] by auto
  have "\<forall>req\<in>set (th_out s). led_explained env n (th_consumed s) req"
    using out led_explained_mono [OF k, of env "th_consumed s" _ "[]"] by simp
  with new old show ?thesis unfolding th_led_def s'
    by (auto intro!: exI [of _ "nets @ new"] split: option.splits)
qed

lemma Consume_internal:
  assumes "Consume env n msg = Ret (n', ts, e)"
  shows "nd_heap n' = nd_heap n \<and> nd_internalReports n' = nd_internalReports n
    \<and> (ts = [] \<or> (\<exists>share sr. ts = [InternalTask share sr]))"
  using assms
  by (auto simp: Consume_def consumeInternalNet_def go_bind_eq_Ret_iff split: sum.splits if_splits option.splits)

lemma th_step_led:
  assumes "th_step env s (Ret s')" "th_ok env s" "visits_keys env" "th_led env s"
  shows "th_led env s'"
  using assms(1)
proof (cases rule: th_step.cases)
  case (deliver msg)
  from deliver [symmetric] obtain n ts e where c: "Consume env (th_node s) msg = Ret (n, ts, e)"
    and s': "s' = s\<lparr>th_node := n, th_grs := th_grs s @ map gr_of_task ts,
      th_consumed := th_consumed s @ concat (map (\<lambda>t. case t of InternalTask share sr \<Rightarrow> [sr] | _ \<Rightarrow> []) ts)\<rparr>"
    by (auto simp: th_deliver_def go_bind_eq_Ret_iff)
  let ?ms = "concat (map (\<lambda>t. case t of InternalTask share sr \<Rightarrow> [sr] | _ \<Rightarrow> []) ts)"
  have "node_ok (th_node s)" using assms(2) by (simp add: th_ok_def)
  from Consume_ok [OF this, of env msg] c have k: "keeps (th_node s) n" by auto
  note f = Consume_internal [OF c]
  from assms(4) obtain nets where nets: "bufs_led (th_node s) (th_consumed s) nets"
    "\<forall>g\<in>set (th_grs s). gr_led (th_node s) (th_consumed s) nets g"
    "\<forall>req\<in>set (th_out s). led_explained env (th_node s) (th_consumed s) req" by (auto simp: th_led_def)
  have "bufs_led n (th_consumed s @ ?ms) nets" using f by (intro bufs_led_frame [OF nets(1) k]) simp_all
  moreover have "\<forall>g\<in>set (map gr_of_task ts). gr_led n (th_consumed s @ ?ms) nets g" using f by auto
  moreover have "\<forall>g\<in>set (th_grs s). gr_led n (th_consumed s @ ?ms) nets g"
    using nets(2) gr_led_mono [OF k, of "th_consumed s" nets _ ?ms "[]"] by simp
  moreover have "\<forall>req\<in>set (th_out s). led_explained env n (th_consumed s @ ?ms) req"
    using nets(3) led_explained_mono [OF k] by blast
  ultimately show ?thesis by (auto simp: th_led_def s' intro!: exI [of _ nets])
next
  case (trigger report)
  with assms(4) show ?thesis by (auto simp: th_led_def th_trigger_def TriggerReport_def)
next
  case (run i)
  then show ?thesis using th_run_led [OF _ _ assms(2-4)] by metis
qed

text \<open>A node as the network builds it: new, with its shares.\<close>

definition fresh_node :: "'pk store \<Rightarrow> ('pk, 'sk) Share store \<Rightarrow> ('pk, 'sk) Node" where
  "fresh_node pubstore shares = (NewNode pubstore)\<lparr>nd_Shares := shares\<rparr>"

lemma fresh_node_ok:
  assumes "\<And>net share. store_Get shares net = Some share \<Longrightarrow> share_ok share"
  shows "node_ok (fresh_node pubstore shares)"
  using assms by (simp add: fresh_node_def NewNode_def node_ok_def buf_ok_new)

lemma th_fresh_led: "th_led env (th_new (fresh_node pubstore shares))"
  by (auto simp: th_led_def th_new_def fresh_node_def NewNode_def bufs_led_def intro!: exI [of _ "[]"])

lemma th_runs_led:
  assumes "th_runs env (th_new (fresh_node pubstore shares)) s" "visits_keys env"
    and "\<And>net share. store_Get shares net = Some share \<Longrightarrow> share_ok share"
  shows "th_led env s"
  using assms(1)
proof (induction rule: rtranclp_induct)
  case base
  show ?case by (rule th_fresh_led)
next
  case (step s s')
  from th_runs_ok [OF step.hyps(1) fresh_node_ok assms(2)] assms(3) have "th_ok env s" by blast
  with step th_step_led assms(2) show ?case by blast
qed

end
