(* ===== verification/Bls_Races.thy ===== *)
theory Bls_Races
  imports Bls_Threads
begin

text \<open>
  What the fine goroutines of \<open>Bls_Threads\<close> can and cannot do.  A goroutine that is not interrupted does what
  \<open>run_task\<close> of \<open>Bls_Node\<close> says, so every run of that coarse model is a run here.  The properties that hold in
  every interleaving come next, then two interleavings of two goroutines on one network that go wrong.
\<close>

section \<open>Goroutines that are not interrupted\<close>

lemma th_put:
  assumes "gr_step env (th_node s) g = Ret (n, g', gs, reqs)" "th_grs s = pre @ g # post"
  shows "th_step env s (Ret (s\<lparr>th_node := n,
      th_grs := pre @ (case g' of None \<Rightarrow> [] | Some g \<Rightarrow> [g]) @ post @ gs, th_out := th_out s @ reqs\<rparr>))"
proof -
  have "th_step env s (th_run env s (length pre))" using assms(2) by (intro th_step.run) simp
  moreover have "th_grs s ! length pre = g" using assms(2) by simp
  ultimately show ?thesis using assms by (simp add: th_run_def)
qed

definition at_work :: "('pk, 'sk) Node \<Rightarrow> ('pk, 'sk) gr list \<Rightarrow> PublishRequest list \<Rightarrow> SignedReport list \<Rightarrow> ('pk, 'sk) bls_threads" where
  "at_work n gs out log = \<lparr>th_node = n, th_grs = gs, th_out = out, th_consumed = log\<rparr>"

lemma work_end:
  "gr_step env n g = Ret (n', None, gs, reqs) \<Longrightarrow>
     th_runs env (at_work n (pre @ g # post) out log) (at_work n' (pre @ post @ gs) (out @ reqs) log)"
  using th_put [of env "at_work n (pre @ g # post) out log" g n' None gs reqs pre post]
  by (intro r_into_rtranclp) (simp add: at_work_def)

lemma work_on:
  assumes "gr_step env n g = Ret (n1, Some g1, [], r1)"
    and "th_runs env (at_work n1 (pre @ g1 # post) (out @ r1) log) s'"
  shows "th_runs env (at_work n (pre @ g # post) out log) s'"
  using th_put [of env "at_work n (pre @ g # post) out log" g n1 "Some g1" "[]" r1 pre post] assms
  by - (rule converse_rtranclp_into_rtranclp [OF _ assms(2)], simp add: at_work_def)

lemma trigger_alone:
  assumes "run_trigger env n r = Ret (n', ts, reqs)"
  shows "th_runs env (at_work n (pre @ TrigStart r # post) out log)
    (at_work n' (pre @ post @ map gr_of_task ts) (out @ reqs) log)"
proof (cases "store_Get (nd_Shares n) (bsr_Network r)")
  case None
  with assms show ?thesis
    using work_end [of env n "TrigStart r" n "[]" "[]" pre post out log] by (simp add: run_trigger_def)
next
  case (Some share)
  with assms obtain l where l: "getLeader n (bsr_Network r) (bsr_SeqNumber r) = Ret l"
    by (auto simp: run_trigger_def go_bind_eq_Ret_iff)
  show ?thesis
  proof (cases "l = share_SignerID share")
    case False
    with assms Some l show ?thesis
      using work_end [of env n "TrigStart r" n "[]" "[]" pre post out log] by (simp add: run_trigger_def)
  next
    case True
    with assms Some l obtain b ok where b: "Add (nd_reports n) (bsr_Network r) (Sign env share r) = Ret (b, ok)"
      "n' = n\<lparr>nd_reports := b\<rparr>" "ts = []" "reqs = fst (Broadcast env (Sign env share r))"
      by (auto simp: run_trigger_def Let_def go_bind_eq_Ret_iff)
    have "th_runs env (at_work n' (pre @ TrigSend share (Sign env share r) # post) out log)
        (at_work n' (pre @ post @ []) (out @ reqs) log)" by (rule work_end) (simp add: b)
    with b have "th_runs env (at_work n (pre @ TrigAdd share (Sign env share r) # post) out log)
        (at_work n' (pre @ post @ []) (out @ reqs) log)"
      by - (rule work_on [of env n _ n' "TrigSend share (Sign env share r)" "[]"], simp_all)
    with Some l True b(3) show ?thesis
      by - (rule work_on [of env n _ n "TrigAdd share (Sign env share r)" "[]"], simp_all)
  qed
qed

lemma quorum_alone:
  "th_runs env (at_work n (pre @ IntQuorum share sr a signers # post) out log)
     (at_work n (pre @ post @ map gr_of_task (if hasQuorum n sr signers then [FinishTask a sr signers] else [])) out log)"
  using work_end [of env n "IntQuorum share sr a signers" n _ "[]" pre post out log] by (cases "hasQuorum n sr signers") simp_all

lemma sign_alone:
  assumes "sign_step env n share a sr l signers = Ret (n', sr', res, reqs)" "getLeader n (bsr_Network sr) (bsr_SeqNumber sr) = Ret l"
  shows "th_runs env (at_work n (pre @ IntLead share sr a signers # post) out log)
    (at_work n' (pre @ post @ map gr_of_task (case res of None \<Rightarrow> []
        | Some signers \<Rightarrow> if hasQuorum n' sr' signers then [FinishTask a sr' signers] else [])) (out @ reqs) log)"
proof (cases "isProcessable (show_u64 (share_SignerID share)) (show_u64 l) signers")
  case False
  with assms have r: "n' = n" "sr' = sr" "res = Some signers" "reqs = []" by (simp_all add: sign_step_def)
  have g: "gr_step env n (IntLead share sr a signers) = Ret (n, Some (IntQuorum share sr a signers), [], [])"
    using assms(2) False by simp
  show ?thesis using work_on [OF g, of pre post out log] quorum_alone [of env n pre share sr a signers post out log]
    unfolding r by simp
next
  case True
  let ?sr = "Sign env share sr" and ?me = "show_u64 (share_SignerID share)"
  obtain rs e where bc: "Broadcast env ?sr = (rs, e)" by fastforce
  from assms(1) True bc obtain b ok where b: "Add (nd_heap n ! a) ?me ?sr = Ret (b, ok)" "n' = put_buffer n a b" "sr' = ?sr"
    "reqs = rs" "res = (case e of None \<Rightarrow> Some (signers @ [?me]) | Some _ \<Rightarrow> None)"
    by (auto simp: sign_step_def Let_def go_bind_eq_Ret_iff split: option.splits)
  have "th_runs env (at_work n' (pre @ IntSend share ?sr a signers # post) out log)
    (at_work n' (pre @ post @ map gr_of_task (case res of None \<Rightarrow> []
        | Some signers \<Rightarrow> if hasQuorum n' sr' signers then [FinishTask a sr' signers] else [])) (out @ reqs) log)"
  proof (cases e)
    case None
    then have g: "gr_step env n' (IntSend share ?sr a signers) = Ret (n', Some (IntQuorum share ?sr a (signers @ [?me])), [], rs)"
      using bc by simp
    show ?thesis unfolding b(3-5) None option.case by (rule work_on [OF g quorum_alone])
  next
    case (Some x)
    then have g: "gr_step env n' (IntSend share ?sr a signers) = Ret (n', None, [], rs)" using bc by simp
    show ?thesis using work_end [OF g, of pre post out log] Some b(4,5) by simp
  qed
  with b(1,2,4) have "th_runs env (at_work n (pre @ IntOwn share ?sr a signers # post) out log)
    (at_work n' (pre @ post @ map gr_of_task (case res of None \<Rightarrow> []
        | Some signers \<Rightarrow> if hasQuorum n' sr' signers then [FinishTask a sr' signers] else [])) (out @ reqs) log)"
    by - (rule work_on [of env n _ n' "IntSend share ?sr a signers" "[]"], simp_all)
  with True assms(2) show ?thesis
    by - (rule work_on [of env n _ n "IntOwn share ?sr a signers" "[]"], simp_all)
qed

lemma internal_alone:
  assumes "run_internal env n share sr = Ret (n', ts, reqs)" "node_ok n"
  shows "th_runs env (at_work n (pre @ IntGet share sr # post) out log)
    (at_work n' (pre @ post @ map gr_of_task ts) (out @ reqs) log)"
proof -
  obtain n1 a where n1: "internal_buffer n (bsr_Network sr) = (n1, a)" by fastforce
  note ok1 = internal_buffer_ok [OF assms(2) n1]
  from assms(1) n1 obtain b ok where b: "Add (nd_heap n1 ! a) (show_u64 (bsr_SignerID sr)) sr = Ret (b, ok)"
    by (auto simp: run_internal_def go_bind_eq_Ret_iff)
  let ?n2 = "put_buffer n1 a b"
  have heap: "nd_heap ?n2 ! a = b" using ok1(3) by simp
  have added: "th_runs env (at_work n1 (pre @ IntAdd share sr a # post) out log)
      (at_work n' (pre @ post @ map gr_of_task ts) (out @ reqs) log)"
  proof (cases ok)
    case False
    with assms(1) n1 b have "n' = ?n2" "ts = []" "reqs = []" by (auto simp: run_internal_def Let_def)
    with b False show ?thesis using work_end [of env n1 "IntAdd share sr a" ?n2 "[]" "[]" pre post out log] by simp
  next
    case True
    with assms(1) n1 b obtain signers l sr' res where r: "Lookup (key_order env b) b (bsr_SeqNumber sr) = Ret signers"
      "getLeader ?n2 (bsr_Network sr) (bsr_SeqNumber sr) = Ret l" "sign_step env ?n2 share a sr l signers = Ret (n', sr', res, reqs)"
      "ts = (case res of None \<Rightarrow> [] | Some signers \<Rightarrow> if hasQuorum n' sr' signers then [FinishTask a sr' signers] else [])"
      by (auto simp: run_internal_def Let_def go_bind_eq_Ret_iff split: option.splits)
    have "th_runs env (at_work ?n2 (pre @ IntLook share sr a # post) out log)
        (at_work n' (pre @ post @ map gr_of_task ts) (out @ reqs) log)"
      using sign_alone [OF r(3,2), of pre post out log] r(1,4) heap
      by - (rule work_on [of env ?n2 _ ?n2 "IntLead share sr a signers" "[]"], simp_all)
    with b True show ?thesis by - (rule work_on [of env n1 _ ?n2 "IntLook share sr a" "[]"], simp_all)
  qed
  show ?thesis
  proof (cases "store_Get (nd_internalReports n) (bsr_Network sr)")
    case (Some x)
    with n1 have "n1 = n" "a = x" by (simp_all add: internal_buffer_def)
    with added Some show ?thesis by - (rule work_on [of env n _ n "IntAdd share sr a" "[]"], simp_all)
  next
    case None
    with n1 have "gr_step env n (IntMake share sr) = Ret (n1, Some (IntAdd share sr a), [], [])"
      by (auto simp: internal_buffer_def Let_def)
    then have "th_runs env (at_work n (pre @ IntMake share sr # post) out log)
        (at_work n' (pre @ post @ map gr_of_task ts) (out @ reqs) log)" using added by (rule work_on [where ?r1.0 = "[]", simplified])
    with None show ?thesis by - (rule work_on [of env n _ n "IntMake share sr" "[]"], simp_all)
  qed
qed

lemma collect_split:
  "collect_loop env seq b (s # xs) acc = go_bind (collect_loop env seq b [s] acc) (collect_loop env seq b xs)"
  by (cases "ParseUint s"; cases "Get b s seq") (auto split: option.splits sum.splits)

lemma collect_alone:
  assumes "collect_loop env (bsr_SeqNumber sr) (nd_heap n ! a) signers acc = Ret sigs"
    and "th_runs env (at_work n (pre @ FinCollect a sr [] sigs # post) out log) s'"
  shows "th_runs env (at_work n (pre @ FinCollect a sr signers acc # post) out log) s'"
  using assms(1)
proof (induction signers arbitrary: acc)
  case Nil
  with assms(2) show ?case by simp
next
  case (Cons s xs)
  from Cons.prems obtain m where m: "collect_loop env (bsr_SeqNumber sr) (nd_heap n ! a) [s] acc = Ret m"
    "collect_loop env (bsr_SeqNumber sr) (nd_heap n ! a) xs m = Ret sigs"
    by (subst (asm) collect_split) (auto simp: go_bind_eq_Ret_iff)
  with Cons.IH [OF m(2)] show ?case
    by - (rule work_on [of env n _ n "FinCollect a sr xs m" "[]"], simp_all del: collect_loop.simps)
qed

lemma finish_alone:
  assumes "run_finish env n a sr signers = Ret reqs"
  shows "th_runs env (at_work n (pre @ FinCollect a sr signers [] # post) out log) (at_work n (pre @ post) (out @ reqs) log)"
proof -
  from assms obtain sigs where sigs: "collect_loop env (bsr_SeqNumber sr) (nd_heap n ! a) signers [] = Ret sigs"
    by (auto simp: run_finish_def collectSignatures_def go_bind_eq_Ret_iff)
  let ?rep = "prepareReport env sigs sr"
  have "th_runs env (at_work n (pre @ FinCollect a sr [] sigs # post) out log) (at_work n (pre @ post) (out @ reqs) log)"
  proof (cases "quorumCount n (bsr_Network sr) < int (length sigs) \<and> (\<exists>rep. ?rep = Inr rep)")
    case True
    then obtain rep where rep: "?rep = Inr rep" "quorumCount n (bsr_Network sr) < int (length sigs)" by blast
    with assms sigs have "reqs = fst (Broadcast env rep)" by (simp add: run_finish_def collectSignatures_def)
    then have "th_runs env (at_work n (pre @ FinSend rep # post) out log) (at_work n (pre @ post) (out @ reqs) log)"
      using work_end [of env n "FinSend rep" n "[]" reqs pre post out log] by simp
    with rep show ?thesis by - (rule work_on [of env n _ n "FinSend rep" "[]"], simp_all)
  next
    case False
    then have "gr_step env n (FinCollect a sr [] sigs) = Ret (n, None, [], [])" "reqs = []"
      using assms sigs by (auto simp: run_finish_def collectSignatures_def split: sum.splits if_splits)
    then show ?thesis using work_end [of env n _ n "[]" "[]" pre post out log] by simp
  qed
  then show ?thesis by (rule collect_alone [OF sigs])
qed

lemma run_in_grains:
  assumes "(bls_step env)\<^sup>*\<^sup>* (n, [], []) (n', ts, out)" "node_ok n" "visits_keys env"
  shows "\<exists>log. th_runs env (th_new n) (at_work n' (map gr_of_task ts) out log)"
proof -
  have "\<exists>log. th_runs env (th_new n) (at_work (fst st) (map gr_of_task (fst (snd st))) (snd (snd st)) log)"
    if "(bls_step env)\<^sup>*\<^sup>* (n, [], []) st" for st
    using that
  proof (induction rule: rtranclp_induct)
    case base
    show ?case by (auto simp: th_new_def at_work_def intro!: exI [of _ "[]"])
  next
    case (step st st')
    have ok: "node_ok (fst st)" using run_sys_ok [OF step.hyps(1) assms(3)] assms(2) by (auto simp: sys_ok_def)
    from step.IH obtain log where log: "th_runs env (th_new n) (at_work (fst st) (map gr_of_task (fst (snd st))) (snd (snd st)) log)"
      by blast
    from step.hyps(2) show ?case
    proof (cases rule: bls_step.cases)
      case (deliver m msg m' us e ts out)
      then have "th_deliver env (at_work m (map gr_of_task ts) out log) msg
          = Ret (at_work m' (map gr_of_task (ts @ us)) out (log @ concat (map (\<lambda>t. case t of InternalTask share sr \<Rightarrow> [sr] | _ \<Rightarrow> []) us)))"
        by (simp add: th_deliver_def at_work_def)
      with log deliver th_step.deliver [of env "at_work m (map gr_of_task ts) out log" msg] show ?thesis
        by (auto intro: rtranclp.rtrancl_into_rtrancl)
    next
      case (trigger m ts out r)
      have "th_step env (at_work m (map gr_of_task ts) out log) (Ret (at_work m (map gr_of_task (ts @ TriggerReport r)) out log))"
        using th_step.trigger [of env "at_work m (map gr_of_task ts) out log" r] by (simp add: th_trigger_def at_work_def)
      with log trigger show ?thesis by (auto intro: rtranclp.rtrancl_into_rtrancl)
    next
      case (run m t m' us reqs ts1 ts2 out)
      have "th_runs env (at_work m (map gr_of_task (ts1 @ t # ts2)) out log)
          (at_work m' (map gr_of_task (ts1 @ ts2 @ us)) (out @ reqs) log)"
      proof (cases t)
        case (TriggerTask r)
        with run(3) show ?thesis by (simp add: trigger_alone)
      next
        case (InternalTask share sr)
        with run(1,3) ok show ?thesis by (simp add: internal_alone)
      next
        case (FinishTask a sr signers)
        with run(3) have "run_finish env m a sr signers = Ret reqs" "us = []" "m' = m" by (auto simp: go_bind_eq_Ret_iff)
        with FinishTask finish_alone [of env m a sr signers reqs "map gr_of_task ts1" "map gr_of_task ts2" out log] show ?thesis by simp
      qed
      with log run(1,2) show ?thesis by (auto intro: rtranclp_trans)
    qed
  qed
  from this [OF assms(1)] show ?thesis by simp
qed


section \<open>What holds in every interleaving\<close>



text \<open>The run of a node that leads round 4 and is asked to publish there.\<close>

lemma toy_trigger:
  "\<exists>b. (bls_step toy_env)\<^sup>*\<^sup>* (toy_node, [], []) (toy_node\<lparr>nd_reports := b\<rparr>, [], [\<lparr>pr_Topic = ''n'', pr_Data = [7]\<rparr>])"
proof -
  let ?r = "zeroReport\<lparr>bsr_Network := ''n'', bsr_SeqNumber := 4, bsr_Data := [7]\<rparr>"
  let ?req = "\<lparr>pr_Topic = ''n'', pr_Data = [7]\<rparr>"
  obtain b ok where b: "Add (nd_reports toy_node) ''n'' (Sign toy_env toy_share ?r) = Ret (b, ok)"
    using Add_ok toy_node_ok unfolding node_ok_def by blast
  have "run_task toy_env toy_node (TriggerTask ?r) = Ret (toy_node\<lparr>nd_reports := b\<rparr>, [], [?req])"
    using b by (simp add: run_trigger_def toy_node_def getLeader_def toy_share_def RoundRobinLeader_def
        umod64_def NewNode_def Broadcast_def Sign_def toy_env_def)
  then have s: "bls_step toy_env (toy_node, TriggerReport ?r, []) (toy_node\<lparr>nd_reports := b\<rparr>, [], [?req])"
    using bls_step.run [of toy_env toy_node "TriggerTask ?r" _ "[]" _ "[]" "[]" "[]"] by (simp add: TriggerReport_def)
  have "bls_step toy_env (toy_node, [], []) (toy_node, TriggerReport ?r, [])"
    using bls_step.trigger [of toy_env toy_node "[]" "[]" ?r] by simp
  from rtranclp.rtrancl_into_rtrancl [OF r_into_rtranclp [where r = "bls_step toy_env", OF this] s] show ?thesis by (rule exI)
qed


text \<open>C8: everything a node publishes is accounted for, in every interleaving of its goroutines.  Each request of a
  node that started new, with shares of its own, carries a report of a network it has a share for, on that network's
  topic.  Either it is signed with the share under the share's id, and the node leads the round or the report of
  the round's leader reached it before; or it is reconstructed, with id zero, from more partial signatures of
  distinct signers than the quorum count, all of reports of that round.\<close>

theorem bls_published_is_led:
  assumes "visits_keys env" and "\<forall>net share. store_Get shares net = Some share \<longrightarrow> share_ok share"
    and "th_runs env (th_new (fresh_node pubstore shares)) s" and "req \<in> set (th_out s)"
  shows "\<exists>r share l. MarshalSignedReport env r = Inr (pr_Data req) \<and> pr_Topic req = bsr_Network r
     \<and> store_Get shares (bsr_Network r) = Some share \<and> RoundRobinLeader (bsr_SeqNumber r) (share_Signers share) = Ret l
     \<and> ((own_signed env share r \<and> (l = share_SignerID share \<or> (\<exists>r0\<in>set (th_consumed s).
              bsr_Network r0 = bsr_Network r \<and> bsr_SeqNumber r0 = bsr_SeqNumber r \<and> bsr_SignerID r0 = l)))
        \<or> aggregated env share r)"
proof -
  have ok: "share_ok share" if "store_Get shares net = Some share" for net share using assms(2) that by blast
  have "th_led env s" by (rule th_runs_led [OF assms(3,1)]) (rule ok)
  with assms(4) have "led_explained env (th_node s) (th_consumed s) req" unfolding th_led_def by blast
  moreover have shares: "nd_Shares (th_node s) = shares"
    using th_runs_ok [OF assms(3) fresh_node_ok assms(1)] ok by (simp add: keeps_def fresh_node_def)
  ultimately obtain r share where r: "MarshalSignedReport env r = Inr (pr_Data req)" "pr_Topic req = bsr_Network r"
    "store_Get shares (bsr_Network r) = Some share"
    "(own_signed env share r \<and> led (th_node s) (th_consumed s) r) \<or> aggregated env share r"
    unfolding led_explained_def by metis
  have "share_ok share" using r(3) by (rule ok)
  then obtain l where l: "RoundRobinLeader (bsr_SeqNumber r) (share_Signers share) = Ret l"
    by (auto simp: share_ok_def RoundRobinLeader_total)
  with r shares show ?thesis by (auto simp: led_def getLeader_def)
qed

theorem bls_published_is_led_witness:
  "\<exists>s. th_runs toy_env (th_new toy_node) s \<and> th_out s = [\<lparr>pr_Topic = ''n'', pr_Data = [7]\<rparr>]
     \<and> (\<exists>(r :: SignedReport) l. bsr_Data r = [7] \<and> RoundRobinLeader (bsr_SeqNumber r) (share_Signers toy_share) = Ret l)"
proof -
  obtain b where "(bls_step toy_env)\<^sup>*\<^sup>* (toy_node, [], []) (toy_node\<lparr>nd_reports := b\<rparr>, [], [\<lparr>pr_Topic = ''n'', pr_Data = [7]\<rparr>])"
    using toy_trigger by blast
  then obtain log where s: "th_runs toy_env (th_new toy_node)
      (at_work (toy_node\<lparr>nd_reports := b\<rparr>) (map gr_of_task []) [\<lparr>pr_Topic = ''n'', pr_Data = [7]\<rparr>] log)"
    using run_in_grains [OF _ toy_node_ok toy_env_visits] by blast
  have toy: "toy_node = fresh_node (store_Add NewStore ''n'' []) (store_Add NewStore ''n'' toy_share)"
    by (simp add: toy_node_def fresh_node_def)
  have "\<forall>net share. store_Get (store_Add NewStore ''n'' toy_share) net = Some share \<longrightarrow> share_ok share"
    by (auto simp: share_ok_def toy_share_def split: if_splits)
  from bls_published_is_led [OF toy_env_visits this s [unfolded toy], of "\<lparr>pr_Topic = ''n'', pr_Data = [7]\<rparr>"]
  obtain r share l where r: "MarshalSignedReport toy_env r = Inr [7]" "store_Get (store_Add NewStore ''n'' toy_share) (bsr_Network r) = Some share"
    "RoundRobinLeader (bsr_SeqNumber r) (share_Signers share) = Ret l"
    unfolding at_work_def by fastforce
  have "bsr_Data r = [7]" using r(1) by (simp add: toy_env_def)
  moreover have "share = toy_share" using r(2) by (simp split: if_splits)
  ultimately have "\<exists>(r :: SignedReport) l. bsr_Data r = [7] \<and> RoundRobinLeader (bsr_SeqNumber r) (share_Signers toy_share) = Ret l" using r(3) by blast
  moreover have "th_out (at_work m gs out log) = out" for m :: "(bytes, bytes) Node" and gs out log by (simp add: at_work_def)
  ultimately show ?thesis using s by blast
qed

section \<open>Two goroutines on one network\<close>

text \<open>Two reports of one round, the first of the leader and the second of another signer, reach a node that has no
  buffer for their network yet.\<close>

definition raced :: "('pk, 'sk, 'sig, 'id) bls_env \<Rightarrow> ('pk, 'sk) Node \<Rightarrow> ('pk, 'sk) Share \<Rightarrow> SignedReport \<Rightarrow> SignedReport \<Rightarrow> bool" where
  "raced env n share ra rb \<longleftrightarrow> visits_keys env \<and> node_ok n \<and> has_share n share ra
     \<and> store_Get (nd_internalReports n) (bsr_Network ra) = None
     \<and> bsr_Network rb = bsr_Network ra \<and> bsr_SeqNumber rb = bsr_SeqNumber ra \<and> 0 < bsr_SeqNumber ra
     \<and> getLeader n (bsr_Network ra) (bsr_SeqNumber ra) = Ret (bsr_SignerID ra)
     \<and> bsr_SignerID ra > 0 \<and> bsr_SignerID rb > 0
     \<and> distinct [bsr_SignerID ra, bsr_SignerID rb, share_SignerID share]"

text \<open>Both are handed to goroutines.\<close>

lemma raced_delivered:
  assumes "raced env n share ra rb"
    and "UnmarshalSignedReport env (Message_GetData ma) = Inr ra" "UnmarshalSignedReport env (Message_GetData mb) = Inr rb"
  shows "th_runs env (th_new n) (at_work n [IntGet share ra, IntGet share rb] [] [ra, rb])"
proof -
  have "th_deliver env (th_new n) ma = Ret (at_work n [IntGet share ra] [] [ra])"
    "th_deliver env (at_work n [IntGet share ra] [] [ra]) mb = Ret (at_work n [IntGet share ra, IntGet share rb] [] [ra, rb])"
    using assms by (simp_all add: raced_def th_deliver_def Consume_def consumeInternalNet_def th_new_def at_work_def)
  with th_step.deliver [of env "th_new n" ma] th_step.deliver [of env "at_work n [IntGet share ra] [] [ra]" mb]
  show ?thesis by (metis (no_types, lifting) converse_rtranclp_into_rtranclp rtranclp.rtrancl_refl)
qed

lemma new_ring: "bb_ring (NewReportBuffer reportBufferSize) k = replicate (bb_size (NewReportBuffer reportBufferSize)) zeroReport"
  by (simp add: bb_ring_def read_buf_def NewReportBuffer_def)

text \<open>The first report of a signer is taken, and what the buffer has of the others does not change.\<close>

lemma Add_first:
  assumes "buf_ok b" "bb_ring b k = replicate (bb_size b) zeroReport" "0 < bsr_SeqNumber r"
  obtains b' where "Add b k r = Ret (b', True)" "buf_ok b'" "Get b' k (bsr_SeqNumber r) = Ret (Some r)" "bb_size b' = bb_size b"
    "\<And>j. j \<noteq> k \<Longrightarrow> bb_ring b' j = bb_ring b j" "\<And>j q. j \<noteq> k \<Longrightarrow> 0 < uint q \<Longrightarrow> Get b' j q = Get b j q"
proof -
  have inv: "bb_inv b" using assms(1) by (simp add: buf_ok_def)
  have q: "0 < uint (bsr_SeqNumber r)" using assms(3) by (simp add: word_less_def)
  have "0 < bb_size b" using inv by (simp add: bb_inv_def bb_size_def)
  then have "nat (bseq r mod int (bb_size b)) < bb_size b" by (simp add: nat_less_iff)
  then have put: "snd (ring_put bseq (bb_ring b k) r)" using q assms(2) bls.sq_z by (simp add: ring_put_def Let_def bseq_def)
  then obtain b' where b': "Add b k r = Ret (b', True)" "bb_inv b'" "bb_size b' = bb_size b"
    "bb_ring b' = (bb_ring b)(k := fst (ring_put bseq (bb_ring b k) r))" using Add_ring [OF inv, of k r] by auto
  show thesis
  proof (rule that)
    show "Add b k r = Ret (b', True)" "bb_size b' = bb_size b" by (rule b')+
    show "buf_ok b'" by (rule Add_okD [OF assms(1) b'(1)])
    show "Get b' k (bsr_SeqNumber r) = Ret (Some r)" using bls_store.accepted_is_found(2) [OF inv _ b'(1)] q by (simp add: bseq_def)
    show "bb_ring b' j = bb_ring b j" if "j \<noteq> k" for j using that b'(4) by simp
    then show "Get b' j q = Get b j q" if "j \<noteq> k" "0 < uint q" for j q
      using that b'(2) inv by (simp add: Get_ring)
  qed
qed

text \<open>Both reports are in the one buffer, this node's own is not.\<close>

lemma both_added:
  assumes "raced env n share ra rb"
  obtains b c ids where "Add (NewReportBuffer reportBufferSize) (show_u64 (bsr_SignerID ra)) ra = Ret (b, True)"
    "Add b (show_u64 (bsr_SignerID rb)) rb = Ret (c, True)" "buf_ok c" "Lookup (key_order env c) c (bsr_SeqNumber ra) = Ret ids"
    "show_u64 (bsr_SignerID ra) \<in> set ids" "show_u64 (share_SignerID share) \<notin> set ids"
proof -
  let ?ka = "show_u64 (bsr_SignerID ra)" and ?kb = "show_u64 (bsr_SignerID rb)" and ?me = "show_u64 (share_SignerID share)"
  let ?new = "NewReportBuffer reportBufferSize" and ?q = "bsr_SeqNumber ra"
  have r: "visits_keys env" "0 < ?q" "bsr_SeqNumber rb = ?q" "?ka \<noteq> ?kb" "?ka \<noteq> ?me" "?kb \<noteq> ?me" using assms by (auto simp: raced_def show_u64_inj)
  then have q: "0 < uint ?q" by (simp add: word_less_def)
  obtain b where b: "Add ?new ?ka ra = Ret (b, True)" "buf_ok b" "Get b ?ka ?q = Ret (Some ra)" "bb_size b = bb_size ?new"
    "\<And>j. j \<noteq> ?ka \<Longrightarrow> bb_ring b j = bb_ring ?new j" "\<And>j q. j \<noteq> ?ka \<Longrightarrow> 0 < uint q \<Longrightarrow> Get b j q = Get ?new j q"
    by (rule Add_first [OF buf_ok_new new_ring r(2)]) blast
  have "bb_ring b ?kb = replicate (bb_size b) zeroReport" "0 < bsr_SeqNumber rb" using b(4,5) r new_ring by simp_all
  then obtain c where c: "Add b ?kb rb = Ret (c, True)" "buf_ok c" "\<And>j q. j \<noteq> ?kb \<Longrightarrow> 0 < uint q \<Longrightarrow> Get c j q = Get b j q"
    by (rule Add_first [OF b(2)]) blast
  from c(3) b(3,6) r q have g: "Get c ?ka ?q = Ret (Some ra)" "Get c ?me ?q = Ret None" by simp_all
  from g(1) obtain m where m: "bb_reports c = Some m" by (cases "bb_reports c") (auto simp: Get_def)
  from Lookup_total [OF c(2) r(1)] m obtain ids where ids: "Lookup (key_order env c) c ?q = Ret ids"
    "ids = filter (\<lambda>x. \<exists>r. Get c x ?q = Ret (Some r)) (key_order env c)" by blast
  have "set (key_order env c) = dom m" using r(1) c(2) m by (simp add: visits_keys_def buf_ok_def)
  moreover have "?ka \<in> dom m" using g(1) m by (auto simp: Get_def read_buf_def Let_def split: option.splits if_splits)
  ultimately have "?ka \<in> set ids" "?me \<notin> set ids" using g ids(2) by auto
  with b(1) c(1,2) ids(1) show thesis by (rule that)
qed

lemma send_alone:
  "\<exists>gs. th_runs env (at_work n (pre @ IntSend share sr a signers # post) out log)
     (at_work n (pre @ gs @ post) (out @ fst (Broadcast env sr)) log)"
proof -
  obtain reqs e where b: "Broadcast env sr = (reqs, e)" by fastforce
  show ?thesis
  proof (cases e)
    case None
    let ?g = "IntQuorum share sr a (signers @ [show_u64 (share_SignerID share)])"
    have "gr_step env n (IntSend share sr a signers) = Ret (n, Some ?g, [], reqs)" using b None by simp
    from work_on [OF this rtranclp.rtrancl_refl, of pre post out log] show ?thesis by (intro exI [of _ "[?g]"]) (simp add: b)
  next
    case (Some x)
    then have "gr_step env n (IntSend share sr a signers) = Ret (n, None, [], reqs)" using b by simp
    from work_end [OF this, of pre post out log] show ?thesis by (intro exI [of _ "[]"]) (simp add: b)
  qed
qed

text \<open>Both goroutines look up the signers when both reports are in, and each signs the report it carries.\<close>

lemma raced_signs_both:
  assumes "raced env n share ra rb"
  shows "\<exists>s. th_runs env (at_work n [IntGet share ra, IntGet share rb] [] log) s
    \<and> set (fst (Broadcast env (Sign env share ra))) \<union> set (fst (Broadcast env (Sign env share rb))) \<subseteq> set (th_out s)"
proof -
  let ?a = "length (nd_heap n)" and ?net = "bsr_Network ra" and ?me = "show_u64 (share_SignerID share)"
  let ?sa = "Sign env share ra" and ?sb = "Sign env share rb"
  from assms have r: "node_ok n" "bsr_Network rb = ?net" "bsr_SeqNumber rb = bsr_SeqNumber ra"
    "store_Get (nd_internalReports n) ?net = None" "getLeader n ?net (bsr_SeqNumber ra) = Ret (bsr_SignerID ra)"
    by (auto simp: raced_def)
  obtain b c ids where bc: "Add (NewReportBuffer reportBufferSize) (show_u64 (bsr_SignerID ra)) ra = Ret (b, True)"
    "Add b (show_u64 (bsr_SignerID rb)) rb = Ret (c, True)" "buf_ok c" "Lookup (key_order env c) c (bsr_SeqNumber ra) = Ret ids"
    "show_u64 (bsr_SignerID ra) \<in> set ids" "?me \<notin> set ids" by (rule both_added [OF assms])
  obtain d k1 where d: "Add c ?me ?sa = Ret (d, k1)" "buf_ok d" using Add_ok [OF bc(3)] by blast
  obtain e k2 where e: "Add d ?me ?sb = Ret (e, k2)" using Add_ok [OF d(2)] by blast
  define n1 where "n1 = n\<lparr>nd_heap := nd_heap n @ [NewReportBuffer reportBufferSize],
      nd_internalReports := store_Add (nd_internalReports n) ?net ?a\<rparr>"
  let ?n2 = "put_buffer n1 ?a b" let ?n3 = "put_buffer ?n2 ?a c" let ?n4 = "put_buffer ?n3 ?a d" let ?n5 = "put_buffer ?n4 ?a e"
  have heap: "nd_heap n1 ! ?a = NewReportBuffer reportBufferSize" "nd_heap ?n2 ! ?a = b" "nd_heap ?n3 ! ?a = c" "nd_heap ?n4 ! ?a = d"
    by (simp_all add: n1_def put_buffer_def nth_append)
  have lead: "getLeader ?n3 ?net (bsr_SeqNumber ra) = Ret (bsr_SignerID ra)" "isProcessable ?me (show_u64 (bsr_SignerID ra)) ids"
    using r(5) bc(5,6) by (simp_all add: getLeader_def put_buffer_def n1_def isProcessable_iff)
  have found: "store_Get (nd_internalReports ?n2) ?net = Some ?a" by (simp add: put_buffer_def n1_def)
  let ?w = "\<lambda>m g h out. at_work m [g, h] out log"
  have first: "th_runs env (?w m g h out) s" if "gr_step env m g = Ret (m', Some g', [], [])" "th_runs env (?w m' g' h out) s"
    for m m' g g' h out s using work_on [OF that(1), of "[]" "[h]" out log] that(2) by simp
  have second: "th_runs env (?w m g h out) s" if "gr_step env m h = Ret (m', Some h', [], [])" "th_runs env (?w m' g h' out) s"
    for m m' g h h' out s using work_on [OF that(1), of "[g]" "[]" out log] that(2) by simp
  let ?qa = "fst (Broadcast env ?sa)" and ?qb = "fst (Broadcast env ?sb)"
  obtain gs where "th_runs env (?w ?n5 (IntSend share ?sa ?a ids) (IntSend share ?sb ?a ids) [])
      (at_work ?n5 (IntSend share ?sa ?a ids # gs) ?qb log)"
    using send_alone [of env ?n5 "[IntSend share ?sa ?a ids]" share ?sb ?a ids "[]" "[]" log] by auto
  moreover obtain gs' where "th_runs env (at_work ?n5 (IntSend share ?sa ?a ids # gs) ?qb log) (at_work ?n5 gs' (?qb @ ?qa) log)"
    using send_alone [of env ?n5 "[]" share ?sa ?a ids gs ?qb log] by auto
  ultimately have "th_runs env (?w ?n5 (IntSend share ?sa ?a ids) (IntSend share ?sb ?a ids) []) (at_work ?n5 gs' (?qb @ ?qa) log)"
    by (rule rtranclp_trans)
  then have "th_runs env (?w ?n3 (IntOwn share ?sa ?a ids) (IntOwn share ?sb ?a ids) []) (at_work ?n5 gs' (?qb @ ?qa) log)"
    using d(1) e heap
    by - (rule first [of ?n3 _ ?n4], simp,
        rule second [of ?n4 _ ?n5], simp, simp)
  then have "th_runs env (?w ?n3 (IntLook share ra ?a) (IntLook share rb ?a) []) (at_work ?n5 gs' (?qb @ ?qa) log)"
    using bc(4) heap lead r(2,3)
    by - (rule first [of ?n3 _ ?n3 "IntLead share ra ?a ids"], simp,
        rule second [of ?n3 _ ?n3 "IntLead share rb ?a ids"], simp,
        rule first [of ?n3 _ ?n3 "IntOwn share ?sa ?a ids"], simp,
        rule second [of ?n3 _ ?n3 "IntOwn share ?sb ?a ids"], simp, simp)
  then have "th_runs env (?w n1 (IntAdd share ra ?a) (IntGet share rb) []) (at_work ?n5 gs' (?qb @ ?qa) log)"
    using bc(1,2) heap found r(2,3)
    by - (rule first [of n1 _ ?n2 "IntLook share ra ?a"], simp,
        rule second [of ?n2 _ ?n2 "IntAdd share rb ?a"], simp,
        rule second [of ?n2 _ ?n3 "IntLook share rb ?a"], simp, simp)
  then have "th_runs env (?w n (IntGet share ra) (IntGet share rb) []) (at_work ?n5 gs' (?qb @ ?qa) log)"
    using r(4)
    by - (rule first [of n _ n "IntMake share ra"], simp add: n1_def Let_def,
        rule first [of n _ n1 "IntAdd share ra ?a"], simp add: n1_def Let_def, simp add: n1_def Let_def)
  then show ?thesis by - (rule exI, rule conjI, assumption, simp add: at_work_def)
qed

text \<open>Both goroutines find no buffer, and each makes one: the second takes the place of the first.\<close>

lemma raced_loses_one:
  assumes "raced env n share ra rb"
  shows "\<exists>s. th_runs env (at_work n [IntGet share ra, IntGet share rb] [] log) s
    \<and> th_grs s = [IntLook share ra (length (nd_heap n)), IntLook share rb (Suc (length (nd_heap n)))]
    \<and> store_Get (nd_internalReports (th_node s)) (bsr_Network ra) = Some (Suc (length (nd_heap n)))
    \<and> Get (nd_heap (th_node s) ! Suc (length (nd_heap n))) (show_u64 (bsr_SignerID ra)) (bsr_SeqNumber ra) = Ret None"
proof -
  let ?a = "length (nd_heap n)" and ?net = "bsr_Network ra" and ?new = "NewReportBuffer reportBufferSize"
  from assms have r: "bsr_Network rb = ?net" "bsr_SeqNumber rb = bsr_SeqNumber ra" "store_Get (nd_internalReports n) ?net = None"
    "0 < bsr_SeqNumber ra" "0 < uint (bsr_SeqNumber ra)" "show_u64 (bsr_SignerID ra) \<noteq> show_u64 (bsr_SignerID rb)"
    by (auto simp: raced_def show_u64_inj word_less_def)
  have rb: "0 < bsr_SeqNumber rb" using r(2,4) by simp
  obtain b where b: "Add ?new (show_u64 (bsr_SignerID ra)) ra = Ret (b, True)" by (rule Add_first [OF buf_ok_new new_ring r(4)])
  obtain c where c: "Add ?new (show_u64 (bsr_SignerID rb)) rb = Ret (c, True)"
    "\<And>j q. j \<noteq> show_u64 (bsr_SignerID rb) \<Longrightarrow> 0 < uint q \<Longrightarrow> Get c j q = Get ?new j q"
    by (rule Add_first [OF buf_ok_new new_ring rb]) blast
  define n1 where "n1 = n\<lparr>nd_heap := nd_heap n @ [?new], nd_internalReports := store_Add (nd_internalReports n) ?net ?a\<rparr>"
  define n2 where "n2 = n1\<lparr>nd_heap := nd_heap n1 @ [?new], nd_internalReports := store_Add (nd_internalReports n1) ?net (Suc ?a)\<rparr>"
  let ?n3 = "put_buffer n2 ?a b" let ?n4 = "put_buffer ?n3 (Suc ?a) c"
  have heap: "nd_heap n2 ! ?a = ?new" "nd_heap ?n3 ! Suc ?a = ?new" "nd_heap ?n4 ! Suc ?a = c"
    by (simp_all add: n1_def n2_def put_buffer_def nth_append)
  let ?w = "\<lambda>m g h. at_work m [g, h] [] log"
  have first: "th_runs env (?w m g h) s" if "gr_step env m g = Ret (m', Some g', [], [])" "th_runs env (?w m' g' h) s"
    for m m' g g' h s using work_on [OF that(1), of "[]" "[h]" "[]" log] that(2) by simp
  have second: "th_runs env (?w m g h) s" if "gr_step env m h = Ret (m', Some h', [], [])" "th_runs env (?w m' g h') s"
    for m m' g h h' s using work_on [OF that(1), of "[g]" "[]" "[]" log] that(2) by simp
  have "th_runs env (?w n2 (IntAdd share ra ?a) (IntAdd share rb (Suc ?a))) (?w ?n4 (IntLook share ra ?a) (IntLook share rb (Suc ?a)))"
    using b c(1) heap
    by - (rule first [of n2 _ ?n3 "IntLook share ra ?a"], simp,
        rule second [of ?n3 _ ?n4 "IntLook share rb (Suc ?a)"], simp, simp)
  then have "th_runs env (?w n1 (IntAdd share ra ?a) (IntMake share rb)) (?w ?n4 (IntLook share ra ?a) (IntLook share rb (Suc ?a)))"
    using r(1)
    by - (rule second [of n1 _ n2 "IntAdd share rb (Suc ?a)"], simp add: n1_def n2_def Let_def, simp add: n1_def n2_def Let_def)
  then have "th_runs env (?w n (IntMake share ra) (IntMake share rb)) (?w ?n4 (IntLook share ra ?a) (IntLook share rb (Suc ?a)))"
    by - (rule first [of n _ n1 "IntAdd share ra ?a"], simp add: n1_def Let_def, simp add: n1_def Let_def)
  then have run: "th_runs env (?w n (IntGet share ra) (IntGet share rb)) (?w ?n4 (IntLook share ra ?a) (IntLook share rb (Suc ?a)))"
    using r(1,3)
    by - (rule first [of n _ n "IntMake share ra"], simp,
        rule second [of n _ n "IntMake share rb"], simp, simp)
  have "store_Get (nd_internalReports ?n4) ?net = Some (Suc ?a)" by (simp add: put_buffer_def n2_def)
  with run c(2) [OF r(6,5)] heap(3) show ?thesis by (intro exI [of _ "?w ?n4 (IntLook share ra ?a) (IntLook share rb (Suc ?a))"]) (simp add: at_work_def)
qed

text \<open>C13: two goroutines on one network can go wrong.  When two reports of one round reach a node, one of the leader and
  one of another signer, with any data, there is an interleaving in which the node signs both and publishes both,
  so it signs two reports of one round; and there is one in which both goroutines make a buffer, both reports are
  taken, and the leader's is lost with the buffer that was replaced.\<close>

theorem bls_two_goroutines_race:
  assumes "raced env n share ra rb"
    and "UnmarshalSignedReport env (Message_GetData ma) = Inr ra" "UnmarshalSignedReport env (Message_GetData mb) = Inr rb"
  shows "(\<exists>s. th_runs env (th_new n) s \<and>
        set (fst (Broadcast env (Sign env share ra))) \<union> set (fst (Broadcast env (Sign env share rb))) \<subseteq> set (th_out s))
    \<and> (\<exists>s a. th_runs env (th_new n) s \<and> th_grs s = [IntLook share ra (length (nd_heap n)), IntLook share rb a]
        \<and> store_Get (nd_internalReports (th_node s)) (bsr_Network ra) = Some a
        \<and> Get (nd_heap (th_node s) ! a) (show_u64 (bsr_SignerID ra)) (bsr_SeqNumber ra) = Ret None)"
  using raced_delivered [OF assms] raced_signs_both [OF assms(1), of "[ra, rb]"] raced_loses_one [OF assms(1), of "[ra, rb]"]
  by (meson rtranclp_trans)

text \<open>Signer 1 of \<open>toy_node\<close> is sent the data 1 by signer 2, who leads round 1, and the data 2 by signer 3.\<close>

definition race_env :: "(bytes, bytes, bytes, string) bls_env" where
  "race_env = toy_env\<lparr>UnmarshalSignedReport := (\<lambda>d. case d of
       [signer, x] \<Rightarrow> Inr (zeroReport\<lparr>bsr_Network := ''n'', bsr_SeqNumber := 1, bsr_Data := [x], bsr_SignerID := ucast signer\<rparr>)
     | _ \<Rightarrow> Inl ''unexpected end of JSON input'')\<rparr>"

theorem bls_two_goroutines_race_witness:
  "\<exists>s. th_runs race_env (th_new toy_node) s \<and>
     {\<lparr>pr_Topic = ''n'', pr_Data = [1]\<rparr>, \<lparr>pr_Topic = ''n'', pr_Data = [2]\<rparr>} \<subseteq> set (th_out s)"
proof -
  let ?r = "\<lambda>i x. zeroReport\<lparr>bsr_Network := ''n'', bsr_SeqNumber := 1, bsr_Data := [x], bsr_SignerID := i\<rparr>"
  let ?m = "\<lambda>i x. Some \<lparr>msg_MessageId = [], msg_Topic = ''n'', msg_Data = [i, x]\<rparr>"
  have "visits_keys race_env" using toy_env_visits by (simp add: visits_keys_def race_env_def)
  then have "raced race_env toy_node toy_share (?r 2 1) (?r 3 2)"
    using toy_node_ok by (simp add: raced_def toy_node_def NewNode_def getLeader_def toy_share_def RoundRobinLeader_def umod64_def)
  moreover have "UnmarshalSignedReport race_env (Message_GetData (?m 2 1)) = Inr (?r 2 1)"
    "UnmarshalSignedReport race_env (Message_GetData (?m 3 2)) = Inr (?r 3 2)" by (simp_all add: race_env_def Message_GetData_def)
  ultimately have "\<exists>s. th_runs race_env (th_new toy_node) s \<and> set (fst (Broadcast race_env (Sign race_env toy_share (?r 2 1))))
      \<union> set (fst (Broadcast race_env (Sign race_env toy_share (?r 3 2)))) \<subseteq> set (th_out s)"
    using bls_two_goroutines_race by blast
  moreover have "fst (Broadcast race_env (Sign race_env toy_share (?r i x))) = [\<lparr>pr_Topic = ''n'', pr_Data = [x]\<rparr>]" for i x
    by (simp add: race_env_def toy_env_def Broadcast_def Sign_def)
  ultimately show ?thesis by auto
qed

end
