(* ===== verification/Don_Run.thy ===== *)
theory Don_Run
  imports Don_Node
begin

text \<open>
  The running network of the DON example (\<open>run\<close>, \<open>broadcast\<close> and \<open>stop\<close> in \<open>examples/don/localdon.go\<close>) with its
  goroutines.  \<open>run\<close> starts one goroutine, which starts and subscribes every node, each in goroutines of the
  same group, and then broadcasts a report at every tick; each broadcast starts one goroutine for each node.
  The answers of the RPC calls are arbitrary; the calls themselves are recorded.
\<close>

section \<open>Goroutines\<close>

text \<open>
  What a goroutine of the group has left to do.  \<open>Entering\<close> is the one of \<open>run\<close> before its ticker is made;
  \<open>Spawning\<close> is the same one with the calls of \<open>Go\<close> it makes next, in its \<open>select\<close> when there are none.  A
  transmission holds the address of the report, which the goroutines of one broadcast share.
\<close>

datatype don_job =
    Entering duration "string list"
  | Spawning "don_job list"
  | Starting nat
  | Connecting "string list"
  | Subscribing "string list"
  | Transmitting nat nat
  | Publishing PublishRequest
  | Ended

record 'sk don_net =
  dr_don :: mockedDon
  dr_world :: "'sk world"
  dr_tc :: threadControl
  dr_jobs :: "don_job list"
  dr_heap :: "MockedSignedReport list"
  dr_subscribed :: "string list"
  dr_published :: "PublishRequest list"
  dr_printed :: "string list"

definition launch_jobs :: "nat list \<Rightarrow> string list \<Rightarrow> don_job list" where
  "launch_jobs nodes dons = concat (map (\<lambda>n. [Starting n, Connecting dons]) nodes)"

definition don_run :: "mockedDon \<Rightarrow> 'sk world \<Rightarrow> duration \<Rightarrow> string list \<Rightarrow> 'sk don_net" where
  "don_run d w interval dons =
     \<lparr>dr_don = d, dr_world = w, dr_tc = Go NewThreadControl, dr_jobs = [Entering interval dons], dr_heap = [],
      dr_subscribed = [], dr_published = [], dr_printed = []\<rparr>"

definition set_job :: "'sk don_net \<Rightarrow> nat \<Rightarrow> don_job \<Rightarrow> 'sk don_net" where
  "set_job s i j = s\<lparr>dr_jobs := (dr_jobs s)[i := j]\<rparr>"

definition at_job :: "'sk don_net \<Rightarrow> nat \<Rightarrow> don_job \<Rightarrow> bool" where
  "at_job s i j \<longleftrightarrow> i < length (dr_jobs s) \<and> dr_jobs s ! i = j"

text \<open>A goroutine returns.\<close>

definition end_job :: "'sk don_net \<Rightarrow> nat \<Rightarrow> 'sk don_net go option" where
  "end_job s i = map_option (\<lambda>tc. Ret (set_job (s\<lparr>dr_tc := tc\<rparr>) i Ended)) (thread_return (dr_tc s) i)"

subsection \<open>The goroutine of \<open>run\<close>\<close>

text \<open>\<open>time.NewTicker\<close> panics on an interval that is not positive.\<close>

definition run_enter :: "'sk don_net \<Rightarrow> nat \<Rightarrow> duration \<Rightarrow> string list \<Rightarrow> 'sk don_net go" where
  "run_enter s i interval dons =
     (if interval \<le> 0 then Panic (Explicit ''non-positive interval for NewTicker'')
      else Ret (set_job s i (Spawning (launch_jobs (md_nodes (dr_don s)) dons))))"

definition run_spawn :: "'sk don_net \<Rightarrow> nat \<Rightarrow> don_job \<Rightarrow> don_job list \<Rightarrow> 'sk don_net go" where
  "run_spawn s i j js =
     (let s = set_job s i (Spawning js) in Ret (s\<lparr>dr_tc := Go (dr_tc s), dr_jobs := dr_jobs s @ [j]\<rparr>))"

definition run_tick :: "('sk, 'pk) evm_crypto \<Rightarrow> ((OracleID \<Rightarrow> 'sk OcrSigner option) \<Rightarrow> (OracleID \<times> 'sk OcrSigner) list)
    \<Rightarrow> 'sk don_net \<Rightarrow> nat \<Rightarrow> 'sk don_net go" where
  "run_tick ec order s i =
     go_bind (nextReport ec order (dr_world s) (dr_don s)) (\<lambda>(d, r).
       let a = length (dr_heap s) in
       Ret (set_job (s\<lparr>dr_don := d, dr_heap := dr_heap s @ [r]\<rparr>) i
              (Spawning (map (\<lambda>n. Transmitting n a) (md_nodes d)))))"

definition run_done :: "'sk don_net \<Rightarrow> nat \<Rightarrow> 'sk don_net go option" where
  "run_done s i = (if tc_threads (dr_tc s) ! i = Live True then end_job s i else None)"

subsection \<open>The goroutines it starts\<close>

definition start_node :: "'sk don_net \<Rightarrow> nat \<Rightarrow> nat \<Rightarrow> 'sk don_net go option" where
  "start_node s i n = end_job (s\<lparr>dr_world := (dr_world s)(n := node_Start (dr_world s n))\<rparr>) i"

definition sub_error :: "'sk don_net \<Rightarrow> nat \<Rightarrow> string \<Rightarrow> 'sk don_net go option" where
  "sub_error s i m = (if Contains m ''already tring to join'' then end_job s i else Some (Panic (Explicit m)))"

definition sub_connect :: "'sk don_net \<Rightarrow> nat \<Rightarrow> string list \<Rightarrow> err \<Rightarrow> 'sk don_net go option" where
  "sub_connect s i dons er =
     (case er of Some m \<Rightarrow> sub_error s i m | None \<Rightarrow> Some (Ret (set_job s i (Subscribing dons))))"

definition sub_next :: "'sk don_net \<Rightarrow> nat \<Rightarrow> string list \<Rightarrow> err \<Rightarrow> 'sk don_net go option" where
  "sub_next s i dons er =
     (case dons of
        [] \<Rightarrow> end_job s i
      | t # ts \<Rightarrow>
          (let s = s\<lparr>dr_subscribed := dr_subscribed s @ [t]\<rparr> in
           case er of Some m \<Rightarrow> sub_error s i m | None \<Rightarrow> Some (Ret (set_job s i (Subscribing ts)))))"

text \<open>\<open>pctx\<close> is the context of \<open>run\<close>, which is done when that goroutine has returned, too.\<close>

definition transmit_error :: "'sk don_net \<Rightarrow> nat \<Rightarrow> string \<Rightarrow> 'sk don_net go option" where
  "transmit_error s i m =
     (if Contains m ''validation ignored'' \<or> tc_threads (dr_tc s) ! i = Live True \<or> tc_threads (dr_tc s) ! 0 \<noteq> Live False
      then end_job s i
      else end_job (s\<lparr>dr_printed := dr_printed s
             @ [''failed to publish report on don '' @ md_id (dr_don s) @ '': '' @ m]\<rparr>) i)"

definition transmit_prepare :: "(MockedSignedReport \<Rightarrow> string + bytes) \<Rightarrow> 'sk don_net \<Rightarrow> nat \<Rightarrow> nat \<Rightarrow> nat \<Rightarrow> err
    \<Rightarrow> 'sk don_net go option" where
  "transmit_prepare marshal s i n a er =
     (case er of
        Some m \<Rightarrow> transmit_error s i m
      | None \<Rightarrow>
          (let report = dn_manipulate (dr_world s n) (dr_heap s ! a);
               s = s\<lparr>dr_heap := (dr_heap s)[a := report]\<rparr> in
           case marshal report of
             Inl m \<Rightarrow> transmit_error s i m
           | Inr data \<Rightarrow> Some (Ret (set_job s i (Publishing \<lparr>pr_Topic = donTopic (md_id (dr_don s)), pr_Data = data\<rparr>)))))"

definition transmit_publish :: "'sk don_net \<Rightarrow> nat \<Rightarrow> PublishRequest \<Rightarrow> err \<Rightarrow> 'sk don_net go option" where
  "transmit_publish s i p er =
     (let s = s\<lparr>dr_published := dr_published s @ [p]\<rparr> in
      case er of Some m \<Rightarrow> transmit_error s i m | None \<Rightarrow> end_job s i)"

text \<open>The wrapper for functions whose error ends the process.\<close>

definition wrapPanicErr :: "('ctx \<Rightarrow> err) \<Rightarrow> 'ctx \<Rightarrow> unit go" where
  "wrapPanicErr fn ctx = (case fn ctx of None \<Rightarrow> Ret () | Some m \<Rightarrow> Panic (Explicit m))"

subsection \<open>Stop\<close>

definition don_stop :: "'sk don_net \<Rightarrow> 'sk don_net go" where
  "don_stop s = go_bind (Close (dr_tc s)) (\<lambda>tc. Ret (s\<lparr>dr_tc := tc\<rparr>))"

definition don_stop_wait :: "'sk don_net \<Rightarrow> 'sk don_net go option" where
  "don_stop_wait s = map_option (\<lambda>tc. Ret (s\<lparr>dr_tc := tc\<rparr>)) (close_wait (dr_tc s))"

text \<open>Steps other than a tick and a call of \<open>stop\<close>, and all steps.\<close>

inductive job_step :: "(MockedSignedReport \<Rightarrow> string + bytes) \<Rightarrow> 'sk don_net \<Rightarrow> 'sk don_net go \<Rightarrow> bool" for marshal where
  enter: "at_job s i (Entering interval dons) \<Longrightarrow> job_step marshal s (run_enter s i interval dons)"
| spawn: "at_job s i (Spawning (j # js)) \<Longrightarrow> job_step marshal s (run_spawn s i j js)"
| ctx_done: "at_job s i (Spawning []) \<Longrightarrow> run_done s i = Some r \<Longrightarrow> job_step marshal s r"
| start: "at_job s i (Starting n) \<Longrightarrow> start_node s i n = Some r \<Longrightarrow> job_step marshal s r"
| dial: "at_job s i (Connecting dons) \<Longrightarrow> sub_connect s i dons er = Some r \<Longrightarrow> job_step marshal s r"
| subscribe: "at_job s i (Subscribing dons) \<Longrightarrow> sub_next s i dons er = Some r \<Longrightarrow> job_step marshal s r"
| prepare: "at_job s i (Transmitting n a) \<Longrightarrow> transmit_prepare marshal s i n a er = Some r \<Longrightarrow> job_step marshal s r"
| publish: "at_job s i (Publishing p) \<Longrightarrow> transmit_publish s i p er = Some r \<Longrightarrow> job_step marshal s r"
| cancel: "CtxCancel (dr_tc s) i = Some tc \<Longrightarrow> job_step marshal s (Ret (s\<lparr>dr_tc := tc\<rparr>))"
| wait: "don_stop_wait s = Some r \<Longrightarrow> job_step marshal s r"

inductive net_step :: "('sk, 'pk) evm_crypto \<Rightarrow> ((OracleID \<Rightarrow> 'sk OcrSigner option) \<Rightarrow> (OracleID \<times> 'sk OcrSigner) list)
    \<Rightarrow> (MockedSignedReport \<Rightarrow> string + bytes) \<Rightarrow> 'sk don_net \<Rightarrow> 'sk don_net go \<Rightarrow> bool" for ec order marshal where
  job: "job_step marshal s r \<Longrightarrow> net_step ec order marshal s r"
| tick: "at_job s i (Spawning []) \<Longrightarrow> net_step ec order marshal s (run_tick ec order s i)"
| stop: "net_step ec order marshal s (don_stop s)"

abbreviation job_runs :: "(MockedSignedReport \<Rightarrow> string + bytes) \<Rightarrow> 'sk don_net \<Rightarrow> 'sk don_net \<Rightarrow> bool" where
  "job_runs marshal \<equiv> (\<lambda>s s'. job_step marshal s (Ret s'))\<^sup>*\<^sup>*"

abbreviation net_runs :: "('sk, 'pk) evm_crypto \<Rightarrow> ((OracleID \<Rightarrow> 'sk OcrSigner option) \<Rightarrow> (OracleID \<times> 'sk OcrSigner) list)
    \<Rightarrow> (MockedSignedReport \<Rightarrow> string + bytes) \<Rightarrow> 'sk don_net \<Rightarrow> 'sk don_net \<Rightarrow> bool" where
  "net_runs ec order marshal \<equiv> (\<lambda>s s'. net_step ec order marshal s (Ret s'))\<^sup>*\<^sup>*"

section \<open>The goroutines as a group\<close>

text \<open>What a step does to the group and to the jobs of its goroutines.\<close>

fun spawnable :: "don_job \<Rightarrow> bool" where
  "spawnable (Starting n) = True"
| "spawnable (Connecting dons) = True"
| "spawnable (Transmitting n a) = True"
| "spawnable _ = False"

fun main_job :: "don_job \<Rightarrow> bool" where
  "main_job (Entering d dons) = True"
| "main_job (Spawning js) = list_all spawnable js"
| "main_job Ended = True"
| "main_job _ = False"

fun is_main :: "don_job \<Rightarrow> bool" where
  "is_main (Entering d dons) = True"
| "is_main (Spawning js) = True"
| "is_main _ = False"

inductive group_move :: "threadControl \<times> don_job list \<Rightarrow> threadControl \<times> don_job list \<Rightarrow> bool" where
  move: "\<lbrakk>i < length js; js ! i \<noteq> Ended; j \<noteq> Ended; is_main j = is_main (js ! i); is_main j \<Longrightarrow> main_job j\<rbrakk> \<Longrightarrow>
    group_move (tc, js) (tc, js[i := j])"
| finish: "\<lbrakk>i < length js; thread_return tc i = Some tc'\<rbrakk> \<Longrightarrow> group_move (tc, js) (tc', js[i := Ended])"
| spawn: "\<lbrakk>i < length js; js ! i = Spawning (j # ks)\<rbrakk> \<Longrightarrow> group_move (tc, js) (Go tc, js[i := Spawning ks] @ [j])"
| cancel: "CtxCancel tc i = Some tc' \<Longrightarrow> group_move (tc, js) (tc', js)"
| close: "Close tc = Ret tc' \<Longrightarrow> group_move (tc, js) (tc', js)"
| wait: "close_wait tc = Some tc' \<Longrightarrow> group_move (tc, js) (tc', js)"

lemma launch_spawnable: "list_all spawnable (launch_jobs nodes dons)"
  by (auto simp: launch_jobs_def list_all_iff)

lemma end_job_SomeE:
  assumes "end_job s i = Some r"
  obtains tc where "thread_return (dr_tc s) i = Some tc" "r = Ret (set_job (s\<lparr>dr_tc := tc\<rparr>) i Ended)"
  using assms by (auto simp: end_job_def)

lemma set_job_simps [simp]:
  "dr_jobs (set_job s i j) = (dr_jobs s)[i := j]" "dr_tc (set_job s i j) = dr_tc s" "dr_don (set_job s i j) = dr_don s"
  "dr_world (set_job s i j) = dr_world s" "dr_heap (set_job s i j) = dr_heap s"
  "dr_published (set_job s i j) = dr_published s" "dr_subscribed (set_job s i j) = dr_subscribed s"
  by (simp_all add: set_job_def)

abbreviation grp :: "'sk don_net \<Rightarrow> threadControl \<times> don_job list" where "grp s \<equiv> (dr_tc s, dr_jobs s)"

lemma end_job_move:
  assumes "end_job t i = Some (Ret s')" "dr_tc t = dr_tc s" "dr_jobs t = dr_jobs s" "i < length (dr_jobs s)"
  shows "group_move (grp s) (grp s')"
  using assms by (elim end_job_SomeE) (auto intro: group_move.finish)

lemma sub_error_move:
  assumes "sub_error t i m = Some (Ret s')" "dr_tc t = dr_tc s" "dr_jobs t = dr_jobs s" "i < length (dr_jobs s)"
  shows "group_move (grp s) (grp s')"
  using assms end_job_move [of t i s' s] by (auto simp: sub_error_def split: if_splits)

lemma transmit_error_move:
  assumes "transmit_error t i m = Some (Ret s')" "dr_tc t = dr_tc s" "dr_jobs t = dr_jobs s" "i < length (dr_jobs s)"
  shows "group_move (grp s) (grp s')"
  using assms end_job_move [of t i s' s]
    end_job_move [of "t\<lparr>dr_printed := dr_printed t @ [''failed to publish report on don '' @ md_id (dr_don t) @ '': '' @ m]\<rparr>" i s' s]
  by (auto simp: transmit_error_def split: if_splits)

lemma set_job_move:
  assumes "i < length (dr_jobs s)" "dr_jobs s ! i \<noteq> Ended" "j \<noteq> Ended" "is_main j = is_main (dr_jobs s ! i)"
    "is_main j \<Longrightarrow> main_job j" "dr_tc s' = dr_tc s" "dr_jobs s' = (dr_jobs s)[i := j]"
  shows "group_move (grp s) (grp s')"
  using group_move.move [of i "dr_jobs s" j "dr_tc s"] assms by simp

lemma job_step_move:
  assumes "job_step marshal s (Ret s')"
  shows "group_move (grp s) (grp s')"
  using assms
proof (cases rule: job_step.cases)
  case (enter i interval dons)
  then show ?thesis
    by (intro set_job_move [of i _ "Spawning (launch_jobs (md_nodes (dr_don s)) dons)"])
      (auto simp: at_job_def run_enter_def launch_spawnable split: if_splits)
next
  case (spawn i j js)
  then show ?thesis using group_move.spawn [of i "dr_jobs s" j js "dr_tc s"]
    by (simp add: at_job_def run_spawn_def Let_def)
next
  case (ctx_done i)
  then show ?thesis using end_job_move [of s i s' s] by (auto simp: at_job_def run_done_def split: if_splits)
next
  case (start i n)
  then show ?thesis using end_job_move [of _ i s' s] by (auto simp: at_job_def start_node_def)
next
  case (dial i dons er)
  then show ?thesis using sub_error_move [of s i _ s' s] set_job_move [of i s "Subscribing dons" s']
    by (auto simp: at_job_def sub_connect_def split: option.splits)
next
  case (subscribe i dons er)
  then show ?thesis using end_job_move [of s i s' s] sub_error_move [of _ i _ s' s] set_job_move [of i s "Subscribing _" s']
    by (auto simp: at_job_def sub_next_def Let_def split: option.splits list.splits)
next
  case (prepare i n a er)
  then show ?thesis using transmit_error_move [of _ i _ s' s] set_job_move [of i s "Publishing _" s']
    by (auto simp: at_job_def transmit_prepare_def Let_def split: option.splits sum.splits)
next
  case (publish i p er)
  then show ?thesis using end_job_move [of _ i s' s] transmit_error_move [of _ i _ s' s]
    by (auto simp: at_job_def transmit_publish_def Let_def split: option.splits)
next
  case (cancel i tc)
  then show ?thesis using group_move.cancel [of "dr_tc s" i tc] by simp
next
  case wait
  then show ?thesis using group_move.wait [of "dr_tc s"] by (auto simp: don_stop_wait_def)
qed

lemma run_tick_RetE:
  assumes "run_tick ec order s i = Ret s'"
  obtains d r where "s' = set_job (s\<lparr>dr_don := d, dr_heap := dr_heap s @ [r]\<rparr>) i
      (Spawning (map (\<lambda>n. Transmitting n (length (dr_heap s))) (md_nodes d)))"
    "nextReport ec order (dr_world s) (dr_don s) = Ret (d, r)"
  using assms by (auto simp: run_tick_def go_bind_eq_Ret_iff Let_def)

lemma net_step_move:
  assumes "net_step ec order marshal s (Ret s')"
  shows "group_move (grp s) (grp s')"
  using assms
proof (cases rule: net_step.cases)
  case job
  then show ?thesis by (rule job_step_move)
next
  case (tick i)
  from tick(1) [symmetric] obtain d r where "s' = set_job (s\<lparr>dr_don := d, dr_heap := dr_heap s @ [r]\<rparr>) i
      (Spawning (map (\<lambda>n. Transmitting n (length (dr_heap s))) (md_nodes d)))" by (rule run_tick_RetE)
  with tick show ?thesis
    by (intro set_job_move [of i _ "Spawning (map (\<lambda>n. Transmitting n (length (dr_heap s))) (md_nodes d))"])
      (auto simp: at_job_def list_all_iff)
next
  case stop
  from stop [symmetric] show ?thesis using group_move.close [of "dr_tc s"]
    by (auto simp: don_stop_def go_bind_eq_Ret_iff)
qed

text \<open>The counter counts the goroutines, a job has ended when its goroutine has, and only the first goroutine
  starts others, so the group is empty for good once \<open>stop\<close> has returned.\<close>

definition net_inv :: "threadControl \<times> don_job list \<Rightarrow> bool" where
  "net_inv x \<longleftrightarrow> (case x of (tc, js) \<Rightarrow> tc_inv tc \<and> length js = length (tc_threads tc) \<and> js \<noteq> []
     \<and> (\<forall>i<length js. js ! i = Ended \<longleftrightarrow> tc_threads tc ! i = Finished)
     \<and> (\<forall>i<length js. is_main (js ! i) \<longrightarrow> i = 0 \<and> main_job (js ! i))
     \<and> (tc_closing tc = Closed \<longrightarrow> running tc = 0))"

lemma running_zero: "running tc = 0 \<longleftrightarrow> (\<forall>i<length (tc_threads tc). tc_threads tc ! i = Finished)"
  by (simp add: running_def filter_empty_conv all_set_conv_all_nth)

lemma net_inv_move:
  assumes "group_move x y" "net_inv x"
  shows "net_inv y"
  using assms
proof (cases rule: group_move.cases)
  case (move i js j tc)
  with assms(2) show ?thesis by (auto simp: net_inv_def nth_list_update)
next
  case (finish i js tc tc')
  have "tc_inv tc'" using tc_step_inv [OF tc_step.ret [OF finish(4)]] assms(2) finish(1) by (simp add: net_inv_def)
  moreover have "running tc' = 0" if "running tc = 0" using running_return [OF finish(4)] that by simp
  ultimately show ?thesis using finish assms(2)
    by (auto simp: net_inv_def nth_list_update elim!: thread_return_SomeE)
next
  case (spawn i js j ks tc)
  have "tc_closing tc \<noteq> Closed"
    using spawn assms(2) by (auto simp: net_inv_def running_zero)
  moreover have "tc_inv (Go tc)" using tc_step_inv [OF tc_step.start] assms(2) spawn(1) by (simp add: net_inv_def)
  moreover have "spawnable j" "list_all spawnable ks" using spawn assms(2) by (fastforce simp: net_inv_def)+
  moreover then have "j \<noteq> Ended" "\<not> is_main j" by (cases j; simp)+
  ultimately show ?thesis using spawn assms(2)
    by (auto simp: net_inv_def Go_def nth_append nth_list_update less_Suc_eq)
next
  case (cancel tc i tc' js)
  have "tc_inv tc'" using tc_step_inv [OF tc_step.cancel [OF cancel(3)]] assms(2) cancel(1) by (simp add: net_inv_def)
  with cancel running_cancel [OF cancel(3)] assms(2) show ?thesis
    by (auto simp: net_inv_def nth_list_update elim!: CtxCancel_SomeE split: if_splits)
next
  case (close tc tc' js)
  have "tc_inv tc'" using tc_step_inv [OF tc_step.close [OF close(3)]] assms(2) close(1) by (simp add: net_inv_def)
  with close assms(2) show ?thesis by (auto simp: net_inv_def Close_def split: if_splits)
next
  case (wait tc tc' js)
  have "tc_inv tc'" using tc_step_inv [OF tc_step.wait [OF wait(3)]] assms(2) wait(1) by (simp add: net_inv_def)
  with wait assms(2) show ?thesis by (auto simp: net_inv_def close_wait_def tc_inv_def running_def split: if_splits)
qed

lemma net_inv_run: "net_inv (grp (don_run d w interval dons))"
  by (simp add: net_inv_def don_run_def Go_def NewThreadControl_def tc_inv_def running_def)

lemma net_reachable: "net_runs ec order marshal (don_run d w interval dons) s \<Longrightarrow> net_inv (grp s)"
  by (induction rule: rtranclp_induct) (use net_inv_run net_step_move net_inv_move in blast)+

section \<open>What is published\<close>

text \<open>The nodes leave the report as it is, which is the default.  Then the reports in flight are those of the
  network, and each request is a report of the network on its topic.\<close>

definition plain_nodes :: "'sk world \<Rightarrow> bool" where
  "plain_nodes w \<longleftrightarrow> (\<forall>n. dn_manipulate (w n) = (\<lambda>r. r))"

definition pub_ok :: "(MockedSignedReport \<Rightarrow> string + bytes) \<Rightarrow> string \<Rightarrow> MockedSignedReport list \<Rightarrow> PublishRequest \<Rightarrow> bool" where
  "pub_ok marshal did rs p \<longleftrightarrow> pr_Topic p = donTopic did \<and> (\<exists>r\<in>set rs. marshal r = Inr (pr_Data p))"

fun transmits :: "nat \<Rightarrow> don_job \<Rightarrow> bool" where
  "transmits k (Transmitting n a) = (a < k)"
| "transmits k (Publishing p) = False"
| "transmits k (Spawning js) = False"
| "transmits k j = True"

fun job_data :: "nat \<Rightarrow> (PublishRequest \<Rightarrow> bool) \<Rightarrow> don_job \<Rightarrow> bool" where
  "job_data k P (Publishing p) = P p"
| "job_data k P (Spawning js) = list_all (transmits k) js"
| "job_data k P j = transmits k j"

text \<open>How many requests a job can still make.\<close>

fun requests :: "don_job \<Rightarrow> nat" where
  "requests (Transmitting n a) = 1"
| "requests (Publishing p) = 1"
| "requests (Spawning js) = sum_list (map (\<lambda>j. case j of Transmitting n a \<Rightarrow> 1 | _ \<Rightarrow> 0) js)"
| "requests j = 0"

definition data_inv :: "(MockedSignedReport \<Rightarrow> string + bytes) \<Rightarrow> string \<Rightarrow> nat list \<Rightarrow> 'sk don_net \<Rightarrow> bool" where
  "data_inv marshal did nodes s \<longleftrightarrow> (let rs = md_reports (dr_don s) in
     md_id (dr_don s) = did \<and> md_nodes (dr_don s) = nodes \<and> numbered did rs \<and> dr_heap s = rs
     \<and> plain_nodes (dr_world s)
     \<and> (\<forall>j\<in>set (dr_jobs s). job_data (length rs) (pub_ok marshal did rs) j)
     \<and> (\<forall>p\<in>set (dr_published s). pub_ok marshal did rs p)
     \<and> length (dr_published s) + sum_list (map requests (dr_jobs s)) \<le> length nodes * length rs)"

lemma sum_list_map_update:
  assumes "i < length xs"
  shows "sum_list (map f (xs[i := x])) + f (xs ! i) = sum_list (map f xs) + (f x :: nat)"
proof -
  have "xs[i := x] = take i xs @ x # drop (Suc i) xs" using assms by (rule upd_conv_take_nth_drop)
  moreover have "sum_list (map f xs) = sum_list (map f (take i xs @ xs ! i # drop (Suc i) xs))"
    using id_take_nth_drop [OF assms] by simp
  ultimately show ?thesis by simp
qed

text \<open>The shared part of every step: one job changes, and some requests are made.\<close>

lemma data_inv_job:
  assumes "data_inv marshal did nodes s" "i < length (dr_jobs s)"
    and "dr_jobs s' = (dr_jobs s)[i := j] @ ks" "dr_don s' = dr_don s" "dr_heap s' = dr_heap s" "plain_nodes (dr_world s')"
    and "dr_published s' = dr_published s @ ps" "\<forall>p\<in>set ps. pub_ok marshal did (md_reports (dr_don s)) p"
    and "\<forall>k\<in>set (j # ks). job_data (length (md_reports (dr_don s))) (pub_ok marshal did (md_reports (dr_don s))) k"
    and "length ps + requests j + sum_list (map requests ks) \<le> requests (dr_jobs s ! i)"
  shows "data_inv marshal did nodes s'"
proof -
  have "sum_list (map requests (dr_jobs s')) + length ps \<le> sum_list (map requests (dr_jobs s))"
    using sum_list_map_update [OF assms(2), of requests j] assms(10) unfolding assms(3) by simp
  moreover have "\<forall>k\<in>set (dr_jobs s'). job_data (length (md_reports (dr_don s))) (pub_ok marshal did (md_reports (dr_don s))) k"
    using assms(1,9) set_list_update [of _ "dr_jobs s" i j] unfolding assms(3) by (fastforce simp: data_inv_def Let_def)
  ultimately show ?thesis using assms(1,4-8) by (auto simp: data_inv_def Let_def)
qed

lemma end_job_data:
  assumes "end_job t i = Some (Ret s')" "data_inv marshal did nodes s" "i < length (dr_jobs s)"
    and "dr_jobs t = dr_jobs s" "dr_don t = dr_don s" "dr_heap t = dr_heap s" "plain_nodes (dr_world t)"
    and "dr_published t = dr_published s @ ps" "\<forall>p\<in>set ps. pub_ok marshal did (md_reports (dr_don s)) p"
    and "length ps \<le> requests (dr_jobs s ! i)"
  shows "data_inv marshal did nodes s'"
  using assms(1)
  by (rule end_job_SomeE) (rule data_inv_job [OF assms(2,3), where j = Ended and ks = "[]" and ps = ps], use assms(4-) in simp_all)

lemma transmit_error_data:
  assumes "transmit_error t i m = Some (Ret s')" "data_inv marshal did nodes s" "i < length (dr_jobs s)"
    and "dr_jobs t = dr_jobs s" "dr_don t = dr_don s" "dr_heap t = dr_heap s" "plain_nodes (dr_world t)"
    and "dr_published t = dr_published s @ ps" "\<forall>p\<in>set ps. pub_ok marshal did (md_reports (dr_don s)) p"
    and "length ps \<le> requests (dr_jobs s ! i)"
  shows "data_inv marshal did nodes s'"
  using assms(1) end_job_data [OF _ assms(2,3), of _ s' ps] assms(4-)
  by (auto simp: transmit_error_def split: if_splits)

lemma data_plain: "data_inv marshal did nodes s \<Longrightarrow> plain_nodes (dr_world s)"
  by (simp add: data_inv_def Let_def)

lemma data_job:
  "data_inv marshal did nodes s \<Longrightarrow> at_job s i j \<Longrightarrow>
     job_data (length (md_reports (dr_don s))) (pub_ok marshal did (md_reports (dr_don s))) j"
  by (auto simp: data_inv_def Let_def at_job_def)

lemma requests_launch: "requests (Spawning (launch_jobs nodes dons)) = 0" "list_all (transmits k) (launch_jobs nodes dons)"
  by (induction nodes) (simp_all add: launch_jobs_def)

lemma job_step_data:
  assumes "job_step marshal s (Ret s')" "data_inv marshal did nodes s"
  shows "data_inv marshal did nodes s'"
  using assms(1)
proof (cases rule: job_step.cases)
  case (enter i interval dons)
  then show ?thesis
    by (intro data_inv_job [OF assms(2), of i s' "Spawning (launch_jobs (md_nodes (dr_don s)) dons)" "[]" "[]"])
      (auto simp: at_job_def run_enter_def requests_launch data_plain [OF assms(2)] simp del: requests.simps(3) split: if_splits)
next
  case (spawn i j js)
  let ?k = "length (md_reports (dr_don s))"
  have j: "transmits ?k j" "list_all (transmits ?k) js" using data_job [OF assms(2) spawn(2)] by simp_all
  have "job_data ?k P j \<and> requests (Spawning js) + requests j \<le> requests (Spawning (j # js))" for P
    using j(1) by (cases j) simp_all
  with spawn j(2) show ?thesis
    by (intro data_inv_job [OF assms(2), of i s' "Spawning js" "[j]" "[]"])
      (simp_all add: at_job_def run_spawn_def Let_def data_plain [OF assms(2)] del: requests.simps(3))
next
  case (ctx_done i)
  then show ?thesis using data_plain [OF assms(2)]
    by (intro end_job_data [OF _ assms(2), of s i s' "[]"]) (auto simp: at_job_def run_done_def split: if_splits)
next
  case (start i n)
  have "plain_nodes ((dr_world s)(n := node_Start (dr_world s n)))"
    using data_plain [OF assms(2)] by (auto simp: plain_nodes_def node_Start_def Let_def split: prod.splits)
  with start show ?thesis
    by (intro end_job_data [OF _ assms(2), of "s\<lparr>dr_world := (dr_world s)(n := node_Start (dr_world s n))\<rparr>" i s' "[]"])
      (auto simp: at_job_def start_node_def)
next
  case (dial i dons er)
  show ?thesis
  proof (cases er)
    case None
    with dial show ?thesis
      by (intro data_inv_job [OF assms(2), of i s' "Subscribing dons" "[]" "[]"])
        (auto simp: at_job_def sub_connect_def data_plain [OF assms(2)])
  next
    case (Some m)
    with dial show ?thesis using data_plain [OF assms(2)]
      by (intro end_job_data [OF _ assms(2), of s i s' "[]"])
        (auto simp: at_job_def sub_connect_def sub_error_def split: if_splits)
  qed
next
  case (subscribe i dons er)
  show ?thesis
  proof (cases "dons = [] \<or> er \<noteq> None")
    case True
    define t where "t = (if dons = [] then s else s\<lparr>dr_subscribed := dr_subscribed s @ [hd dons]\<rparr>)"
    have "end_job t i = Some (Ret s')"
      using True subscribe by (auto simp: t_def sub_next_def sub_error_def Let_def split: list.splits if_splits)
    with subscribe show ?thesis using data_plain [OF assms(2)]
      by (intro end_job_data [OF _ assms(2), of t i s' "[]"]) (auto simp: at_job_def t_def)
  next
    case False
    with subscribe show ?thesis
      by (intro data_inv_job [OF assms(2), of i s' "Subscribing (tl dons)" "[]" "[]"])
        (auto simp: at_job_def sub_next_def Let_def data_plain [OF assms(2)] split: list.splits)
  qed
next
  case (prepare i n a er)
  have a: "a < length (md_reports (dr_don s))" "dr_heap s = md_reports (dr_don s)"
    using data_job [OF assms(2) prepare(1)] assms(2) by (simp_all add: data_inv_def Let_def)
  have m: "dn_manipulate (dr_world s n) (dr_heap s ! a) = dr_heap s ! a"
    using data_plain [OF assms(2)] by (simp add: plain_nodes_def)
  have same: "s\<lparr>dr_heap := (dr_heap s)[a := dr_heap s ! a]\<rparr> = s" by simp
  have "(\<exists>m. transmit_error s i m = Some (Ret s')) \<or> (\<exists>d. marshal (dr_heap s ! a) = Inr d \<and>
      s' = set_job s i (Publishing \<lparr>pr_Topic = donTopic (md_id (dr_don s)), pr_Data = d\<rparr>))"
    using prepare(2) unfolding transmit_prepare_def Let_def m same by (cases er; cases "marshal (dr_heap s ! a)") auto
  then show ?thesis
  proof (elim disjE exE conjE)
    fix m assume "transmit_error s i m = Some (Ret s')"
    then show ?thesis
      by (rule transmit_error_data [OF _ assms(2), where ps = "[]"])
        (use prepare(1) data_plain [OF assms(2)] in \<open>simp_all add: at_job_def\<close>)
  next
    fix d assume ok: "marshal (dr_heap s ! a) = Inr d"
      "s' = set_job s i (Publishing \<lparr>pr_Topic = donTopic (md_id (dr_don s)), pr_Data = d\<rparr>)"
    have "pub_ok marshal did (md_reports (dr_don s)) \<lparr>pr_Topic = donTopic (md_id (dr_don s)), pr_Data = d\<rparr>"
      using ok a assms(2) by (auto simp: pub_ok_def data_inv_def Let_def)
    with ok prepare show ?thesis
      by (intro data_inv_job [OF assms(2), of i s' "Publishing \<lparr>pr_Topic = donTopic (md_id (dr_don s)), pr_Data = d\<rparr>" "[]" "[]"])
        (auto simp: at_job_def data_plain [OF assms(2)])
  qed
next
  case (publish i p er)
  have p: "pub_ok marshal did (md_reports (dr_don s)) p" using data_job [OF assms(2) publish(1)] by simp
  define t where "t = s\<lparr>dr_published := dr_published s @ [p]\<rparr>"
  have t: "dr_jobs t = dr_jobs s" "dr_don t = dr_don s" "dr_heap t = dr_heap s" "plain_nodes (dr_world t)"
    "dr_published t = dr_published s @ [p]" using data_plain [OF assms(2)] by (simp_all add: t_def)
  have i: "i < length (dr_jobs s)" "length [p] \<le> requests (dr_jobs s ! i)" using publish(1) by (auto simp: at_job_def)
  have "(\<exists>m. transmit_error t i m = Some (Ret s')) \<or> end_job t i = Some (Ret s')"
    using publish(2) unfolding transmit_publish_def Let_def t_def by (auto split: option.splits)
  with end_job_data [OF _ assms(2) i(1) t _ i(2)] transmit_error_data [OF _ assms(2) i(1) t _ i(2)] p show ?thesis
    by auto
next
  case (cancel i tc)
  with assms(2) show ?thesis by (simp add: data_inv_def)
next
  case wait
  with assms(2) show ?thesis by (auto simp: don_stop_wait_def data_inv_def)
qed

lemma transmits_mono: "transmits k j \<Longrightarrow> transmits (Suc k) j"
  by (cases j) simp_all

lemma job_data_mono:
  "job_data k P j \<Longrightarrow> (\<And>p. P p \<Longrightarrow> Q p) \<Longrightarrow> job_data (Suc k) Q j"
  by (cases j) (auto simp: list_all_iff transmits_mono)

lemma tick_data:
  assumes "run_tick ec order s i = Ret s'" "at_job s i (Spawning [])" "data_inv marshal did nodes s"
  shows "data_inv marshal did nodes s'"
proof -
  obtain d r where s': "s' = set_job (s\<lparr>dr_don := d, dr_heap := dr_heap s @ [r]\<rparr>) i
      (Spawning (map (\<lambda>n. Transmitting n (length (dr_heap s))) (md_nodes d)))"
    and n: "nextReport ec order (dr_world s) (dr_don s) = Ret (d, r)" by (rule run_tick_RetE [OF assms(1)])
  from assms(3) have old: "md_id (dr_don s) = did" "md_nodes (dr_don s) = nodes" "numbered did (md_reports (dr_don s))"
    "dr_heap s = md_reports (dr_don s)" by (simp_all add: data_inv_def Let_def)
  have "d = (dr_don s)\<lparr>md_reports := md_reports (dr_don s) @ [r]\<rparr>" by (rule nextReport_RetE [OF n])
  then have d: "md_reports d = md_reports (dr_don s) @ [r]" "md_nodes d = nodes" "md_id d = did"
    using old by simp_all
  have num: "numbered did (md_reports d)" using nextReport_numbered [OF n] old by simp
  let ?j = "Spawning (map (\<lambda>n. Transmitting n (length (dr_heap s))) nodes)"
  have pub: "pub_ok marshal did (md_reports (dr_don s)) p \<Longrightarrow> pub_ok marshal did (md_reports d) p" for p
    by (auto simp: pub_ok_def d)
  have req: "requests ?j = length nodes" by (simp add: comp_def sum_list_triv)
  have i: "i < length (dr_jobs s)" "requests (dr_jobs s ! i) = 0" using assms(2) by (simp_all add: at_job_def)
  have "sum_list (map requests (dr_jobs s')) = sum_list (map requests (dr_jobs s)) + length nodes"
    using sum_list_map_update [OF i(1), of requests ?j] i(2) req unfolding s' d(2) by simp
  moreover have "\<forall>j\<in>set (dr_jobs s'). job_data (length (md_reports d)) (pub_ok marshal did (md_reports d)) j"
  proof
    fix j assume "j \<in> set (dr_jobs s')"
    then have "j = ?j \<or> j \<in> set (dr_jobs s)" unfolding s' d(2) set_job_simps by (simp add: set_list_update)
    then show "job_data (length (md_reports d)) (pub_ok marshal did (md_reports d)) j"
      using assms(3) job_data_mono [OF _ pub] by (auto simp: data_inv_def Let_def d(1) old(4) list_all_iff)
  qed
  ultimately show ?thesis using assms(3) num pub d by (auto simp: s' data_inv_def Let_def)
qed

lemma net_step_data:
  assumes "net_step ec order marshal s (Ret s')" "data_inv marshal did nodes s"
  shows "data_inv marshal did nodes s'"
  using assms(1)
proof (cases rule: net_step.cases)
  case job
  then show ?thesis using assms(2) by (rule job_step_data)
next
  case (tick i)
  then show ?thesis using tick_data [OF _ _ assms(2)] by metis
next
  case stop
  from stop [symmetric] assms(2) show ?thesis by (auto simp: don_stop_def go_bind_eq_Ret_iff data_inv_def)
qed

lemma net_data_reachable:
  assumes "net_runs ec order marshal (don_run (fst (newMockedDon keygen did nodes w0)) w interval dons) s" "plain_nodes w"
  shows "data_inv marshal did nodes s"
  using assms(1)
proof (induction rule: rtranclp_induct)
  case base
  with assms(2) show ?case by (simp add: data_inv_def don_run_def newMockedDon_def numbered_def)
qed (rule net_step_data)

section \<open>Stopping\<close>

text \<open>The steps a job still has, with those of the goroutines it starts; \<open>k\<close> is the number of nodes.\<close>

fun leaf_work :: "don_job \<Rightarrow> nat" where
  "leaf_work (Starting n) = 1"
| "leaf_work (Publishing p) = 1"
| "leaf_work (Transmitting n a) = 2"
| "leaf_work (Subscribing ts) = Suc (length ts)"
| "leaf_work (Connecting ts) = Suc (Suc (length ts))"
| "leaf_work j = 0"

fun job_work :: "nat \<Rightarrow> don_job \<Rightarrow> nat" where
  "job_work k (Spawning js) = Suc (sum_list (map (\<lambda>j. Suc (Suc (leaf_work j))) js))"
| "job_work k (Entering d ts) = 2 + k * (length ts + 7)"
| "job_work k j = leaf_work j"

definition net_work :: "nat \<Rightarrow> 'sk don_net \<Rightarrow> nat" where
  "net_work k s = sum_list (map (job_work k) (dr_jobs s)) + length (filter (\<lambda>t. t = Live False) (tc_threads (dr_tc s)))
     + (if tc_closing (dr_tc s) = Waiting then 1 else 0)"

lemma launch_work: "sum_list (map (\<lambda>j. Suc (Suc (leaf_work j))) (launch_jobs nodes dons)) = length nodes * (length dons + 7)"
  by (induction nodes) (simp_all add: launch_jobs_def)

lemma job_work_pos: "j \<noteq> Ended \<Longrightarrow> 0 < job_work k j"
  by (cases j) simp_all

lemma spawnable_work: "spawnable j \<Longrightarrow> job_work k j = leaf_work j"
  by (cases j) simp_all

lemma end_job_work:
  assumes "end_job t i = Some (Ret s')" "dr_tc t = dr_tc s" "dr_jobs t = dr_jobs s" "i < length (dr_jobs s)" "dr_jobs s ! i \<noteq> Ended"
  shows "net_work k s' < net_work k s"
proof -
  obtain tc where tc: "thread_return (dr_tc s) i = Some tc" "dr_tc s' = tc" "dr_jobs s' = (dr_jobs s)[i := Ended]"
    using assms(1-3) by (auto elim!: end_job_SomeE)
  have "length (filter (\<lambda>t. t = Live False) (tc_threads tc)) \<le> length (filter (\<lambda>t. t = Live False) (tc_threads (dr_tc s)))"
    using tc(1) filter_update_length [of i "tc_threads (dr_tc s)" "\<lambda>t. t = Live False" Finished]
    by (auto elim!: thread_return_SomeE split: if_splits)
  moreover have "sum_list (map (job_work k) (dr_jobs s')) < sum_list (map (job_work k) (dr_jobs s))"
    using sum_list_map_update [OF assms(4), of "job_work k" Ended] job_work_pos [OF assms(5), of k] tc(3) by simp
  moreover have "tc_closing tc = tc_closing (dr_tc s)" using tc(1) by (auto elim!: thread_return_SomeE)
  ultimately show ?thesis by (simp add: net_work_def tc(2))
qed

lemma set_job_work:
  assumes "i < length (dr_jobs s)" "job_work k j < job_work k (dr_jobs s ! i)" "dr_tc s' = dr_tc s" "dr_jobs s' = (dr_jobs s)[i := j]"
  shows "net_work k s' < net_work k s"
  using sum_list_map_update [OF assms(1), of "job_work k" j] assms(2-) by (simp add: net_work_def)

lemma sub_error_work:
  assumes "sub_error t i m = Some (Ret s')" "dr_tc t = dr_tc s" "dr_jobs t = dr_jobs s" "i < length (dr_jobs s)" "dr_jobs s ! i \<noteq> Ended"
  shows "net_work k s' < net_work k s"
  using assms(1) end_job_work [OF _ assms(2-)] by (auto simp: sub_error_def split: if_splits)

lemma transmit_error_work:
  assumes "transmit_error t i m = Some (Ret s')" "dr_tc t = dr_tc s" "dr_jobs t = dr_jobs s" "i < length (dr_jobs s)" "dr_jobs s ! i \<noteq> Ended"
  shows "net_work k s' < net_work k s"
proof -
  obtain u where "end_job u i = Some (Ret s')" "dr_tc u = dr_tc s" "dr_jobs u = dr_jobs s"
    using assms(1-3) by (auto simp: transmit_error_def split: if_splits)
  then show ?thesis using end_job_work assms(4,5) by blast
qed

lemma job_step_work:
  assumes "job_step marshal s (Ret s')" "net_inv (grp s)" "k = length (md_nodes (dr_don s))"
  shows "net_work k s' < net_work k s"
  using assms(1)
proof (cases rule: job_step.cases)
  case (enter i interval dons)
  then show ?thesis
    by (intro set_job_work [of i s k "Spawning (launch_jobs (md_nodes (dr_don s)) dons)"])
      (auto simp: at_job_def run_enter_def launch_work assms(3) split: if_splits)
next
  case (spawn i j js)
  have sp: "spawnable j" "i < length (dr_jobs s)" "dr_jobs s ! i = Spawning (j # js)"
    using spawn(2) assms(2) by (fastforce simp: at_job_def net_inv_def)+
  have s': "dr_tc s' = Go (dr_tc s)" "dr_jobs s' = (dr_jobs s)[i := Spawning js] @ [j]"
    using spawn(1) by (simp_all add: run_spawn_def Let_def)
  show ?thesis using sum_list_map_update [OF sp(2), of "job_work k" "Spawning js"] sp(1,3) spawnable_work [OF sp(1), of k]
    by (simp add: net_work_def s' Go_def)
next
  case (ctx_done i)
  then show ?thesis by (intro end_job_work [of s i s' s]) (auto simp: at_job_def run_done_def split: if_splits)
next
  case (start i n)
  then show ?thesis using end_job_work [of _ i s' s] by (auto simp: at_job_def start_node_def)
next
  case (dial i dons er)
  then show ?thesis using sub_error_work [of s i _ s' s] set_job_work [of i s k "Subscribing dons" s']
    by (auto simp: at_job_def sub_connect_def split: option.splits)
next
  case (subscribe i dons er)
  then have i: "i < length (dr_jobs s)" "dr_jobs s ! i = Subscribing dons" by (simp_all add: at_job_def)
  show ?thesis
  proof (cases "dons = [] \<or> er \<noteq> None")
    case True
    define t where "t = (if dons = [] then s else s\<lparr>dr_subscribed := dr_subscribed s @ [hd dons]\<rparr>)"
    have "end_job t i = Some (Ret s')"
      using True subscribe by (auto simp: t_def sub_next_def sub_error_def Let_def split: list.splits if_splits)
    then show ?thesis by (rule end_job_work) (use i in \<open>simp_all add: t_def\<close>)
  next
    case False
    with subscribe have "dr_tc s' = dr_tc s" "dr_jobs s' = (dr_jobs s)[i := Subscribing (tl dons)]"
      by (auto simp: sub_next_def Let_def split: list.splits)
    with i False show ?thesis by (intro set_job_work [of i s k "Subscribing (tl dons)"]) simp_all
  qed
next
  case (prepare i n a er)
  then show ?thesis using transmit_error_work [of _ i _ s' s] set_job_work [of i s k "Publishing _" s']
    by (auto simp: at_job_def transmit_prepare_def Let_def split: option.splits sum.splits)
next
  case (publish i p er)
  then show ?thesis using end_job_work [of _ i s' s] transmit_error_work [of _ i _ s' s]
    by (auto simp: at_job_def transmit_publish_def Let_def split: option.splits)
next
  case (cancel i tc)
  then show ?thesis using filter_update_length [of i "tc_threads (dr_tc s)" "\<lambda>t. t = Live False" "Live True"]
    by (auto simp: net_work_def elim!: CtxCancel_SomeE split: if_splits)
next
  case wait
  then show ?thesis by (auto simp: don_stop_wait_def close_wait_def net_work_def split: if_splits)
qed

text \<open>A stopped network that has not returned can go on, whatever the calls answer.\<close>

lemma end_job_live:
  assumes "tc_threads (dr_tc t) ! i \<noteq> Finished" "i < length (tc_threads (dr_tc t))"
  shows "end_job t i \<noteq> None"
  using assms by (simp add: end_job_def thread_return_def)

lemma net_progress:
  fixes s :: "'sk don_net"
  assumes "net_inv (grp s)" "tc_stop (dr_tc s)" "\<And>r. \<not> job_step marshal s r"
  shows "tc_closing (dr_tc s) = Closed"
proof (rule ccontr)
  assume open1: "tc_closing (dr_tc s) \<noteq> Closed"
  have "tc_threads (dr_tc s) ! i = Finished" if i: "i < length (tc_threads (dr_tc s))" for i
  proof (rule ccontr)
    assume f: "tc_threads (dr_tc s) ! i \<noteq> Finished"
    with assms(1) i have j: "i < length (dr_jobs s)" "dr_jobs s ! i \<noteq> Ended" by (auto simp: net_inv_def)
    have e: "\<exists>r. end_job t i = Some r" if "dr_tc t = dr_tc s" for t :: "'sk don_net" using end_job_live [of t i] f i that by auto
    have "\<exists>r. job_step marshal s r"
    proof (cases "dr_jobs s ! i")
      case (Spawning js)
      show ?thesis
      proof (cases js)
        case Nil
        have c: "CtxCancel (dr_tc s) i \<noteq> None" if "tc_threads (dr_tc s) ! i = Live False"
          using that i assms(2) by (simp add: CtxCancel_def)
        show ?thesis
        proof (cases "tc_threads (dr_tc s) ! i = Live True")
          case True
          then obtain r where "run_done s i = Some r" using e [of s] by (auto simp: run_done_def)
          with Spawning Nil j(1) job_step.ctx_done [of s i r] show ?thesis by (auto simp: at_job_def)
        next
          case False
          with f have "tc_threads (dr_tc s) ! i = Live False" by (cases "tc_threads (dr_tc s) ! i") auto
          with c show ?thesis by (auto intro: job_step.cancel)
        qed
      next
        case (Cons k ks)
        with Spawning j(1) job_step.spawn [of s i k ks] show ?thesis by (auto simp: at_job_def)
      qed
    next
      case (Subscribing ts)
      with e [of s] j(1) show ?thesis
        using job_step.subscribe [of s i ts None] by (cases ts) (auto simp: at_job_def sub_next_def Let_def)
    next
      case (Transmitting n a)
      have "transmit_error t i m \<noteq> None" if "dr_tc t = dr_tc s" for t :: "'sk don_net" and m
        using e [of t] e [of "t\<lparr>dr_printed := dr_printed t @ [''failed to publish report on don '' @ md_id (dr_don t) @ '': '' @ m]\<rparr>"] that
        by (auto simp: transmit_error_def)
      then obtain r where "transmit_prepare marshal s i n a (Some []) = Some r" by (auto simp: transmit_prepare_def)
      with Transmitting j(1) job_step.prepare [of s i n a marshal "Some []" r] show ?thesis by (auto simp: at_job_def)
    next
      case (Publishing p)
      have "transmit_publish s i p None \<noteq> None" using e [of "s\<lparr>dr_published := dr_published s @ [p]\<rparr>"]
        by (auto simp: transmit_publish_def Let_def)
      then obtain r where "transmit_publish s i p None = Some r" by blast
      with Publishing j(1) job_step.publish [of s i p None r marshal] show ?thesis by (auto simp: at_job_def)
    next
      case (Starting n)
      have "\<exists>r. start_node s i n = Some r"
        using e [of "s\<lparr>dr_world := (dr_world s)(n := node_Start (dr_world s n))\<rparr>"] by (simp add: start_node_def)
      with Starting j(1) job_step.start [of s i n _ marshal] show ?thesis by (auto simp: at_job_def)
    next
      case (Entering d ts)
      with j(1) job_step.enter [of s i d ts marshal] show ?thesis by (auto simp: at_job_def)
    next
      case (Connecting ts)
      with j(1) job_step.dial [of s i ts None _ marshal] show ?thesis by (auto simp: at_job_def sub_connect_def)
    qed (use j in simp)
    with assms(3) show False by blast
  qed
  then have "running (dr_tc s) = 0" by (simp add: running_zero)
  with assms(1,2) open1 have "close_wait (dr_tc s) \<noteq> None"
    by (cases "tc_closing (dr_tc s)") (auto simp: net_inv_def tc_inv_def close_wait_def)
  then obtain r where "don_stop_wait s = Some r" by (auto simp: don_stop_wait_def)
  with assms(3) job_step.wait [of s r marshal] show False by simp
qed

lemma job_step_don: "job_step marshal s (Ret s') \<Longrightarrow> dr_don s' = dr_don s"
  by (erule job_step.cases)
    (auto simp: run_enter_def run_spawn_def run_done_def start_node_def sub_connect_def sub_next_def sub_error_def
      transmit_prepare_def transmit_publish_def transmit_error_def end_job_def don_stop_wait_def Let_def
      split: if_splits option.splits list.splits sum.splits)

lemma job_steps_work:
  assumes "((\<lambda>s s'. job_step marshal s (Ret s')) ^^ n) s s'" "net_inv (grp s)"
  shows "n + net_work (length (md_nodes (dr_don s))) s' \<le> net_work (length (md_nodes (dr_don s))) s \<and> net_inv (grp s')
    \<and> dr_don s' = dr_don s"
  using assms
proof (induction n arbitrary: s')
  case (Suc n)
  then obtain t where t: "((\<lambda>s s'. job_step marshal s (Ret s')) ^^ n) s t" "job_step marshal t (Ret s')" by auto
  from Suc.IH [OF t(1) Suc.prems(2)] job_step_work [OF t(2)] job_step_don [OF t(2)] net_inv_move [OF job_step_move [OF t(2)]]
  show ?case by fastforce
qed simp

lemma group_move_stop: "group_move x y \<Longrightarrow> tc_stop (fst x) \<Longrightarrow> tc_stop (fst y)"
  by (erule group_move.cases)
    (auto simp: Go_def Close_def close_wait_def elim!: thread_return_SomeE CtxCancel_SomeE split: if_splits)

lemma job_step_stop: "job_step marshal s (Ret s') \<Longrightarrow> tc_stop (dr_tc s) \<Longrightarrow> tc_stop (dr_tc s')"
  using group_move_stop [OF job_step_move] by fastforce

lemma job_runs_inv:
  assumes "job_runs marshal s s'" "net_inv (grp s)" "tc_stop (dr_tc s)"
  shows "net_inv (grp s') \<and> tc_stop (dr_tc s')"
  using assms(1)
proof (induction rule: rtranclp_induct)
  case (step s1 s2)
  with job_step_stop net_inv_move [OF job_step_move] show ?case by blast
qed (use assms in simp)

lemma closed_stuck:
  assumes "net_inv (grp s)" "tc_closing (dr_tc s) = Closed" "net_step ec order marshal s r"
  shows "r = Panic CloseOfClosedChannel"
proof -
  have f: "tc_threads (dr_tc s) ! i = Finished" if "i < length (dr_jobs s)" for i
    using assms(1,2) that by (auto simp: net_inv_def running_zero)
  have e: "\<not> at_job s i j" if "j \<noteq> Ended" for i j
    using assms(1) f that by (auto simp: at_job_def net_inv_def)
  have "CtxCancel (dr_tc s) i = None" for i
    using assms(1) f by (auto simp: net_inv_def CtxCancel_def)
  moreover have "don_stop_wait s = None" using assms(2) by (simp add: don_stop_wait_def close_wait_def)
  moreover have "don_stop s = Panic CloseOfClosedChannel"
    using assms(1,2) by (auto simp: don_stop_def Close_def net_inv_def tc_inv_def)
  ultimately show ?thesis using assms(3) e by (auto elim!: net_step.cases job_step.cases)
qed

text \<open>A network of one node, up to its first transmission.\<close>

definition demo_net0 :: "byte don_net" where
  "demo_net0 = (let (d, w) = newMockedDon (\<lambda>i. 0) ''d'' [0] demo_world in don_run d w 1 [])"

lemma demo_net_run:
  obtains s where "net_runs toy_crypto (\<lambda>_. []) (\<lambda>r. Inr [7]) demo_net0 s"
    "dr_published s = [\<lparr>pr_Topic = ''don.d'', pr_Data = [7]\<rparr>]" "reportsCount (dr_don s) = 1" "\<not> tc_stop (dr_tc s)"
proof -
  let ?step = "net_step toy_crypto (\<lambda>_. []) (\<lambda>r. Inr [7])"
  obtain d w where dw: "newMockedDon (\<lambda>i. 0 :: byte) ''d'' [0] demo_world = (d, w)" by fastforce
  then have d: "newMockedDon (\<lambda>i. 0) ''d'' [0] demo_world = (d, w)" "md_id d = ''d''" "md_nodes d = [0]"
    "md_reports d = []" "dn_Signers (w 0) ''d'' \<noteq> None"
    by (auto simp: newMockedDon_def)
  obtain d' r where r: "nextReport toy_crypto (\<lambda>_. []) w d = Ret (d', r)"
    "md_id d' = ''d''" "md_nodes d' = [0]" "md_reports d' = [r]"
  proof -
    obtain r where "NewMockedSignedReport toy_crypto [] (last_seq d + 1) ''d''
        (bytes_of (''dummy report #'' @ show_int (sint (last_seq d + 1)))) = Inr r" using toy_report by blast
    then have "nextReport toy_crypto (\<lambda>_. []) w d = Ret (d\<lparr>md_reports := [r]\<rparr>, r)"
      using d by (auto simp: nextReport_def Signers_def Let_def)
    from that [OF this] d show thesis by simp
  qed
  define s where "s k = (\<lparr>dr_don = (if k < 4 then d else d'), dr_world = w, dr_tc = (Go ^^ (if k < 2 then 1 else if k = 2 then 2 else if k < 5 then 3 else 4)) NewThreadControl,
      dr_jobs = (if k = 0 then [Entering 1 []] else [Spawning (if k = 1 then [Starting 0, Connecting []] else if k = 2 then [Connecting []]
           else if k = 4 then [Transmitting 0 0] else [])]
         @ (if k < 2 then [] else [Starting 0]) @ (if k < 3 then [] else [Connecting []])
         @ (if k < 5 then [] else if k = 5 then [Transmitting 0 0] else [Publishing \<lparr>pr_Topic = ''don.d'', pr_Data = [7]\<rparr>])),
      dr_heap = (if k < 4 then [] else if k < 6 then [r] else [dn_manipulate (w 0) r]), dr_subscribed = [], dr_published = [], dr_printed = []\<rparr>)" for k :: nat
  have s0: "s 0 = demo_net0" using d by (simp add: s_def demo_net0_def don_run_def)
  note ev = s_def at_job_def set_job_def Let_def eval_nat_numeral
  have p0: "at_job (s 0) 0 (Entering 1 [])" "run_enter (s 0) 0 1 [] = Ret (s 1)"
    using d by (simp_all add: ev run_enter_def launch_jobs_def)
  have p1: "at_job (s 1) 0 (Spawning [Starting 0, Connecting []])" "run_spawn (s 1) 0 (Starting 0) [Connecting []] = Ret (s 2)"
    by (simp_all add: ev run_spawn_def)
  have p2: "at_job (s 2) 0 (Spawning [Connecting []])" "run_spawn (s 2) 0 (Connecting []) [] = Ret (s 3)"
    by (simp_all add: ev run_spawn_def)
  have p3: "at_job (s 3) 0 (Spawning [])" "run_tick toy_crypto (\<lambda>_. []) (s 3) 0 = Ret (s 4)"
    using r by (simp_all add: ev run_tick_def)
  have p4: "at_job (s 4) 0 (Spawning [Transmitting 0 0])" "run_spawn (s 4) 0 (Transmitting 0 0) [] = Ret (s 5)"
    by (simp_all add: ev run_spawn_def)
  have p5: "at_job (s 5) 3 (Transmitting 0 0)" "transmit_prepare (\<lambda>r. Inr [7]) (s 5) 3 0 0 None = Some (Ret (s 6))"
    using r by (simp_all add: ev transmit_prepare_def donTopic_def)
  have "?step (s 0) (Ret (s 1))" "?step (s 1) (Ret (s 2))" "?step (s 2) (Ret (s 3))" "?step (s 3) (Ret (s 4))"
    "?step (s 4) (Ret (s 5))" "?step (s 5) (Ret (s 6))"
    using net_step.job [OF job_step.enter [OF p0(1)]] net_step.job [OF job_step.spawn [OF p1(1)]]
      net_step.job [OF job_step.spawn [OF p2(1)]] net_step.tick [OF p3(1)] net_step.job [OF job_step.spawn [OF p4(1)]]
      net_step.job [OF job_step.prepare [OF p5]]
    by (metis p0(2) p1(2) p2(2) p3(2) p4(2))+
  then have run: "net_runs toy_crypto (\<lambda>_. []) (\<lambda>r. Inr [7]) demo_net0 (s 6)"
    unfolding s0 [symmetric] by (meson rtranclp.rtrancl_into_rtrancl rtranclp.rtrancl_refl)
  obtain s7 where s7: "transmit_publish (s 6) 3 \<lparr>pr_Topic = ''don.d'', pr_Data = [7]\<rparr> None = Some (Ret s7)"
    "dr_published s7 = [\<lparr>pr_Topic = ''don.d'', pr_Data = [7]\<rparr>]" "dr_don s7 = d'" "\<not> tc_stop (dr_tc s7)"
    by (auto simp: s_def transmit_publish_def end_job_def thread_return_def Go_def NewThreadControl_def set_job_def Let_def eval_nat_numeral)
  have "?step (s 6) (Ret s7)" using net_step.job [OF job_step.publish [OF _ s7(1)]] by (simp add: s_def at_job_def)
  with run have "net_runs toy_crypto (\<lambda>_. []) (\<lambda>r. Inr [7]) demo_net0 s7" by (rule rtranclp.rtrancl_into_rtrancl)
  moreover have "reportsCount (dr_don s7) = 1" unfolding s7(3) reportsCount_def r(4) by simp
  ultimately show thesis using s7(2,4) by (intro that)
qed

section \<open>Properties\<close>





end
