(* ===== verification/Stop_Context.thy ===== *)
theory Stop_Context
  imports Thread_Control
begin

text \<open>
  Stop channels and the contexts made from them (\<open>commons/utils/utils.go\<close>), and the group of goroutines of
  \<open>thread_control.go\<close> with its contexts and the goroutines that watch them.  This is the detailed form of
  \<open>Thread_Control\<close>, where the context of a goroutine is one flag: the group here refines that one.
\<close>

section \<open>Contexts\<close>

text \<open>A cancellable context is a cell of its own and its parent; it is done when a cell on the way to the root
  is set.\<close>

datatype go_context = Background | CancelCtx nat go_context

fun ctx_Done :: "bool list \<Rightarrow> go_context \<Rightarrow> bool" where
  "ctx_Done cells Background = False"
| "ctx_Done cells (CancelCtx a parent) = (cells ! a \<or> ctx_Done cells parent)"

text \<open>The stop channel, the cells, and the goroutines of \<open>CtxCancel\<close>: context, cancel function, returned.\<close>

record stop_sys =
  ss_closed :: bool
  ss_cells :: "bool list"
  ss_watchers :: "(go_context \<times> nat \<times> bool) list"

definition ctx_WithCancel :: "go_context \<Rightarrow> stop_sys \<Rightarrow> (go_context \<times> nat) \<times> stop_sys" where
  "ctx_WithCancel parent s =
     (let a = length (ss_cells s) in ((CancelCtx a parent, a), s\<lparr>ss_cells := ss_cells s @ [False]\<rparr>))"

definition ctx_cancel :: "nat \<Rightarrow> stop_sys \<Rightarrow> stop_sys" where
  "ctx_cancel a s = s\<lparr>ss_cells := (ss_cells s)[a := True]\<rparr>"

section \<open>Stop channels\<close>

definition RChan_CtxCancel :: "go_context \<times> nat \<Rightarrow> stop_sys \<Rightarrow> (go_context \<times> nat) \<times> stop_sys" where
  "RChan_CtxCancel cc s =
     (case cc of (ctx, cancel) \<Rightarrow> ((ctx, cancel), s\<lparr>ss_watchers := ss_watchers s @ [(ctx, cancel, False)]\<rparr>))"

definition RChan_Ctx :: "go_context \<Rightarrow> stop_sys \<Rightarrow> (go_context \<times> nat) \<times> stop_sys" where
  "RChan_Ctx ctx s = (let (cc, s) = ctx_WithCancel ctx s in RChan_CtxCancel cc s)"

definition RChan_NewCtx :: "stop_sys \<Rightarrow> (go_context \<times> nat) \<times> stop_sys" where
  "RChan_NewCtx s = RChan_Ctx Background s"

text \<open>The methods of \<open>StopChan\<close> convert the channel to its receiving end.\<close>

definition Chan_CtxCancel :: "go_context \<times> nat \<Rightarrow> stop_sys \<Rightarrow> (go_context \<times> nat) \<times> stop_sys" where
  "Chan_CtxCancel cc s = RChan_CtxCancel cc s"

definition Chan_Ctx :: "go_context \<Rightarrow> stop_sys \<Rightarrow> (go_context \<times> nat) \<times> stop_sys" where
  "Chan_Ctx ctx s = RChan_Ctx ctx s"

definition Chan_NewCtx :: "stop_sys \<Rightarrow> (go_context \<times> nat) \<times> stop_sys" where
  "Chan_NewCtx s = RChan_NewCtx s"

text \<open>The two branches of the \<open>select\<close> in the goroutine of \<open>CtxCancel\<close>.\<close>

definition watch_stop :: "stop_sys \<Rightarrow> nat \<Rightarrow> stop_sys option" where
  "watch_stop s w =
     (if w < length (ss_watchers s) then
        (case ss_watchers s ! w of (ctx, cancel, returned) \<Rightarrow>
           if \<not> returned \<and> ss_closed s
           then Some (ctx_cancel cancel (s\<lparr>ss_watchers := (ss_watchers s)[w := (ctx, cancel, True)]\<rparr>))
           else None)
      else None)"

definition watch_done :: "stop_sys \<Rightarrow> nat \<Rightarrow> stop_sys option" where
  "watch_done s w =
     (if w < length (ss_watchers s) then
        (case ss_watchers s ! w of (ctx, cancel, returned) \<Rightarrow>
           if \<not> returned \<and> ctx_Done (ss_cells s) ctx
           then Some (s\<lparr>ss_watchers := (ss_watchers s)[w := (ctx, cancel, True)]\<rparr>)
           else None)
      else None)"

section \<open>The group in detail\<close>

text \<open>A goroutine before \<open>NewCtx\<close>, in its function with context and cancel function, or gone.\<close>

datatype fn_state = Spawned | Inside go_context nat | Left

record group =
  gr_wg :: nat
  gr_stop :: stop_sys
  gr_fns :: "fn_state list"
  gr_closing :: closing

definition new_group :: group where
  "new_group = \<lparr>gr_wg = 0, gr_stop = \<lparr>ss_closed = False, ss_cells = [], ss_watchers = []\<rparr>, gr_fns = [], gr_closing = Open\<rparr>"

definition group_Go :: "group \<Rightarrow> group" where
  "group_Go g = g\<lparr>gr_wg := Suc (gr_wg g), gr_fns := gr_fns g @ [Spawned]\<rparr>"

definition group_begin :: "group \<Rightarrow> nat \<Rightarrow> group option" where
  "group_begin g i =
     (if i < length (gr_fns g) \<and> gr_fns g ! i = Spawned
      then (let ((ctx, cancel), s) = Chan_NewCtx (gr_stop g)
            in Some (g\<lparr>gr_stop := s, gr_fns := (gr_fns g)[i := Inside ctx cancel]\<rparr>))
      else None)"

text \<open>The function returns: the deferred \<open>cancel\<close>, then the deferred \<open>Done\<close>.\<close>

definition group_return :: "group \<Rightarrow> nat \<Rightarrow> group option" where
  "group_return g i =
     (if i < length (gr_fns g) then
        (case gr_fns g ! i of
           Inside ctx cancel \<Rightarrow> Some (g\<lparr>gr_stop := ctx_cancel cancel (gr_stop g), gr_fns := (gr_fns g)[i := Left],
                                        gr_wg := gr_wg g - 1\<rparr>)
         | _ \<Rightarrow> None)
      else None)"

definition group_Close :: "group \<Rightarrow> group go" where
  "group_Close g =
     (if ss_closed (gr_stop g) then Panic CloseOfClosedChannel
      else Ret (g\<lparr>gr_stop := (gr_stop g)\<lparr>ss_closed := True\<rparr>, gr_closing := Waiting\<rparr>))"

definition group_wait :: "group \<Rightarrow> group option" where
  "group_wait g = (if gr_closing g = Waiting \<and> gr_wg g = 0 then Some (g\<lparr>gr_closing := Closed\<rparr>) else None)"

inductive group_step :: "group \<Rightarrow> group \<Rightarrow> bool" where
  go: "group_step g (group_Go g)"
| enter: "group_begin g i = Some g' \<Longrightarrow> group_step g g'"
| leave: "group_return g i = Some g' \<Longrightarrow> group_step g g'"
| close: "group_Close g = Ret g' \<Longrightarrow> group_step g g'"
| wait: "group_wait g = Some g' \<Longrightarrow> group_step g g'"
| stopped: "watch_stop (gr_stop g) w = Some s \<Longrightarrow> group_step g (g\<lparr>gr_stop := s\<rparr>)"
| unwatch: "watch_done (gr_stop g) w = Some s \<Longrightarrow> group_step g (g\<lparr>gr_stop := s\<rparr>)"

section \<open>The group as flags\<close>

fun fn_thread :: "bool list \<Rightarrow> fn_state \<Rightarrow> thread" where
  "fn_thread cells Spawned = Live False"
| "fn_thread cells (Inside ctx a) = Live (ctx_Done cells ctx)"
| "fn_thread cells Left = Finished"

definition group_view :: "group \<Rightarrow> threadControl" where
  "group_view g = \<lparr>tc_threadsWG = gr_wg g, tc_stop = ss_closed (gr_stop g),
     tc_threads = map (fn_thread (ss_cells (gr_stop g))) (gr_fns g), tc_closing = gr_closing g\<rparr>"

text \<open>Each function has a cell of its own, and a watcher that cancels that cell.\<close>

definition fns_ok :: "group \<Rightarrow> bool" where
  "fns_ok g \<longleftrightarrow> (\<forall>i<length (gr_fns g). \<forall>ctx a. gr_fns g ! i = Inside ctx a \<longrightarrow>
     ctx = CancelCtx a Background \<and> a < length (ss_cells (gr_stop g))
     \<and> (\<forall>j<length (gr_fns g). \<forall>ctx'. gr_fns g ! j = Inside ctx' a \<longrightarrow> j = i))"

definition watchers_ok :: "group \<Rightarrow> bool" where
  "watchers_ok g \<longleftrightarrow> (\<forall>w<length (ss_watchers (gr_stop g)). case ss_watchers (gr_stop g) ! w of (ctx, a, r) \<Rightarrow>
       ctx = CancelCtx a Background \<and> a < length (ss_cells (gr_stop g)) \<and> (r \<longrightarrow> ss_cells (gr_stop g) ! a))
     \<and> (\<forall>i<length (gr_fns g). \<forall>ctx a. gr_fns g ! i = Inside ctx a \<longrightarrow>
          (\<exists>w<length (ss_watchers (gr_stop g)). \<exists>r. ss_watchers (gr_stop g) ! w = (ctx, a, r)))"

definition group_inv :: "group \<Rightarrow> bool" where
  "group_inv g \<longleftrightarrow> fns_ok g \<and> watchers_ok g"

lemma group_inv_new: "group_inv new_group"
  by (simp add: group_inv_def fns_ok_def watchers_ok_def new_group_def)

lemma group_view_new: "group_view new_group = NewThreadControl"
  by (simp add: group_view_def new_group_def NewThreadControl_def)

lemma fns_okD:
  assumes "fns_ok g" "i < length (gr_fns g)" "gr_fns g ! i = Inside ctx a"
  shows "ctx = CancelCtx a Background" "a < length (ss_cells (gr_stop g))"
    "\<lbrakk>j < length (gr_fns g); gr_fns g ! j = Inside ctx' a\<rbrakk> \<Longrightarrow> j = i"
  using assms unfolding fns_ok_def by blast+

lemma fns_ok_frame:
  "gr_fns g' = gr_fns g \<Longrightarrow> length (ss_cells (gr_stop g')) = length (ss_cells (gr_stop g)) \<Longrightarrow> fns_ok g' = fns_ok g"
  by (simp only: fns_ok_def)

lemma watchers_okD:
  assumes "watchers_ok g" "w < length (ss_watchers (gr_stop g))" "ss_watchers (gr_stop g) ! w = (ctx, a, r)"
  shows "ctx = CancelCtx a Background" "a < length (ss_cells (gr_stop g))" "r \<Longrightarrow> ss_cells (gr_stop g) ! a"
  using assms unfolding watchers_ok_def by fastforce+

lemma watchers_ok_fn:
  assumes "watchers_ok g" "i < length (gr_fns g)" "gr_fns g ! i = Inside ctx a"
  obtains w r where "w < length (ss_watchers (gr_stop g))" "ss_watchers (gr_stop g) ! w = (ctx, a, r)"
  using assms unfolding watchers_ok_def by blast

text \<open>Setting a cell changes the flag of the one function that has it.\<close>

lemma thread_other_cell:
  assumes "fns_ok g" "j < length (gr_fns g)" "\<And>ctx. gr_fns g ! j \<noteq> Inside ctx a"
  shows "fn_thread ((ss_cells (gr_stop g))[a := True]) (gr_fns g ! j) = fn_thread (ss_cells (gr_stop g)) (gr_fns g ! j)"
proof (cases "gr_fns g ! j")
  case (Inside ctx b)
  with assms(3) have "b \<noteq> a" by auto
  with Inside fns_okD(1) [OF assms(1,2) Inside] show ?thesis by simp
qed simp_all

lemma view_cell_none:
  assumes "fns_ok g" "\<And>i ctx. i < length (gr_fns g) \<Longrightarrow> gr_fns g ! i \<noteq> Inside ctx a"
  shows "map (fn_thread ((ss_cells (gr_stop g))[a := True])) (gr_fns g)
    = map (fn_thread (ss_cells (gr_stop g))) (gr_fns g)"
  using thread_other_cell [OF assms(1)] assms(2) by (intro nth_equalityI) simp_all

lemma view_cell_one:
  assumes "fns_ok g" "i < length (gr_fns g)" "gr_fns g ! i = Inside ctx a"
  shows "map (fn_thread ((ss_cells (gr_stop g))[a := True])) (gr_fns g)
    = (map (fn_thread (ss_cells (gr_stop g))) (gr_fns g))[i := Live True]"
proof (intro nth_equalityI)
  fix j assume "j < length (map (fn_thread ((ss_cells (gr_stop g))[a := True])) (gr_fns g))"
  then have j: "j < length (gr_fns g)" by simp
  note i = fns_okD [OF assms]
  show "map (fn_thread ((ss_cells (gr_stop g))[a := True])) (gr_fns g) ! j
      = (map (fn_thread (ss_cells (gr_stop g))) (gr_fns g))[i := Live True] ! j"
  proof (cases "j = i")
    case True
    with j assms(3) i(1,2) show ?thesis by simp
  next
    case False
    with i(3) [OF j] have "\<And>ctx. gr_fns g ! j \<noteq> Inside ctx a" by blast
    from thread_other_cell [OF assms(1) j this] False j show ?thesis by simp
  qed
qed simp

lemma thread_new_cell:
  assumes "fns_ok g" "j < length (gr_fns g)"
  shows "fn_thread (ss_cells (gr_stop g) @ [False]) (gr_fns g ! j) = fn_thread (ss_cells (gr_stop g)) (gr_fns g ! j)"
  using fns_okD(1,2) [OF assms] by (cases "gr_fns g ! j") (auto simp: nth_append)

lemmas chan_defs = Chan_NewCtx_def RChan_NewCtx_def RChan_Ctx_def RChan_CtxCancel_def ctx_WithCancel_def ctx_cancel_def

text \<open>Every step keeps the invariant and is a step of the flags, or changes none.\<close>

lemma fns_okI:
  assumes "\<And>i ctx a. i < length (gr_fns g) \<Longrightarrow> gr_fns g ! i = Inside ctx a \<Longrightarrow>
      ctx = CancelCtx a Background \<and> a < length (ss_cells (gr_stop g))"
    and "\<And>i j ctx ctx' a. \<lbrakk>i < length (gr_fns g); j < length (gr_fns g); gr_fns g ! i = Inside ctx a; gr_fns g ! j = Inside ctx' a\<rbrakk>
      \<Longrightarrow> j = i"
  shows "fns_ok g"
  using assms unfolding fns_ok_def by blast

lemma watchers_okI:
  assumes "\<And>w ctx a r. w < length (ss_watchers (gr_stop g)) \<Longrightarrow> ss_watchers (gr_stop g) ! w = (ctx, a, r) \<Longrightarrow>
      ctx = CancelCtx a Background \<and> a < length (ss_cells (gr_stop g)) \<and> (r \<longrightarrow> ss_cells (gr_stop g) ! a)"
    and "\<And>i ctx a. i < length (gr_fns g) \<Longrightarrow> gr_fns g ! i = Inside ctx a \<Longrightarrow>
      \<exists>w<length (ss_watchers (gr_stop g)). \<exists>r. ss_watchers (gr_stop g) ! w = (ctx, a, r)"
  shows "watchers_ok g"
  using assms unfolding watchers_ok_def by fastforce

lemma group_begin_sim:
  assumes "group_begin g i = Some g'" "group_inv g"
  shows "group_inv g' \<and> group_view g' = group_view g"
proof -
  let ?a = "length (ss_cells (gr_stop g))"
  let ?ctx = "CancelCtx ?a Background"
  from assms(1) have i: "i < length (gr_fns g)" "gr_fns g ! i = Spawned"
    and g': "gr_stop g' = (gr_stop g)\<lparr>ss_cells := ss_cells (gr_stop g) @ [False],
        ss_watchers := ss_watchers (gr_stop g) @ [(?ctx, ?a, False)]\<rparr>"
      "gr_fns g' = (gr_fns g)[i := Inside ?ctx ?a]" "gr_wg g' = gr_wg g" "gr_closing g' = gr_closing g"
    by (auto simp: group_begin_def chan_defs Let_def split: if_splits)
  from assms(2) have ok: "fns_ok g" "watchers_ok g" by (simp_all add: group_inv_def)
  note f = fns_okD [OF ok(1)] and w = watchers_okD [OF ok(2)]
  have old: "gr_fns g ! j = Inside ctx b" if "gr_fns g' ! j = Inside ctx b" "j \<noteq> i" for j ctx b
    using that by (simp add: g')
  have new: "ctx = ?ctx \<and> b = ?a" if "gr_fns g' ! i = Inside ctx b" for ctx b using that i by (auto simp: g')
  have len: "length (gr_fns g') = length (gr_fns g)" by (simp add: g')
  have "fns_ok g'"
  proof (rule fns_okI)
    fix j ctx b assume j: "j < length (gr_fns g')" "gr_fns g' ! j = Inside ctx b"
    show "ctx = CancelCtx b Background \<and> b < length (ss_cells (gr_stop g'))"
    proof (cases "j = i")
      case True
      with new j(2) show ?thesis by (simp add: g'(1))
    next
      case False
      with f(1,2) old j len show ?thesis by (fastforce simp: g'(1))
    qed
    fix k ctx' assume k: "k < length (gr_fns g')" "gr_fns g' ! k = Inside ctx' b"
    show "k = j"
    proof (rule ccontr)
      assume "k \<noteq> j"
      then consider "j = i" "k \<noteq> i" | "k = i" "j \<noteq> i" | "j \<noteq> i" "k \<noteq> i" by blast
      then show False
        using new [of ctx b] new [of ctx' b] old [OF j(2)] old [OF k(2)] f(2) [of j ctx b] f(2) [of k ctx' b]
          f(3) [of j ctx b k ctx'] j k len \<open>k \<noteq> j\<close> by cases auto
    qed
  qed
  moreover have "watchers_ok g'"
  proof (rule watchers_okI)
    fix v ctx b r assume "v < length (ss_watchers (gr_stop g'))" "ss_watchers (gr_stop g') ! v = (ctx, b, r)"
    then show "ctx = CancelCtx b Background \<and> b < length (ss_cells (gr_stop g')) \<and> (r \<longrightarrow> ss_cells (gr_stop g') ! b)"
      using w [of v ctx b r] by (cases "v < length (ss_watchers (gr_stop g))") (auto simp: g' nth_append less_Suc_eq)
  next
    fix j ctx b assume j: "j < length (gr_fns g')" "gr_fns g' ! j = Inside ctx b"
    show "\<exists>v<length (ss_watchers (gr_stop g')). \<exists>r. ss_watchers (gr_stop g') ! v = (ctx, b, r)"
    proof (cases "j = i")
      case True
      with new j show ?thesis by (intro exI [of _ "length (ss_watchers (gr_stop g))"]) (auto simp: g')
    next
      case False
      with old j len obtain v r where "v < length (ss_watchers (gr_stop g))" "ss_watchers (gr_stop g) ! v = (ctx, b, r)"
        using watchers_ok_fn [OF ok(2)] by metis
      then show ?thesis by (intro exI [of _ v]) (auto simp: g' nth_append)
    qed
  qed
  moreover have "group_view g' = group_view g"
    using thread_new_cell [OF ok(1)] i
    by (auto simp: group_view_def g' nth_list_update nth_append intro!: nth_equalityI)
  ultimately show ?thesis by (simp add: group_inv_def)
qed

text \<open>Setting a cell, with or without a function that leaves.\<close>

lemma group_cell:
  assumes "group_inv g" "w < length (ss_watchers (gr_stop g))" "ss_watchers (gr_stop g) ! w = (ctx, a, r)"
  shows "group_inv (g\<lparr>gr_stop := ctx_cancel a ((gr_stop g)\<lparr>ss_watchers := (ss_watchers (gr_stop g))[w := (ctx, a, True)]\<rparr>)\<rparr>)"
    (is "group_inv ?g")
proof -
  have ok: "fns_ok g" "watchers_ok g" using assms(1) by (simp_all add: group_inv_def)
  have "fns_ok ?g" using ok(1) fns_ok_frame [of ?g g] by (simp add: ctx_cancel_def)
  moreover have "watchers_ok ?g"
  proof (rule watchers_okI)
    fix v ctx' b q assume "v < length (ss_watchers (gr_stop ?g))" "ss_watchers (gr_stop ?g) ! v = (ctx', b, q)"
    then show "ctx' = CancelCtx b Background \<and> b < length (ss_cells (gr_stop ?g)) \<and> (q \<longrightarrow> ss_cells (gr_stop ?g) ! b)"
      using watchers_okD [OF ok(2), of v ctx' b q] watchers_okD(1,2) [OF ok(2) assms(2,3)]
      by (cases "v = w") (auto simp: ctx_cancel_def nth_list_update)
  next
    fix i ctx' b assume "i < length (gr_fns ?g)" "gr_fns ?g ! i = Inside ctx' b"
    then have i: "i < length (gr_fns g)" "gr_fns g ! i = Inside ctx' b" by simp_all
    obtain v q where v: "v < length (ss_watchers (gr_stop g))" "ss_watchers (gr_stop g) ! v = (ctx', b, q)"
      by (rule watchers_ok_fn [OF ok(2) i])
    show "\<exists>v<length (ss_watchers (gr_stop ?g)). \<exists>q. ss_watchers (gr_stop ?g) ! v = (ctx', b, q)"
    proof (cases "v = w")
      case True
      with v assms(3) show ?thesis by (intro exI [of _ w]) (auto simp: ctx_cancel_def)
    next
      case False
      with v show ?thesis by (intro exI [of _ v]) (simp add: ctx_cancel_def)
    qed
  qed
  ultimately show ?thesis by (simp add: group_inv_def)
qed

lemma watch_stop_sim:
  assumes "watch_stop (gr_stop g) w = Some s" "group_inv g"
  shows "group_inv (g\<lparr>gr_stop := s\<rparr>)
    \<and> (group_view (g\<lparr>gr_stop := s\<rparr>) = group_view g \<or> tc_step (group_view g) (group_view (g\<lparr>gr_stop := s\<rparr>)))"
proof -
  obtain ctx a r where w: "w < length (ss_watchers (gr_stop g))" "ss_watchers (gr_stop g) ! w = (ctx, a, r)"
    "ss_closed (gr_stop g)" "s = ctx_cancel a ((gr_stop g)\<lparr>ss_watchers := (ss_watchers (gr_stop g))[w := (ctx, a, True)]\<rparr>)"
    using assms(1) by (auto simp: watch_stop_def split: if_splits prod.splits)
  have ok: "fns_ok g" using assms(2) by (simp add: group_inv_def)
  have v: "group_view (g\<lparr>gr_stop := s\<rparr>) = (group_view g)\<lparr>tc_threads :=
      map (fn_thread ((ss_cells (gr_stop g))[a := True])) (gr_fns g)\<rparr>"
    by (simp add: group_view_def w(4) ctx_cancel_def)
  have "group_view (g\<lparr>gr_stop := s\<rparr>) = group_view g \<or> tc_step (group_view g) (group_view (g\<lparr>gr_stop := s\<rparr>))"
  proof (cases "\<exists>i ctx'. i < length (gr_fns g) \<and> gr_fns g ! i = Inside ctx' a")
    case True
    then obtain i ctx' where i: "i < length (gr_fns g)" "gr_fns g ! i = Inside ctx' a" by blast
    have t: "tc_threads (group_view g) ! i = Live (ss_cells (gr_stop g) ! a)"
      using i fns_okD(1) [OF ok i] by (simp add: group_view_def)
    have v': "group_view (g\<lparr>gr_stop := s\<rparr>) = (group_view g)\<lparr>tc_threads := (tc_threads (group_view g))[i := Live True]\<rparr>"
      unfolding v view_cell_one [OF ok i] by (simp add: group_view_def)
    show ?thesis
    proof (cases "ss_cells (gr_stop g) ! a")
      case True
      with t have "(tc_threads (group_view g))[i := Live True] = tc_threads (group_view g)"
        by (metis list_update_id)
      then show ?thesis unfolding v' by simp
    next
      case False
      with t i w(3) have "CtxCancel (group_view g) i = Some (group_view (g\<lparr>gr_stop := s\<rparr>))"
        unfolding v' by (simp add: CtxCancel_def group_view_def)
      then show ?thesis by (blast intro: tc_step.cancel)
    qed
  next
    case False
    then have "map (fn_thread ((ss_cells (gr_stop g))[a := True])) (gr_fns g)
        = map (fn_thread (ss_cells (gr_stop g))) (gr_fns g)" by (intro view_cell_none [OF ok]) blast
    then show ?thesis unfolding v by (simp add: group_view_def)
  qed
  with group_cell [OF assms(2) w(1,2)] w(4) show ?thesis by simp
qed

lemma watch_done_sim:
  assumes "watch_done (gr_stop g) w = Some s" "group_inv g"
  shows "group_inv (g\<lparr>gr_stop := s\<rparr>) \<and> group_view (g\<lparr>gr_stop := s\<rparr>) = group_view g"
proof -
  obtain ctx a r where w: "w < length (ss_watchers (gr_stop g))" "ss_watchers (gr_stop g) ! w = (ctx, a, r)"
    "ctx_Done (ss_cells (gr_stop g)) ctx" "s = (gr_stop g)\<lparr>ss_watchers := (ss_watchers (gr_stop g))[w := (ctx, a, True)]\<rparr>"
    using assms(1) by (auto simp: watch_done_def split: if_splits prod.splits)
  have ok: "watchers_ok g" using assms(2) by (simp add: group_inv_def)
  from w(3) watchers_okD(1) [OF ok w(1,2)] have "ss_cells (gr_stop g) ! a" by simp
  then have "(ss_cells (gr_stop g))[a := True] = ss_cells (gr_stop g)" by (metis (full_types) list_update_id)
  then have "s = ctx_cancel a ((gr_stop g)\<lparr>ss_watchers := (ss_watchers (gr_stop g))[w := (ctx, a, True)]\<rparr>)"
    by (simp add: w(4) ctx_cancel_def)
  with group_cell [OF assms(2) w(1,2)] show ?thesis by (simp add: group_view_def w(4))
qed

lemma group_return_sim:
  assumes "group_return g i = Some g'" "group_inv g"
  shows "group_inv g' \<and> tc_step (group_view g) (group_view g')"
proof -
  obtain ctx a where i: "i < length (gr_fns g)" "gr_fns g ! i = Inside ctx a"
    and g': "g' = g\<lparr>gr_stop := ctx_cancel a (gr_stop g), gr_fns := (gr_fns g)[i := Left], gr_wg := gr_wg g - 1\<rparr>"
    using assms(1) by (auto simp: group_return_def split: if_splits fn_state.splits)
  have ok: "fns_ok g" "watchers_ok g" using assms(2) by (simp_all add: group_inv_def)
  obtain w r where w: "w < length (ss_watchers (gr_stop g))" "ss_watchers (gr_stop g) ! w = (ctx, a, r)"
    by (rule watchers_ok_fn [OF ok(2) i])
  have old: "gr_fns g ! j = Inside c b" if "gr_fns g' ! j = Inside c b" "j < length (gr_fns g)" for j c b
    using that i(1) by (cases "j = i") (simp_all add: g')
  have fr: "length (gr_fns g') = length (gr_fns g)" "length (ss_cells (gr_stop g')) = length (ss_cells (gr_stop g))"
    "ss_watchers (gr_stop g') = ss_watchers (gr_stop g)" by (simp_all add: g' ctx_cancel_def)
  have "fns_ok g'"
  proof (rule fns_okI)
    fix j c b assume "j < length (gr_fns g')" "gr_fns g' ! j = Inside c b"
    then have j: "j < length (gr_fns g)" "gr_fns g ! j = Inside c b" using old fr by auto
    from fns_okD(1,2) [OF ok(1) j] show "c = CancelCtx b Background \<and> b < length (ss_cells (gr_stop g'))" by (simp add: fr)
    fix k c' assume "k < length (gr_fns g')" "gr_fns g' ! k = Inside c' b"
    then have "k < length (gr_fns g)" "gr_fns g ! k = Inside c' b" using old fr by auto
    then show "k = j" by (rule fns_okD(3) [OF ok(1) j])
  qed
  moreover have "watchers_ok g'"
  proof (rule watchers_okI)
    fix v c b q assume "v < length (ss_watchers (gr_stop g'))" "ss_watchers (gr_stop g') ! v = (c, b, q)"
    then have v: "v < length (ss_watchers (gr_stop g))" "ss_watchers (gr_stop g) ! v = (c, b, q)" by (simp_all add: fr)
    show "c = CancelCtx b Background \<and> b < length (ss_cells (gr_stop g')) \<and> (q \<longrightarrow> ss_cells (gr_stop g') ! b)"
      using watchers_okD [OF ok(2) v] by (cases "b = a") (simp_all add: g' ctx_cancel_def)
  next
    fix j c b assume j: "j < length (gr_fns g')" "gr_fns g' ! j = Inside c b"
    then obtain v q where "v < length (ss_watchers (gr_stop g))" "ss_watchers (gr_stop g) ! v = (c, b, q)"
      using watchers_ok_fn [OF ok(2)] old fr(1) by metis
    then show "\<exists>v<length (ss_watchers (gr_stop g')). \<exists>q. ss_watchers (gr_stop g') ! v = (c, b, q)"
      by (auto simp: fr)
  qed
  moreover have "thread_return (group_view g) i = Some (group_view g')"
  proof -
    have "map (fn_thread ((ss_cells (gr_stop g))[a := True])) ((gr_fns g)[i := Left])
        = (map (fn_thread (ss_cells (gr_stop g))) (gr_fns g))[i := Finished]"
      unfolding map_update view_cell_one [OF ok(1) i] by simp
    with i show ?thesis by (simp add: thread_return_def group_view_def g' ctx_cancel_def)
  qed
  ultimately show ?thesis by (auto simp: group_inv_def intro: tc_step.ret)
qed

lemma group_step_sim:
  assumes "group_step g g'" "group_inv g"
  shows "group_inv g' \<and> (group_view g' = group_view g \<or> tc_step (group_view g) (group_view g'))"
  using assms(1)
proof (cases rule: group_step.cases)
  case go
  have ok: "fns_ok g" "watchers_ok g" using assms(2) by (simp_all add: group_inv_def)
  have old: "j < length (gr_fns g) \<and> gr_fns g ! j = Inside c b" if "gr_fns g' ! j = Inside c b" "j < length (gr_fns g')" for j c b
    using that by (cases "j < length (gr_fns g)") (auto simp: go group_Go_def nth_append less_Suc_eq)
  have st: "gr_stop g' = gr_stop g" by (simp add: go group_Go_def)
  have "fns_ok g'"
    by (rule fns_okI) (use old fns_okD [OF ok(1)] st in \<open>metis\<close>)+
  moreover have "watchers_ok g'"
    by (rule watchers_okI) (use old watchers_okD [OF ok(2)] watchers_ok_fn [OF ok(2)] st in \<open>metis\<close>)+
  moreover have "group_view g' = Go (group_view g)" by (simp add: go group_Go_def Go_def group_view_def)
  ultimately show ?thesis by (auto simp: group_inv_def intro: tc_step.start)
next
  case (close)
  then have g': "g' = g\<lparr>gr_stop := (gr_stop g)\<lparr>ss_closed := True\<rparr>, gr_closing := closing.Waiting\<rparr>" "\<not> ss_closed (gr_stop g)"
    by (auto simp: group_Close_def split: if_splits)
  then have "Close (group_view g) = Ret (group_view g')" by (simp add: Close_def group_view_def)
  moreover have "fns_ok g'" using assms(2) fns_ok_frame [of g' g] by (simp add: group_inv_def g')
  moreover have "watchers_ok g'" using assms(2) by (simp add: group_inv_def watchers_ok_def g')
  ultimately show ?thesis by (auto simp: group_inv_def intro: tc_step.close)
next
  case wait
  then have g': "g' = g\<lparr>gr_closing := Closed\<rparr>" "gr_closing g = closing.Waiting" "gr_wg g = 0"
    by (auto simp: group_wait_def split: if_splits)
  then have "close_wait (group_view g) = Some (group_view g')" by (simp add: close_wait_def group_view_def)
  moreover have "fns_ok g'" using assms(2) fns_ok_frame [of g' g] by (simp add: group_inv_def g')
  moreover have "watchers_ok g'" using assms(2) by (simp add: group_inv_def watchers_ok_def g')
  ultimately show ?thesis by (auto simp: group_inv_def intro: tc_step.wait)
qed (use assms(2) group_begin_sim group_return_sim watch_stop_sim watch_done_sim in blast)+

lemma group_reachable:
  assumes "group_step\<^sup>*\<^sup>* new_group g"
  shows "group_inv g \<and> tc_step\<^sup>*\<^sup>* NewThreadControl (group_view g)"
  using assms
proof (induction rule: rtranclp_induct)
  case base
  show ?case by (simp add: group_inv_new group_view_new)
next
  case (step g g')
  with group_step_sim [OF step.hyps(2)] show ?case by (metis rtranclp.rtrancl_into_rtrancl)
qed

section \<open>Properties\<close>

text \<open>C21: a group of goroutines with its contexts and watchers refines the group of flags.  In every run, every step
  is a step of the flags or invisible there; the context of a function that runs is done only if the stop
  channel is closed; and when the channel is closed and no watcher can go on, all of them have returned and
  every context is done, so no function misses the stop and no watcher is left behind.  Until then the watcher
  of a live context waits.\<close>

theorem stop_reaches_contexts:
  assumes "group_step\<^sup>*\<^sup>* new_group g"
  shows "tc_step\<^sup>*\<^sup>* NewThreadControl (group_view g)
    \<and> (\<forall>g'. group_step g g' \<longrightarrow> group_view g' = group_view g \<or> tc_step (group_view g) (group_view g'))
    \<and> (\<forall>i<length (gr_fns g). \<forall>ctx a. gr_fns g ! i = Inside ctx a \<longrightarrow>
        (ctx_Done (ss_cells (gr_stop g)) ctx \<longrightarrow> ss_closed (gr_stop g))
      \<and> (ss_closed (gr_stop g) \<longrightarrow> (\<forall>w. watch_stop (gr_stop g) w = None) \<longrightarrow> ctx_Done (ss_cells (gr_stop g)) ctx))
    \<and> (ss_closed (gr_stop g) \<longrightarrow> (\<forall>w. watch_stop (gr_stop g) w = None) \<longrightarrow>
        (\<forall>(ctx, a, returned) \<in> set (ss_watchers (gr_stop g)). returned))"
proof -
  from group_reachable [OF assms] have inv: "group_inv g" and run: "tc_step\<^sup>*\<^sup>* NewThreadControl (group_view g)"
    by simp_all
  have ok: "fns_ok g" "watchers_ok g" using inv by (simp_all add: group_inv_def)
  have ret: r if "ss_closed (gr_stop g)" "\<forall>w. watch_stop (gr_stop g) w = None"
    "w < length (ss_watchers (gr_stop g))" "ss_watchers (gr_stop g) ! w = (ctx, a, r)" for w ctx a r
    using that by (auto simp: watch_stop_def split: if_splits)
  have "ss_closed (gr_stop g)" if "i < length (gr_fns g)" "gr_fns g ! i = Inside ctx a" "ctx_Done (ss_cells (gr_stop g)) ctx" for i ctx a
  proof -
    have "Live True \<in> set (tc_threads (group_view g))" using that by (force simp: group_view_def in_set_conv_nth)
    then show ?thesis using tc_reachable_inv [OF run] by (simp add: tc_inv_def group_view_def)
  qed
  moreover have "ctx_Done (ss_cells (gr_stop g)) ctx" if i: "i < length (gr_fns g)" "gr_fns g ! i = Inside ctx a"
    and st: "ss_closed (gr_stop g)" "\<forall>w. watch_stop (gr_stop g) w = None" for i ctx a
  proof -
    obtain w r where w: "w < length (ss_watchers (gr_stop g))" "ss_watchers (gr_stop g) ! w = (ctx, a, r)"
      by (rule watchers_ok_fn [OF ok(2) i])
    with ret [OF st w] watchers_okD(3) [OF ok(2) w] fns_okD(1) [OF ok(1) i] show ?thesis by simp
  qed
  moreover have "\<forall>(ctx, a, returned) \<in> set (ss_watchers (gr_stop g)). returned"
    if "ss_closed (gr_stop g)" "\<forall>w. watch_stop (gr_stop g) w = None"
    using ret [OF that] by (fastforce simp: in_set_conv_nth)
  ultimately show ?thesis using run group_step_sim [OF _ inv] by blast
qed

lemmas group_eval = new_group_def group_Go_def group_begin_def group_Close_def watch_stop_def chan_defs Let_def

theorem stop_reaches_contexts_witness:
  "\<exists>g1 g2 s. group_begin (group_Go new_group) 0 = Some g1 \<and> gr_fns g1 = [Inside (CancelCtx 0 Background) 0]
    \<and> \<not> ctx_Done (ss_cells (gr_stop g1)) (CancelCtx 0 Background)
    \<and> group_Close g1 = Ret g2 \<and> watch_stop (gr_stop g2) 0 = Some s \<and> ctx_Done (ss_cells s) (CancelCtx 0 Background)"
proof -
  obtain g1 g2 s where g: "group_begin (group_Go new_group) 0 = Some g1" "gr_fns g1 = [Inside (CancelCtx 0 Background) 0]"
      "group_Close g1 = Ret g2" "watch_stop (gr_stop g2) 0 = Some s" "gr_fns g2 = gr_fns g1" "ss_closed (gr_stop g2)"
      "\<not> ss_closed (gr_stop g1)" "ss_closed s" "ss_watchers s = [(CancelCtx 0 Background, 0, True)]"
    by (simp add: group_eval)
  have r1: "group_step\<^sup>*\<^sup>* new_group g1" 
    using group_step.go group_step.enter [OF g(1)] by (rule rtranclp_two)
  have r2: "group_step\<^sup>*\<^sup>* new_group (g2\<lparr>gr_stop := s\<rparr>)"
    using r1 group_step.close [OF g(3)] group_step.stopped [OF g(4)] by (meson rtranclp.rtrancl_into_rtrancl)
  have d1: "\<not> ctx_Done (ss_cells (gr_stop g1)) (CancelCtx 0 Background)"
    using stop_reaches_contexts [OF r1] g(2,7) by simp
  have "watch_stop s w = None" for w using g(9) by (simp add: watch_stop_def)
  then have "ctx_Done (ss_cells s) (CancelCtx 0 Background)"
    using stop_reaches_contexts [OF r2] g(2,5,8) by simp
  with g d1 show ?thesis by blast
qed

end
