(* ===== verification/Cmd_Exit.thy ===== *)
theory Cmd_Exit
  imports Cmd_Boot
begin

text \<open>
  The two ends of the command (\<open>cmd/pmq/main.go\<close>, \<open>ListenGrpc\<close> in \<open>api/grpc/server.go\<close>): its flags, and what happens
  from the call of \<open>ListenGrpc\<close> to the return of the process, with the deferred calls, while the goroutines
  of the controller go on.
\<close>

section \<open>Flags\<close>

text \<open>The flags that the action declares; a value is an integer or a string.\<close>

record cli_flag =
  fl_Name :: string
  fl_EnvVar :: string
  fl_Value :: "int + string"

definition cmd_flags :: "cli_flag list" where
  "cmd_flags =
     [\<lparr>fl_Name = ''grpc-port'', fl_EnvVar = ''GRPC_PORT'', fl_Value = Inl 8001\<rparr>,
      \<lparr>fl_Name = ''config'', fl_EnvVar = ''P2PMQ_CONFIG'', fl_Value = Inr ''/p2pmq/p2pmq.json''\<rparr>,
      \<lparr>fl_Name = ''loglevel'', fl_EnvVar = ''P2PMQ_LOGLEVEL'', fl_Value = Inr ''info''\<rparr>,
      \<lparr>fl_Name = ''libp2p-loglevel'', fl_EnvVar = ''LIBP2P_LOGLEVEL'', fl_Value = Inr ''info''\<rparr>]"

text \<open>
  The flag library: it reads the arguments and the environment against the declared flags, and gives the
  action the values by name, or fails.
\<close>

record cli_context =
  cx_Int :: "string \<Rightarrow> int"
  cx_String :: "string \<Rightarrow> string"

definition app_run :: "(cli_flag list \<Rightarrow> string list \<Rightarrow> string + cli_context) \<Rightarrow> (cli_context \<Rightarrow> 'b outcome go)
    \<Rightarrow> string list \<Rightarrow> 'b outcome go" where
  "app_run parse action args = (case parse cmd_flags args of Inl e \<Rightarrow> Ret (Failed e) | Inr cx \<Rightarrow> action cx)"

section \<open>From the listener to the return\<close>

text \<open>\<open>errors.Wrap\<close> of an error that is not nil.\<close>

definition wrap_err :: "string \<Rightarrow> string \<Rightarrow> string" where
  "wrap_err msg e = msg @ '': '' @ e"

text \<open>
  Where the main goroutine is: in \<open>ListenGrpc\<close> before the listener is made, in \<open>Serve\<close>, in the deferred \<open>Stop\<close> of
  the server, in the deferred \<open>Close\<close> of the controller before and behind the closing of the stop channel, in
  the deferred \<open>cancel\<close>, or behind the action.
\<close>

datatype exit_phase =
    Binding | Accepting | StoppingServer err | ClosingCtrl err | WaitingCtrl err | CancellingCtx err | ActionDone err

record ('c, 'ai) cmd_proc =
  cp_phase :: exit_phase
  cp_life :: "('c, 'ai) life"
  cp_served :: bool
  cp_stopped :: bool
  cp_cancelled :: bool

definition listen_bind :: "(string \<Rightarrow> err) \<Rightarrow> int \<Rightarrow> exit_phase" where
  "listen_bind listen port =
     (case listen ('':'' @ show_int port) of
        Some e \<Rightarrow> ClosingCtrl (Some (wrap_err ''could not create TCP listener'' e))
      | None \<Rightarrow> Accepting)"

definition serve_return :: "err \<Rightarrow> exit_phase" where
  "serve_return r = StoppingServer (map_option (wrap_err ''could not serve grpc'') r)"

text \<open>The goroutines of the controller; nobody else calls its \<open>Start\<close> or \<open>Close\<close>.\<close>

inductive life_go :: "('h, 'dht, 'ai) net_lib
    \<Rightarrow> (('ai, 'h, 'dht, 'mdns, 're, 'tr, 'ps, 'top, 'sub, 'fn) Controller, 'ai) life
    \<Rightarrow> (('ai, 'h, 'dht, 'mdns, 're, 'tr, 'ps, 'top, 'sub, 'fn) Controller, 'ai) life \<Rightarrow> bool" for net where
  cancel: "CtxCancel (nd_threadControl c) i = Some tc \<Longrightarrow>
    life_go net \<lparr>lf_c = c, lf_log = l\<rparr> \<lparr>lf_c = c\<lparr>nd_threadControl := tc\<rparr>, lf_log = l\<rparr>"
| ret: "thread_return (nd_threadControl c) i = Some tc \<Longrightarrow> Some i \<noteq> map_option nt_thread (nd_notifee c) \<Longrightarrow>
    life_go net \<lparr>lf_c = c, lf_log = l\<rparr> \<lparr>lf_c = c\<lparr>nd_threadControl := tc\<rparr>, lf_log = l\<rparr>"
| mdns: "mdns_next net c = Some (Ret (c', ev)) \<Longrightarrow> life_go net \<lparr>lf_c = c, lf_log = l\<rparr> \<lparr>lf_c = c', lf_log = l @ ev\<rparr>"
| mdns_end: "mdns_done c = Some c' \<Longrightarrow> life_go net \<lparr>lf_c = c, lf_log = l\<rparr> \<lparr>lf_c = c', lf_log = l\<rparr>"
| found: "mdns_active l \<Longrightarrow> nd_notifee c = Some m \<Longrightarrow> HandlePeerFound ctxDone m p = Ret m' \<Longrightarrow>
    life_go net \<lparr>lf_c = c, lf_log = l\<rparr> \<lparr>lf_c = c\<lparr>nd_notifee := Some m'\<rparr>, lf_log = l\<rparr>"

inductive cmd_step :: "('h, 'dht, 'ai) net_lib \<Rightarrow> (string \<Rightarrow> err) \<Rightarrow> int
    \<Rightarrow> (('ai, 'h, 'dht, 'mdns, 're, 'tr, 'ps, 'top, 'sub, 'fn) Controller, 'ai) cmd_proc
    \<Rightarrow> (('ai, 'h, 'dht, 'mdns, 're, 'tr, 'ps, 'top, 'sub, 'fn) Controller, 'ai) cmd_proc go \<Rightarrow> bool"
  for net listen port where
  bind: "cp_phase p = Binding \<Longrightarrow> cmd_step net listen port p (Ret (p\<lparr>cp_phase := listen_bind listen port\<rparr>))"
| serve: "cp_phase p = Accepting \<Longrightarrow> cmd_step net listen port p (Ret (p\<lparr>cp_phase := serve_return r, cp_served := True\<rparr>))"
| stop: "cp_phase p = StoppingServer e \<Longrightarrow> cmd_step net listen port p (Ret (p\<lparr>cp_phase := ClosingCtrl e, cp_stopped := True\<rparr>))"
| close_call: "cp_phase p = ClosingCtrl e \<Longrightarrow> cmd_step net listen port p
    (go_bind (close_begin (lf_c (cp_life p))) (\<lambda>c. Ret (p\<lparr>cp_phase := WaitingCtrl e, cp_life := (cp_life p)\<lparr>lf_c := c\<rparr>\<rparr>)))"
| close_return: "cp_phase p = WaitingCtrl e \<Longrightarrow> close_end (lf_c (cp_life p)) = Some (c, ev) \<Longrightarrow> cmd_step net listen port p
    (Ret (p\<lparr>cp_phase := CancellingCtx e, cp_life := \<lparr>lf_c = c, lf_log = lf_log (cp_life p) @ ev\<rparr>\<rparr>))"
| cancel: "cp_phase p = CancellingCtx e \<Longrightarrow> cmd_step net listen port p (Ret (p\<lparr>cp_phase := ActionDone e, cp_cancelled := True\<rparr>))"
| controller: "life_go net (cp_life p) s \<Longrightarrow> cmd_step net listen port p (Ret (p\<lparr>cp_life := s\<rparr>))"

abbreviation cmd_runs :: "('h, 'dht, 'ai) net_lib \<Rightarrow> (string \<Rightarrow> err) \<Rightarrow> int
    \<Rightarrow> (('ai, 'h, 'dht, 'mdns, 're, 'tr, 'ps, 'top, 'sub, 'fn) Controller, 'ai) cmd_proc
    \<Rightarrow> (('ai, 'h, 'dht, 'mdns, 're, 'tr, 'ps, 'top, 'sub, 'fn) Controller, 'ai) cmd_proc \<Rightarrow> bool" where
  "cmd_runs net listen port \<equiv> (\<lambda>p p'. cmd_step net listen port p (Ret p'))\<^sup>*\<^sup>*"

definition cmd_serve :: "('c, 'ai) life \<Rightarrow> ('c, 'ai) cmd_proc" where
  "cmd_serve s = \<lparr>cp_phase = Binding, cp_life = s, cp_served = False, cp_stopped = False, cp_cancelled = False\<rparr>"

text \<open>\<open>main\<close> behind the action.\<close>

definition main_end :: "err \<Rightarrow> unit go" where
  "main_end e = (case e of Some m \<Rightarrow> Panic (Explicit m) | None \<Rightarrow> Ret ())"

section \<open>Lemmas\<close>

lemma life_go_step: "life_go net s s' \<Longrightarrow> life_step net parse mr vr s s'"
  by (cases rule: life_go.cases) (auto intro: life_step.intros)

text \<open>The goroutines neither close the group nor forget the host.\<close>

lemma life_go_keeps:
  assumes "life_go net s s'"
  shows "nd_once (lf_c s') = nd_once (lf_c s) \<and> nd_host (lf_c s') = nd_host (lf_c s)
    \<and> tc_stop (nd_tc (lf_c s')) = tc_stop (nd_tc (lf_c s)) \<and> tc_closing (nd_tc (lf_c s')) = tc_closing (nd_tc (lf_c s))"
  using assms
proof (cases rule: life_go.cases)
  case (mdns c c' ev l)
  from mdns(3) show ?thesis
  proof (cases rule: mdns_next_cases)
    case (1 m p q)
    with connect_grows [OF 1(4)] mdns(1,2) show ?thesis by (auto simp: grows_def)
  qed
next
  case (mdns_end c c' l)
  from mdns_end(3) show ?thesis
    by (cases rule: mdns_done_cases) (use mdns_end(1,2) in \<open>auto elim: thread_return_SomeE\<close>)
qed (auto elim: CtxCancel_SomeE thread_return_SomeE)

text \<open>What holds in each phase.\<close>

definition ready_to_close :: "('ai, 'h, 'dht, 'mdns, 're, 'tr, 'ps, 'top, 'sub, 'fn) Controller \<Rightarrow> bool" where
  "ready_to_close c \<longleftrightarrow> nd_host c \<noteq> None \<and> \<not> so_stop (nd_once c) \<and> \<not> tc_stop (nd_tc c)"

definition exit_error :: "(string \<Rightarrow> err) \<Rightarrow> int \<Rightarrow> bool \<Rightarrow> err \<Rightarrow> bool" where
  "exit_error listen port served e \<longleftrightarrow>
     (if served then e = None \<or> (\<exists>m. e = Some (wrap_err ''could not serve grpc'' m))
      else \<exists>m. listen ('':'' @ show_int port) = Some m \<and> e = Some (wrap_err ''could not create TCP listener'' m))"

fun phase_ok :: "(string \<Rightarrow> err) \<Rightarrow> int \<Rightarrow> exit_phase \<Rightarrow> (('ai, 'h, 'dht, 'mdns, 're, 'tr, 'ps, 'top, 'sub, 'fn) Controller, 'ai) cmd_proc
    \<Rightarrow> bool" where
  "phase_ok listen port Binding p = (ready_to_close (lf_c (cp_life p)) \<and> \<not> cp_served p \<and> \<not> cp_stopped p \<and> \<not> cp_cancelled p)"
| "phase_ok listen port Accepting p = (ready_to_close (lf_c (cp_life p)) \<and> \<not> cp_served p \<and> \<not> cp_stopped p \<and> \<not> cp_cancelled p)"
| "phase_ok listen port (StoppingServer e) p = (ready_to_close (lf_c (cp_life p)) \<and> cp_served p \<and> \<not> cp_stopped p \<and> \<not> cp_cancelled p
     \<and> exit_error listen port True e)"
| "phase_ok listen port (ClosingCtrl e) p = (ready_to_close (lf_c (cp_life p)) \<and> cp_stopped p = cp_served p \<and> \<not> cp_cancelled p
     \<and> exit_error listen port (cp_served p) e)"
| "phase_ok listen port (WaitingCtrl e) p = (cp_stopped p = cp_served p \<and> \<not> cp_cancelled p \<and> exit_error listen port (cp_served p) e
     \<and> tc_closing (nd_tc (lf_c (cp_life p))) = closing.Waiting)"
| "phase_ok listen port (CancellingCtx e) p = (cp_stopped p = cp_served p \<and> \<not> cp_cancelled p \<and> exit_error listen port (cp_served p) e
     \<and> tc_closing (nd_tc (lf_c (cp_life p))) = Closed)"
| "phase_ok listen port (ActionDone e) p = (cp_stopped p = cp_served p \<and> cp_cancelled p \<and> exit_error listen port (cp_served p) e
     \<and> tc_closing (nd_tc (lf_c (cp_life p))) = Closed)"

definition proc_ok :: "(string \<Rightarrow> err) \<Rightarrow> int
    \<Rightarrow> (('ai, 'h, 'dht, 'mdns, 're, 'tr, 'ps, 'top, 'sub, 'fn) Controller, 'ai) cmd_proc \<Rightarrow> bool" where
  "proc_ok listen port p \<longleftrightarrow> phase_ok listen port (cp_phase p) p \<and> life_inv (cp_life p) \<and> life_done (cp_life p)"

lemma close_ready:
  assumes "ready_to_close c"
  obtains c' where "close_begin c = Ret c'" "tc_closing (nd_tc c') = closing.Waiting"
  using assms by (auto simp: ready_to_close_def close_begin_def StopOnce_def Close_def)

lemma life_go_phase:
  assumes "phase_ok listen port (cp_phase p) p" "life_go net (cp_life p) s"
  shows "phase_ok listen port (cp_phase p) (p\<lparr>cp_life := s\<rparr>)"
  using assms(1) life_go_keeps [OF assms(2)] by (cases "cp_phase p") (auto simp: ready_to_close_def)

lemma cmd_step_ok:
  assumes "cmd_step net listen port p r" "proc_ok listen port p"
  shows "\<exists>p'. r = Ret p' \<and> proc_ok listen port p'"
proof -
  have ok: "phase_ok listen port (cp_phase p) p" "life_inv (cp_life p)" "life_done (cp_life p)" using assms(2) by (simp_all add: proc_ok_def)
  from assms(1) show ?thesis
  proof (cases rule: cmd_step.cases)
    case bind
    with ok show ?thesis by (auto simp: proc_ok_def listen_bind_def exit_error_def split: option.splits)
  next
    case (serve r')
    with ok show ?thesis by (cases r') (auto simp: proc_ok_def serve_return_def exit_error_def)
  next
    case (stop e)
    with ok show ?thesis by (auto simp: proc_ok_def)
  next
    case (close_call e)
    with ok have "ready_to_close (lf_c (cp_life p))" by simp
    then obtain c where c: "close_begin (lf_c (cp_life p)) = Ret c" "tc_closing (nd_tc c) = closing.Waiting" by (rule close_ready)
    have "life_step net (\<lambda>_. Inl []) True True (cp_life p) ((cp_life p)\<lparr>lf_c := c\<rparr>)"
      using life_step.close_call [OF c(1)] by (cases "cp_life p") simp
    with life_step_inv life_step_done ok have "life_inv ((cp_life p)\<lparr>lf_c := c\<rparr>) \<and> life_done ((cp_life p)\<lparr>lf_c := c\<rparr>)" by blast
    with close_call ok c show ?thesis by (auto simp: proc_ok_def)
  next
    case (close_return e c ev)
    have "life_step net (\<lambda>_. Inl []) True True (cp_life p) \<lparr>lf_c = c, lf_log = lf_log (cp_life p) @ ev\<rparr>"
      using life_step.closed [OF close_return(3)] by (cases "cp_life p") simp
    with life_step_inv life_step_done ok have l: "life_inv \<lparr>lf_c = c, lf_log = lf_log (cp_life p) @ ev\<rparr> \<and> life_done \<lparr>lf_c = c, lf_log = lf_log (cp_life p) @ ev\<rparr>"
      by blast
    have "tc_closing (nd_tc c) = Closed" using close_return(3) by (auto simp: close_end_def close_wait_def split: if_splits)
    with close_return ok l show ?thesis by (auto simp: proc_ok_def)
  next
    case (cancel e)
    with ok show ?thesis by (auto simp: proc_ok_def)
  next
    case (controller s)
    have "life_step net (\<lambda>_. Inl []) True True (cp_life p) s" by (rule life_go_step [OF controller(2)])
    with life_step_inv life_step_done ok have "life_inv s \<and> life_done s" by blast
    with life_go_phase [OF ok(1) controller(2)] controller(1) show ?thesis by (auto simp: proc_ok_def)
  qed
qed

lemma cmd_runs_ok: "cmd_runs net listen port p p' \<Longrightarrow> proc_ok listen port p \<Longrightarrow> proc_ok listen port p'"
  by (induction rule: rtranclp_induct) (auto dest: cmd_step_ok)

lemma refresh_ctrl: "RefreshRouters c mr vr mh vh = Some (c', mr', vr') \<Longrightarrow> c' = c\<lparr>nd_threadControl := Go (Go (nd_tc c))\<rparr>"
  by (auto simp: RefreshRouters_def Let_def split: option.splits)

lemma boot_serving:
  fixes lib :: "('sk, 'cm, 'ai, 'h, 'dht, 'mdns, 're, 'tr, 'gs, 'ps) setup_lib"
    and b :: "(('ai, 'h, 'dht, 'mdns, 're, 'tr, 'ps, 'top, 'sub, 'fn) Controller, ('ps option, 'top, 'sub, 'fn) ctrl) booted"
  assumes "boot lib net readFile yaml json V cfgPath = Ret (Serving b)"
  obtains cfg c ev where "NewController lib cfg = (c, None)"
    "Ctrl_Life.Start net (sl_AddrInfoFromString lib) True True (c\<lparr>nd_threadControl := Go (Go (nd_tc c))\<rparr>) = Ret (bt_ctrl b, ev)"
proof -
  from assms obtain cfg mr vr where cfg: "ReadConfig readFile yaml json cfgPath = Inr cfg"
    "NewMsgRouter (cfg_MsgRouterQueueSize cfg) (cfg_MsgRouterWorkers cfg) msg_handler = Ret mr"
    "NewMsgRouter (cfg_MsgRouterQueueSize cfg) (cfg_MsgRouterWorkers cfg) accept_handler = Ret vr"
    by (auto simp: boot_def go_bind_eq_Ret_iff split: if_splits sum.splits)
  obtain c :: "('ai, 'h, 'dht, 'mdns, 're, 'tr, 'ps, 'top, 'sub, 'fn) Controller" and e where "NewController lib cfg = (c, e)"
    by fastforce
  note c = cfg this
  with assms have e: "e = None" by (cases e) (auto simp: boot_def split: if_splits)
  with assms c obtain sv where sv: "NewServices (pubsub_view c (nd_pubsub c)) 128 = Ret sv"
    by (auto simp: boot_def go_bind_eq_Ret_iff split: if_splits)
  show thesis
  proof (cases "RefreshRouters c mr vr msg_handler (val_handler V)")
    case None
    with assms c e sv show thesis by (simp add: boot_def split: if_splits)
  next
    case (Some x)
    obtain c1 mr1 vr1 where x: "x = (c1, mr1, vr1)" by (cases x) auto
    with assms c e sv Some obtain c2 ev where "Ctrl_Life.Start net (sl_AddrInfoFromString lib) True True c1 = Ret (c2, ev)" "bt_ctrl b = c2"
      by (auto simp: boot_def go_bind_eq_Ret_iff split: if_splits)
    with refresh_ctrl [OF Some [unfolded x]] c(4) e show thesis by (intro that) simp_all
  qed
qed

text \<open>The process that has booted.\<close>

lemma cmd_serve_ok:
  assumes "boot lib net readFile yaml json V cfgPath = Ret (Serving b)" "set l \<inter> {DhtClosed, MdnsClosed, HostClosed} = {}"
  shows "proc_ok listen port (cmd_serve \<lparr>lf_c = bt_ctrl b, lf_log = l\<rparr>)"
  using assms(1)
proof (rule boot_serving)
  fix cfg c ev
  assume n: "NewController lib cfg = (c, None)"
    and st: "Ctrl_Life.Start net (sl_AddrInfoFromString lib) True True (c\<lparr>nd_threadControl := Go (Go (nd_tc c))\<rparr>) = Ret (bt_ctrl b, ev)"
  let ?c = "c\<lparr>nd_threadControl := Go (Go (nd_tc c))\<rparr>"
  from n obtain h where h: "nd_host c = Some h" "nd_once c = \<lparr>so_start = False, so_stop = False\<rparr>" by (rule NewController_success)
  have i: "life_inv \<lparr>lf_c = c, lf_log = []\<rparr>" by (rule life_inv_new [OF n])
  then have open_tc: "\<not> tc_stop (nd_tc c)" "tc_closing (nd_tc c) = Open" using h(2) by (auto simp: life_inv_def Let_def tc_inv_def)
  from st obtain c1 where c1: "start_fn net (sl_AddrInfoFromString lib) True True ?c = Ret (c1, ev)"
    "bt_ctrl b = c1\<lparr>nd_once := (nd_once ?c)\<lparr>so_start := True\<rparr>\<rparr>"
    by (rule Start_cases) (use h(2) in auto)
  have "grows c ?c" unfolding grows_def by (rule exI [of _ 2]) (simp add: numeral_2_eq_2)
  with start_fn_grows [OF c1(1)] have g: "grows c c1" by (auto intro: grows_trans)
  have e0: "{MdnsClosed, HostClosed} \<inter> set l = {}" using assms(2) by auto
  have "life_inv \<lparr>lf_c = bt_ctrl b, lf_log = [] @ l\<rparr>"
    by (rule life_inv_grows [OF i g e0]) (use c1(2) h(2) in auto)
  moreover have "ready_to_close (bt_ctrl b)" "so_start (nd_once (bt_ctrl b))" "tc_closing (nd_tc (bt_ctrl b)) = Open"
    using g h open_tc c1(2) by (auto simp: grows_def ready_to_close_def)
  ultimately show ?thesis by (simp add: proc_ok_def cmd_serve_def life_done_def)
qed


text \<open>A configuration with sizes, and a port that is taken.\<close>

definition served_config :: Config where
  "served_config = (demo_config ''x'')\<lparr>cfg_MsgRouterQueueSize := 1, cfg_MsgRouterWorkers := 1\<rparr>"

lemma served_controller: "\<exists>c :: demo_ctrl. NewController demo_lib served_config = (c, None)"
proof -
  have "(case NewController demo_lib served_config of (c :: demo_ctrl, e) \<Rightarrow> e = None)" by code_simp
  then show ?thesis by (cases "NewController demo_lib served_config :: demo_ctrl \<times> err") auto
qed


end
