(* ===== verification/Client_Ctrl.thy ===== *)
theory Client_Ctrl
  imports Pubsub_Props Grpc_Clients Grpc_Services
begin

text \<open>
  A client's subscriptions, from \<open>Subscribe\<close> of the consumer (\<open>api/grpc/client/consumer.go\<close>) through the control service
  (\<open>api/grpc/control.go\<close>) to the controller (\<open>core/pubsub.go\<close>).  The text of a status at the client is a parameter; a
  call on a server that is gone fails with an error of the connection.
\<close>

section \<open>The composition\<close>

definition subscribe_rpc :: "('ps, 'top, 'sub, 'fn) pubsub_api \<Rightarrow> (grpc_status \<Rightarrow> string) \<Rightarrow> string
    \<Rightarrow> ('ps, 'top, 'sub, 'fn) ctrl go \<Rightarrow> string \<Rightarrow> ('ps, 'top, 'sub, 'fn) ctrl go \<times> err" where
  "subscribe_rpc api txt gone server topic =
     (case server of
        Panic p \<Rightarrow> (Panic p, Some gone)
      | Ret c \<Rightarrow> (case control_Subscribe api c (Some \<lparr>sr_Topic = topic\<rparr>) of
            Panic p \<Rightarrow> (Panic p, Some gone)
          | Ret (c, Inl st) \<Rightarrow> (Ret c, Some (txt st))
          | Ret (c, Inr _) \<Rightarrow> (Ret c, None)))"

definition client_Subscribe :: "('ps, 'top, 'sub, 'fn) pubsub_api \<Rightarrow> (grpc_status \<Rightarrow> string) \<Rightarrow> string \<Rightarrow> err
    \<Rightarrow> ('ps, 'top, 'sub, 'fn) ctrl go \<Rightarrow> string list \<Rightarrow> ('ps, 'top, 'sub, 'fn) ctrl go \<times> err" where
  "client_Subscribe api txt gone connect server topics = consumer_Subscribe connect (subscribe_rpc api txt gone) server topics"

section \<open>Lemmas\<close>

lemma subscribe_rpc_cases:
  assumes "subscribe_rpc api txt gone (Ret c) topic = (Ret c', e)"
  obtains "Subscribe api c topic = Ret (c', None)" "e = None"
  | m where "Subscribe api c topic = Ret (c', Some m)" "e = Some (txt (Internal m))"
proof (cases "Subscribe api c topic")
  case (Ret r)
  obtain c1 e1 where r: "r = (c1, e1)" by fastforce
  with Ret assms show thesis
    by (cases e1) (auto simp: subscribe_rpc_def control_Subscribe_def SubscribeRequest_GetTopic_def intro: that)
qed (use assms in \<open>simp add: subscribe_rpc_def control_Subscribe_def SubscribeRequest_GetTopic_def\<close>)

lemma subscribe_rpc_dead: "subscribe_rpc api txt gone (Panic p) topic = (Panic p, Some gone)"
  by (simp add: subscribe_rpc_def)

text \<open>A \<open>Subscribe\<close> without an error leaves the topic joined and subscribed.\<close>

definition subscribed :: "('ps, 'top, 'sub, 'fn) ctrl \<Rightarrow> string \<Rightarrow> bool" where
  "subscribed c n \<longleftrightarrow> (\<exists>tw. c_view c n = Some tw \<and> tw_sub tw \<noteq> None \<and> tw_state tw \<noteq> topicStateJoining)"

lemma subscribed_step: "step_ok c c' \<Longrightarrow> subscribed c n \<Longrightarrow> subscribed c' n"
  unfolding subscribed_def step_ok_def evolves_def entry_kept_def by metis

lemma Subscribe_subscribes:
  assumes "Join_names api" "c_inv c" "names_ok api (c_view c)" "Subscribe api c n = Ret (c', None)"
  shows "subscribed c' n"
  using assms(4)
proof (cases rule: Subscribe_cases)
  case (joined c1 t c2 s e2)
  note j = tryJoin_step [OF assms(2) joined(1)]
  from j(4) obtain tw where tw: "c_view c1 n = Some tw" "tw_topic tw = t" "tw_state tw \<noteq> topicStateJoining" by auto
  with wrapper_ok_view [OF j(1) tw(1)] obtain tp where "t = Some tp" by (auto simp: wrapper_ok_def)
  with tw tryJoin_names [OF assms(1-3) joined(1)] have m: "api_String api t = Ret n" by (auto simp: names_ok_def)
  from joined(2) show ?thesis
  proof (cases rule: trySubscribe_cases)
    case known
    with m tw joined(4) show ?thesis by (auto simp: subscribed_def tm.get_sub_view)
  next
    case (failed ps m)
    with joined(3) show ?thesis by simp
  next
    case (new ps m' sb)
    with m have "c_view c2 = (c_view c1)(n \<mapsto> tw\<lparr>tw_sub := Some sb\<rparr>)"
      using tm.get_sub_add_sub(2) [OF j(1) tw(1)] by simp
    with tw joined(3,4) new(4,5) show ?thesis by (simp add: subscribed_def)
  qed
qed simp

text \<open>The loop over the topics: a prefix of them, which ends with the first error.\<close>

lemma subscribe_loop_run:
  assumes "subscribe_loop (subscribe_rpc api txt gone) (Ret c) topics = (Ret c', e)"
    and "Join_names api" "c_inv c" "names_ok api (c_view c)" "listeners_ok c"
  shows "\<exists>k\<le>length topics. exec_all api c (map CSubscribe (take k topics)) = Ret c'
    \<and> (e = None \<longrightarrow> k = length topics \<and> (\<forall>n\<in>set topics. subscribed c' n))
    \<and> (\<forall>x. e = Some x \<longrightarrow> 0 < k \<and> (\<forall>n\<in>set (take (k - 1) topics). subscribed c' n)
          \<and> (\<exists>m c1. x = txt (Internal m) \<and> Subscribe api c1 (topics ! (k - 1)) = Ret (c', Some m)))"
  using assms(1,3-5)
proof (induction topics arbitrary: c)
  case Nil
  then show ?case by simp
next
  case (Cons n ns)
  obtain s1 e1 where r: "subscribe_rpc api txt gone (Ret c) n = (s1, e1)" by fastforce
  have "\<exists>c1. s1 = Ret c1"
  proof (cases s1)
    case (Panic p)
    with r have "e1 \<noteq> None"
      by (auto simp: subscribe_rpc_def split: go.splits prod.splits sum.splits)
    with r Panic Cons.prems(1) show ?thesis by auto
  qed simp
  then obtain c1 where c1: "s1 = Ret c1" by blast
  show ?case
  proof (rule subscribe_rpc_cases [OF r [unfolded c1]])
    assume s: "Subscribe api c n = Ret (c1, None)" "e1 = None"
    have ok: "step_ok c c1" using exec_ok [OF Cons.prems(2), of api "CSubscribe n" c1 None] s(1) by simp
    have l: "names_ok api (c_view c1)" "listeners_ok c1"
      using Subscribe_listeners [OF assms(2) Cons.prems(2-4) s(1)] by simp_all
    have "subscribe_loop (subscribe_rpc api txt gone) (Ret c1) ns = (Ret c', e)" using Cons.prems(1) r c1 s(2) by simp
    from Cons.IH [OF this _ l] ok obtain k where k: "k \<le> length ns" "exec_all api c1 (map CSubscribe (take k ns)) = Ret c'"
      "e = None \<longrightarrow> k = length ns \<and> (\<forall>n\<in>set ns. subscribed c' n)"
      "\<forall>x. e = Some x \<longrightarrow> 0 < k \<and> (\<forall>n\<in>set (take (k - 1) ns). subscribed c' n)
          \<and> (\<exists>m c1. x = txt (Internal m) \<and> Subscribe api c1 (ns ! (k - 1)) = Ret (c', Some m))"
      by (auto simp: step_ok_def)
    have i1: "c_inv c1" using ok by (simp add: step_ok_def)
    have "subscribed c' n"
      using Subscribe_subscribes [OF assms(2) Cons.prems(2,3) s(1)] exec_all_ok [OF i1 k(2)] by (rule subscribed_step [rotated])
    moreover have "exec_all api c (map CSubscribe (take (Suc k) (n # ns))) = Ret c'" using s(1) k(2) by simp
    moreover have "(n # ns) ! (Suc k - 1) = ns ! (k - 1)" "take (Suc k - 1) (n # ns) = n # take (k - 1) ns" if "0 < k"
      using that by (cases k; simp)+
    ultimately show ?thesis using k(1,3,4) by (intro exI [of _ "Suc k"]) auto
  next
    fix m assume s: "Subscribe api c n = Ret (c1, Some m)" "e1 = Some (txt (Internal m))"
    with Cons.prems(1) r c1 have "c' = c1" "e = Some (txt (Internal m))" by simp_all
    with s(1) show ?thesis by (intro exI [of _ 1]) auto
  qed
qed

section \<open>Properties\<close>



end
