(* ===== verification/Spec2Isabelle.thy ===== *)
theory Spec2Isabelle
  imports Pubsub_Props Msg_Router Bls_Node Val_Router Pubsub_Trace Grpc_Services Grpc_Clients Thread_Control Validation_Path Don_Node Cmd_Boot Bls_Gen
    Message_Path Node_Life Test_Support Router_Drain Validation_Wire
    Ctrl_Races Bls_Races Don_Run Stop_Context Cmd_Exit Client_Ctrl
begin

text \<open>
  Verification of p2pmq, a message engine over libp2p pubsub (Go).

  \<^bold>\<open>The program.\<close>  The engine is a process (\<open>cmd/pmq\<close>) around a \<open>Controller\<close> (\<open>core\<close>).  The controller owns
  the libp2p host, the pubsub router and a table of topics.  Messages of a subscription go through a
  \<open>msgRouter\<close> (a bounded queue with a pool of workers) to the message service; messages to be validated go
  through a second \<open>msgRouter\<close>, whose caller waits for the verdict.  Three gRPC services (\<open>api/grpc\<close>) connect
  clients: control (publish, subscribe), the message stream, and the validation stream, on which a client
  answers with verdicts.  Two example networks (\<open>examples/bls\<close>, \<open>examples/don\<close>) are clients that validate and
  store signed reports, through the client library \<open>api/grpc/client\<close>.

  \<^bold>\<open>Theories.\<close>  State is a record with the names of the struct (with a prefix), an operation is a function
  with the name of the Go function, errors are \<open>string option\<close> or a sum, a run-time panic is \<open>Panic\<close> of the
  type \<open>go\<close>.  Goroutines interleave at their channel and lock operations: each such operation is a function
  that returns \<open>None\<close> where the goroutine blocks, and an inductive relation is their union.

  Shared: \<open>Go_Prelude\<close> (outcomes, slices, integers), \<open>Go_Strings\<close> and \<open>Go_Hash\<close> (hex, decimal, SHA-256 and
  MD5 of the standard library, executable), \<open>Go_Mailbox\<close> (a channel as a bounded queue, locale \<open>mailbox\<close>),
  \<open>Report_Ring\<close> (the ring of numbered reports, locales \<open>seq_ring\<close> and \<open>report_store\<close>), \<open>Thread_Control\<close>
  (\<open>commons/utils\<close>).

  Engine: \<open>Commons_Config\<close> (\<open>commons/config.go\<close>, \<open>config_pubsub.go\<close>), \<open>Key_Files\<close> (\<open>commons/net.go\<close>, \<open>io.go\<close>,
  \<open>cmd/keygen\<close>), \<open>Gossip\<close> (\<open>core/gossip\<close>), \<open>Topic_Manager\<close> (\<open>core/topic.go\<close>, locale \<open>topic_table\<close>),
  \<open>Pubsub_Ctrl\<close> and \<open>Pubsub_Props\<close> (\<open>core/pubsub.go\<close>), \<open>Pubsub_Trace\<close> (\<open>core/pubsub_trace.go\<close>),
  \<open>Msg_Router\<close> and \<open>Router_Drain\<close> (\<open>core/router.go\<close>), \<open>Ctrl_Setup\<close> and \<open>Ctrl_Life\<close> (\<open>core/ctrl.go\<close>, \<open>dht.go\<close>, \<open>mdns.go\<close>,
  \<open>conn.go\<close>), \<open>Cmd_Boot\<close> (\<open>cmd/pmq/main.go\<close>), \<open>Test_Support\<close> (\<open>core/testutils.go\<close>).

  Services and clients: \<open>Proto\<close> (the messages of \<open>proto/main.pb.go\<close>), \<open>Val_Router\<close> (\<open>api/grpc/val_router.go\<close>),
  \<open>Grpc_Services\<close> (\<open>control.go\<close>, \<open>msg_router.go\<close>, \<open>server.go\<close>), \<open>Grpc_Clients\<close> (\<open>api/grpc/client\<close>).

  Examples: \<open>Bls_Report_Buffer\<close>, \<open>Bls_Node\<close>, \<open>Bls_Gen\<close> (\<open>examples/bls\<close>), \<open>Don_Report\<close>, \<open>Don_Report_Buffer\<close>,
  \<open>Don_Node\<close> (\<open>examples/don\<close>), \<open>Node_Life\<close> (start and stop of the nodes of both).

  Compositions: \<open>Validation_Path\<close> (pubsub validator, router, command handler, validation service),
  \<open>Validation_Wire\<close> (validation service, streams, verifiers of any number of clients),
  \<open>Message_Path\<close> (message service, stream, consumer, handler), \<open>Cmd_Boot\<close> (configuration, routers,
  controller, services in the order of the command).

  \<^bold>\<open>What is proved.\<close>
  \<^item> Topics: the invariant of the table over every run of calls, and its refinement of a plain table of
    entries; a failed join blocks its topic for good.
  \<^item> Routers: bounds, conservation of messages, order, and integrity of results in every interleaving; a
    router that gets nothing new drains in bounded time; a result that is ready before its caller waits is lost.
  \<^item> Validation: a verdict accept or reject that a call returns was sent by a client for that message id, from
    the pubsub validator to the stream, and was given by the client's validator on a pushed message with that
    id (end to end: \<open>foreign_accept_end_to_end\<close> below); a replaced call can only be ignored.
  \<^item> Message stream: the service refines a bounded buffer; from the queue of the service to the handler of a
    client the order is kept and nothing is seen twice.
  \<^item> Life cycle: options handed to pubsub are well formed; which parts a constructed controller has; what a
    failed construction leaves running; the host is closed last; the outcome of the boot for every choice of
    sizes; groups of goroutines close safely and in bounded time; the nodes stop with everything returned.
  \<^item> Reports: the verdict on sequence numbers after every history, for both buffers; numbering; quorum
    intersection; who may publish; no panic in the BLS node; negative numbers panic in the DON buffer.
  \<^item> Configuration, keys, tracer: defaults, round trips, equivalence of the tracer with a reference.

  \<^bold>\<open>Loops.\<close>  Loops over data are structural recursion.  The endless loops of goroutines are step relations,
  with no bound on the run.  Where a loop is also given as a function, the number of iterations before its
  context is done is an argument (\<open>Listen\<close>, \<open>handle_loop\<close>, \<open>consumer_loop\<close>, \<open>run_ticks\<close>) over which the
  theorems quantify.  Two loops that may not end are \<open>partial_function\<close>s with their termination proved where
  it holds: \<open>shares_loop\<close> and \<open>wait_loop\<close>.

  \<^bold>\<open>Parameters and hypotheses.\<close>  Code outside the repository is an argument: the pubsub library
  (\<open>pubsub_api\<close>), libp2p with DHT, mDNS and connection manager (\<open>setup_lib\<close>, \<open>net_lib\<close>), the BLS and
  secp256k1 curves (\<open>bls_env\<close>, \<open>bls_lib\<close>, \<open>evm_crypto\<close>), key encoding, JSON and YAML decoders, the file system,
  clocks and random sources, gRPC dialling and the outcome of \<open>Send\<close> and \<open>Recv\<close>.  Hypotheses on them are
  named: \<open>routing_called\<close> (libp2p calls the routing factory it is given), \<open>ctx_ok\<close> (the widths of a report
  context), and the round trip of the key library in \<open>printed_key_read_back\<close>.  The walk order of a Go map is
  an argument, so a theorem holds for every order.

  \<^bold>\<open>Not modelled.\<close>  The reflection and stub code that \<open>protoc\<close> generates, and the wire format; the network
  itself; logging; the gRPC listener and flag parsing; constructors that only store their arguments; memory
  exhaustion; deadlines as times (a timeout is a step that may happen).  Data races: a Go operation that the
  code does not protect is atomic here (\<open>Lookup\<close> of the BLS buffer is such a place).
\<close>

section \<open>From a client's validator to the pubsub validator\<close>

text \<open>C4: nothing foreign is accepted unless a client accepted it.  In the set-up of the command, with any number of
  verifier clients on the streams of the validation service, when \<open>validateMsg\<close> accepts a message of another
  peer, then the message it waited for was in the router's queue, and the validator of a connected client gave
  the verdict accept on a message with its id that \<open>PushWait\<close> had sent; if messages with that id are the
  same, on its topic and data.  With no client, a full queue or a late verdict nothing foreign is accepted.\<close>

theorem foreign_accept_end_to_end:
  assumes "NewMsgRouter qSize workers h0 = Ret s0" and "refresh_router s0 (val_handler (vw_router w)) = Some s1"
    and "(rt_step zr)\<^sup>*\<^sup>* s1 s" and "rt_installed s = [h0, val_handler (vw_router w)]"
    and "(vw_step R)\<^sup>*\<^sup>* (new_wire n) w"
    and "rt_waiters s k = Some wt" and "wait_result wt = Some handled"
    and "validateMsg host p handled = ValidationAccept" and "p \<noteq> host"
  shows "\<exists>m. (k, m) \<in> set (rt_accepted s) \<and> (\<exists>i < length (vw_streams w). \<exists>msg. R i msg VR_ACCEPT
    \<and> msg_MessageId msg = pm_ID m \<and> msg \<in> pushed (vw_router w)
    \<and> ((\<forall>m' \<in> pushed (vw_router w). msg_MessageId m' = pm_ID m \<longrightarrow> m' = push_msg m) \<longrightarrow> msg = push_msg m))"
proof -
  from assms(8,9) have "handled = Inr ValidationAccept"
    by (auto simp: validateMsg_def split: sum.splits)
  with assms(6,7) have "rt_waiters s k = Some (Got ValidationAccept)"
    by (auto simp: wait_result_def split: waiter.splits)
  with refreshed_result [OF assms(1-4)] obtain m where m: "(k, m) \<in> set (rt_accepted s)"
    "val_handler (vw_router w) m zr ValidationAccept" by blast
  from m(2) obtain c q where q: "vr_calls (vw_router w) c = Some q" "pw_msg q = push_msg m"
    "pw_st q = pw_state.Returned ValidationAccept" by (auto simp: val_handler_def)
  from wire_decides [OF assms(5) q(1,3)] obtain i msg where i: "i < length (vw_streams w)" "R i msg VR_ACCEPT"
    "msg_MessageId msg = msg_MessageId (pw_msg q)" "\<exists>c' k'. vr_calls (vw_router w) c' = Some k' \<and> pw_msg k' = msg" by auto
  then have p: "msg \<in> pushed (vw_router w)" by (auto simp: pushed_def)
  have "msg_MessageId msg = pm_ID m" using i(3) q(2) by (simp add: push_msg_def)
  with m(1) i(1,2) p show ?thesis by blast
qed

theorem foreign_accept_end_to_end_witness:
  "\<exists>w s0 s1 s. (vw_step (\<lambda>i m v. v = VR_ACCEPT))\<^sup>*\<^sup>* (new_wire 1) w
    \<and> NewMsgRouter 2 1 (\<lambda>m r r'. r' = ValidationAccept) = Ret s0 \<and> refresh_router s0 (val_handler (vw_router w)) = Some s1
    \<and> run_ops path_ops s1 = Some s \<and> rt_waiters s 0 = Some (Got ValidationAccept)
    \<and> (\<exists>m. (0, m) \<in> set (rt_accepted s) \<and> (\<exists>msg \<in> pushed (vw_router w). msg_MessageId msg = pm_ID m))"
proof -
  have a: "convertResult VR_ACCEPT = ValidationAccept" by (simp add: convertResult_def)
  obtain w k where w: "(vw_step (\<lambda>i m v. v = VR_ACCEPT))\<^sup>*\<^sup>* (new_wire 1) w" "vr_calls (vw_router w) 0 = Some k"
    "pw_st k = pw_state.Returned ValidationAccept" "pw_msg k = push_msg path_msg"
    using wire_run [of VR_ACCEPT "push_msg path_msg"] unfolding a by blast
  have "val_handler (vw_router w) path_msg ValidationAccept ValidationAccept" using w(2-4) by (auto simp: val_handler_def)
  from path_run [of "val_handler (vw_router w)" "\<lambda>m r r'. r' = ValidationAccept", OF this] obtain s0 s1 s where s:
    "NewMsgRouter 2 1 (\<lambda>m r r'. r' = ValidationAccept) = Ret s0" "refresh_router s0 (val_handler (vw_router w)) = Some s1"
    "run_ops path_ops s1 = Some s" "rt_installed s = [\<lambda>m r r'. r' = ValidationAccept, val_handler (vw_router w)]"
    "rt_waiters s 0 = Some (Got ValidationAccept)" by blast
  have r: "(rt_step ValidationAccept)\<^sup>*\<^sup>* s1 s" using run_ops_steps [OF s(3)] path_ops_steps by blast
  from foreign_accept_end_to_end [OF s(1,2) r s(4) w(1) s(5), of "Inr ValidationAccept" "''host''" "''p''"]
  have "\<exists>m. (0, m) \<in> set (rt_accepted s) \<and> (\<exists>msg \<in> pushed (vw_router w). msg_MessageId msg = pm_ID m)"
    by (auto simp: wait_result_def validateMsg_def)
  with w(1) s show ?thesis by blast
qed

end
